(* ===== verification/Prelude.thy ===== *)
theory Prelude
  imports Main "HOL-Library.Word" "HOL-Library.Sublist"
begin

unbundle bit_operations_syntax

text \<open>
  Shared ground of the development: the names of the machine types that the native profiler
  uses (\<open>uintptr_t\<close>, \<open>size_t\<close> and \<open>ClassID\<close> are 64-bit words on the supported Linux targets), the
  collections of simplification rules that the component theories fill, and generic facts on
  words, lists and options that several components use.
\<close>

type_synonym u8 = "8 word"
type_synonym u16 = "16 word"
type_synonym u32 = "32 word"
type_synonym u64 = "64 word"
type_synonym uintptr = "64 word"
type_synonym ClassID = "64 word"

named_theorems wf_simps \<open>unfolding of the well-formedness invariants of the components\<close>
named_theorems op_simps \<open>unfolding of the operations of the components\<close>

section \<open>Masks of power-of-two tables\<close>

text \<open>The C++ code reduces an index with \<open>x & (capacity - 1)\<close>, where the capacity is a power of two.\<close>

lemma and_mask_unat:
  "unat (x AND mask k :: 'a::len word) = unat x mod 2 ^ k"
proof -
  have "unat (x AND mask k) = unat (take_bit k x)"
    by (simp add: take_bit_eq_mask)
  also have "\<dots> = take_bit k (unat x)"
    by (rule unsigned_take_bit_eq)
  finally show ?thesis by (simp add: take_bit_eq_mod)
qed

lemma pow2_minus_one_mask:
  "(2 ^ k - 1 :: 'a::len word) = mask k"
  by (simp add: mask_eq_decr_exp)

lemma unat_next_masked:
  fixes x :: "'a::len word"
  assumes "unat x < 2 ^ k" and "k < LENGTH('a)"
  shows "unat ((x + 1) AND mask k) = (unat x + 1) mod 2 ^ k"
proof -
  have "unat (x + 1) mod 2 ^ k = (unat x + 1) mod 2 ^ k"
    using assms(2)
    by (simp add: unat_word_ariths mod_mod_cancel le_imp_power_dvd)
  then show ?thesis
    by (simp add: and_mask_unat)
qed

lemma unat_of_nat_less:
  "n < 2 ^ LENGTH('a) \<Longrightarrow> unat (of_nat n :: 'a::len word) = n"
  by (simp add: unsigned_of_nat take_bit_nat_eq_self)

lemma unat_pow2:
  assumes "k < LENGTH('a)"
  shows "unat (2 ^ k :: 'a::len word) = 2 ^ k"
proof -
  have "unat (of_nat (2 ^ k) :: 'a word) = 2 ^ k"
    by (rule unat_of_nat_less) (use assms in simp)
  then show ?thesis by simp
qed

section \<open>Cyclic positions\<close>

text \<open>Every position of a table of size \<open>n\<close> is met when one walks \<open>n\<close> steps cyclically.\<close>

lemma cyclic_reach:
  fixes e s n :: nat
  assumes "e < n" and "s < n"
  shows "\<exists>d<n. e = (s + d) mod n"
proof (cases "s \<le> e")
  case True
  then show ?thesis using assms by (intro exI[of _ "e - s"]) auto
next
  case False
  then show ?thesis using assms by (intro exI[of _ "e + n - s"]) auto
qed

lemma cyclic_inj_le:
  fixes s n :: nat
  assumes "(s + i) mod n = (s + j) mod n" and "i \<le> j" and "j < n"
  shows "i = j"
proof -
  have "n dvd (s + j) - (s + i)"
    using assms(1,2) by (intro mod_eq_dvd_iff_nat [THEN iffD1]) auto
  then have "n dvd j - i" using assms(2) by simp
  then show ?thesis using assms(2,3) by (auto dest: dvd_imp_le)
qed

lemma cyclic_inj:
  fixes s n :: nat
  assumes "(s + i) mod n = (s + j) mod n" and "i < n" and "j < n"
  shows "i = j"
  using assms cyclic_inj_le [of s i n j] cyclic_inj_le [of s j n i] by linarith

lemma option_eqI: "(\<And>v. a = Some v \<longleftrightarrow> b = Some v) \<Longrightarrow> a = b"
  by (cases a; cases b) auto

end
