(* ===== verification/Transition.thy ===== *)
theory Transition
  imports Prelude
begin

text \<open>
  Step relations and their reachable states, and the interface by which a component with an
  inductive invariant hands it to its clients. The concurrent components (the spin locks, the ring
  buffer) and the components driven by sequences of calls use it.
\<close>

inductive reachable :: "('s \<Rightarrow> bool) \<Rightarrow> ('s \<Rightarrow> 's \<Rightarrow> bool) \<Rightarrow> 's \<Rightarrow> bool"
  for init :: "'s \<Rightarrow> bool" and step :: "'s \<Rightarrow> 's \<Rightarrow> bool" where
  start: "init s \<Longrightarrow> reachable init step s"
| next_step: "reachable init step s \<Longrightarrow> step s t \<Longrightarrow> reachable init step t"

locale invariant_system =
  fixes init :: "'s \<Rightarrow> bool"
    and step :: "'s \<Rightarrow> 's \<Rightarrow> bool"
    and inv :: "'s \<Rightarrow> bool"
  assumes init_inv: "init s \<Longrightarrow> inv s"
    and step_inv: "inv s \<Longrightarrow> step s t \<Longrightarrow> inv t"
begin

lemma reachable_inv: "reachable init step s \<Longrightarrow> inv s"
  by (induction rule: reachable.induct) (blast intro: init_inv step_inv)+

end

text \<open>The number of threads whose program counter satisfies a predicate, under one thread's step.\<close>

definition count_pc :: "('p \<Rightarrow> bool) \<Rightarrow> 'p list \<Rightarrow> nat" where
  "count_pc P ps = length (filter P ps)"

lemma count_pc_update:
  "i < length ps \<Longrightarrow> int (count_pc P (ps[i := p])) =
     int (count_pc P ps) - of_bool (P (ps ! i)) + of_bool (P p)"
proof (induction ps arbitrary: i)
  case Nil
  then show ?case by simp
next
  case (Cons q ps)
  then show ?case by (cases i) (auto simp: count_pc_def)
qed

lemma count_pc_pos: "i < length ps \<Longrightarrow> P (ps ! i) \<Longrightarrow> 0 < count_pc P ps"
  by (auto simp: count_pc_def filter_empty_conv)

lemma count_pc_le: "count_pc P ps \<le> length ps"
  by (simp add: count_pc_def)

lemma count_pc_one:
  assumes "count_pc P ps \<le> 1" and "i < length ps" and "j < length ps" and "P (ps ! i)" and "P (ps ! j)"
  shows "i = j"
proof -
  have "card {i. i < length ps \<and> P (ps ! i)} \<le> Suc 0"
    using assms(1) by (simp add: count_pc_def length_filter_conv_card)
  then show ?thesis
    using assms(2-5) card_le_Suc0_iff_eq [of "{i. i < length ps \<and> P (ps ! i)}"] by auto
qed

lemma count_pc_none:
  "count_pc P ps = 0 \<Longrightarrow> i < length ps \<Longrightarrow> \<not> P (ps ! i)"
  using count_pc_pos [of i ps P] by auto

end
