(* ===== verification/SpinLock.thy ===== *)
theory SpinLock
  imports Transition
begin

unbundle bit_operations_syntax

text \<open>
  The two spin locks of the profiler: \<open>SpinningMutex.hpp\<close> and \<open>ReaderWriterSpinningMutex.hpp\<close>.
  Each atomic operation of the source (load, store, exchange, compare-and-exchange, fetch-and-add)
  is one definition on the shared words; the functions of the API are per-thread step relations
  over program counters, one step per atomic operation, and the threads interleave freely. Times
  are nanoseconds of the steady clock; the deadline \<open>time_point::max()\<close> of the unbounded
  calls is \<open>None\<close>. The memory is sequentially consistent; the acquire and release annotations of the
  source and the thread-sanitizer hooks have no counterpart.
\<close>

section \<open>The exclusive spin lock\<close>

record SpinningMutex =
  sm_flag :: bool

definition k_max_active_spin :: nat where
  "k_max_active_spin = 4000"

definition k_yield_sleep :: int where
  "k_yield_sleep = 500000"

text \<open>\<open>_flag.exchange(true)\<close>: the lock is taken when the old value is \<open>false\<close>.\<close>

definition sm_try_lock :: "SpinningMutex \<Rightarrow> bool \<times> SpinningMutex" where
  "sm_try_lock m = (\<not> sm_flag m, m\<lparr>sm_flag := True\<rparr>)"

definition sm_unlock :: "SpinningMutex \<Rightarrow> SpinningMutex" where
  "sm_unlock m = m\<lparr>sm_flag := False\<rparr>"

text \<open>Has the deadline passed? \<open>now > timeout_time\<close>, never for \<open>time_point::max()\<close>.\<close>

definition sm_expired :: "int option \<Rightarrow> int \<Rightarrow> bool" where
  "sm_expired deadline now \<longleftrightarrow> (case deadline of None \<Rightarrow> False | Some t \<Rightarrow> now > t)"

text \<open>
  Program counters. \<open>SmTry\<close>: about to exchange in \<open>try_lock\<close>. \<open>SmFast\<close> and \<open>SmFastWait\<close>: the
  exchange and the waiting loop of \<open>lock_fast\<close>, with the spin count and the timeout of
  \<open>try_lock_for\<close>. \<open>SmSlow\<close>, \<open>SmSlowWait\<close> and \<open>SmSlowPoll\<close>: the exchange, the deadline check
  and the load after the sleep of \<open>try_lock_until_slow\<close>, with its deadline.
\<close>

datatype sm_pc = SmIdle | SmTry | SmFast nat int | SmFastWait nat int
  | SmSlow "int option" | SmSlowWait "int option" | SmSlowPoll "int option" | SmHeld

text \<open>\<open>try_lock\<close> and the entry of \<open>lock\<close> (no deadline) and of \<open>try_lock_for\<close>.\<close>

inductive sm_api_step :: "int \<Rightarrow> sm_pc \<times> SpinningMutex \<Rightarrow> sm_pc \<times> SpinningMutex \<Rightarrow> bool" for now where
  sm_call_try: "sm_api_step now (SmIdle, m) (SmTry, m)"
| sm_call_lock: "sm_api_step now (SmIdle, m) (SmSlow None, m)"
| sm_call_for: "sm_api_step now (SmIdle, m) (SmFast 0 timeout, m)"
| sm_try: "sm_try_lock m = (r, m') \<Longrightarrow> sm_api_step now (SmTry, m) (if r then SmHeld else SmIdle, m')"
| sm_release: "sm_api_step now (SmHeld, m) (SmIdle, sm_unlock m)"

text \<open>\<open>lock_fast\<close>; when the spins are used up, \<open>try_lock_for\<close> goes on with the slow loop.\<close>

inductive sm_fast_step :: "int \<Rightarrow> sm_pc \<times> SpinningMutex \<Rightarrow> sm_pc \<times> SpinningMutex \<Rightarrow> bool" for now where
  fast_try: "sm_try_lock m = (r, m') \<Longrightarrow>
     sm_fast_step now (SmFast n timeout, m) (if r then SmHeld else SmFastWait n timeout, m')"
| fast_spin: "n < k_max_active_spin \<Longrightarrow>
     sm_fast_step now (SmFastWait n timeout, m)
       (if sm_flag m then SmFastWait (n + 1) timeout else SmFast (n + 1) timeout, m)"
| fast_give_up: "n \<ge> k_max_active_spin \<Longrightarrow>
     sm_fast_step now (SmFastWait n timeout, m) (SmSlow (Some (now + timeout)), m)"

text \<open>\<open>try_lock_until_slow\<close>: a failed exchange is followed by deadline checks and sleeps.\<close>

inductive sm_slow_step :: "int \<Rightarrow> sm_pc \<times> SpinningMutex \<Rightarrow> sm_pc \<times> SpinningMutex \<Rightarrow> bool" for now where
  slow_try: "sm_try_lock m = (r, m') \<Longrightarrow>
     sm_slow_step now (SmSlow d, m) (if r then SmHeld else SmSlowWait d, m')"
| slow_timeout: "sm_expired d now \<Longrightarrow> sm_slow_step now (SmSlowWait d, m) (SmIdle, m)"
| slow_sleep: "\<not> sm_expired d now \<Longrightarrow> sm_slow_step now (SmSlowWait d, m) (SmSlowPoll d, m)"
| slow_poll: "sm_slow_step now (SmSlowPoll d, m) (if sm_flag m then SmSlowWait d else SmSlow d, m)"

record sm_sys =
  sms_mutex :: SpinningMutex
  sms_pcs :: "sm_pc list"
  sms_now :: int

definition sm_init :: "sm_sys \<Rightarrow> bool" where
  "sm_init s \<longleftrightarrow> sms_mutex s = \<lparr>sm_flag = False\<rparr> \<and> list_all (\<lambda>p. p = SmIdle) (sms_pcs s)"

text \<open>One thread performs one atomic operation, or time passes.\<close>

inductive sm_step :: "sm_sys \<Rightarrow> sm_sys \<Rightarrow> bool" where
  sm_thread: "i < length (sms_pcs s) \<Longrightarrow>
     sm_api_step (sms_now s) (sms_pcs s ! i, sms_mutex s) (p, m)
     \<or> sm_fast_step (sms_now s) (sms_pcs s ! i, sms_mutex s) (p, m)
     \<or> sm_slow_step (sms_now s) (sms_pcs s ! i, sms_mutex s) (p, m) \<Longrightarrow>
     sm_step s (s\<lparr>sms_pcs := (sms_pcs s)[i := p], sms_mutex := m\<rparr>)"
| sm_tick: "0 \<le> d \<Longrightarrow> sm_step s (s\<lparr>sms_now := sms_now s + d\<rparr>)"

section \<open>The reader-writer spin lock\<close>

record ReaderWriterSpinningMutex =
  rw_state :: "32 word"
  rw_waitingWriters :: "32 word"

definition kFree :: "32 word" where
  "kFree = 0"

definition kExclusive :: "32 word" where
  "kExclusive = -1"

definition kMaxActiveSpin :: nat where
  "kMaxActiveSpin = 4000"

definition kYieldSleep :: int where
  "kYieldSleep = 500000"

definition rw_new :: ReaderWriterSpinningMutex where
  "rw_new = \<lparr>rw_state = 0, rw_waitingWriters = 0\<rparr>"

text \<open>The compare-and-exchange of \<open>try_lock\<close>.\<close>

definition rw_try_lock :: "ReaderWriterSpinningMutex \<Rightarrow> bool \<times> ReaderWriterSpinningMutex" where
  "rw_try_lock m =
     (if rw_state m = kFree then (True, m\<lparr>rw_state := kExclusive\<rparr>) else (False, m))"

definition rw_unlock :: "ReaderWriterSpinningMutex \<Rightarrow> ReaderWriterSpinningMutex" where
  "rw_unlock m = m\<lparr>rw_state := kFree\<rparr>"

definition rw_unlock_shared :: "ReaderWriterSpinningMutex \<Rightarrow> ReaderWriterSpinningMutex" where
  "rw_unlock_shared m = m\<lparr>rw_state := rw_state m - 1\<rparr>"

definition WaitingWriterCountForTest :: "ReaderWriterSpinningMutex \<Rightarrow> int" where
  "WaitingWriterCountForTest m = sint (rw_waitingWriters m)"

text \<open>Constructor and destructor of \<open>WaitingWriterGuard\<close>.\<close>

definition guard_enter :: "ReaderWriterSpinningMutex \<Rightarrow> ReaderWriterSpinningMutex" where
  "guard_enter m = m\<lparr>rw_waitingWriters := rw_waitingWriters m + 1\<rparr>"

definition guard_leave :: "ReaderWriterSpinningMutex \<Rightarrow> ReaderWriterSpinningMutex" where
  "guard_leave m = m\<lparr>rw_waitingWriters := rw_waitingWriters m - 1\<rparr>"

text \<open>
  One compare-and-exchange of the loop of \<open>try_lock_shared_once\<close> with the value \<open>expected\<close>: on
  success the number of readers goes up; on failure \<open>expected\<close> becomes the current value.
\<close>

definition rw_shared_cas :: "ReaderWriterSpinningMutex \<Rightarrow> 32 word \<Rightarrow> bool \<times> 32 word \<times> ReaderWriterSpinningMutex" where
  "rw_shared_cas m expected =
     (if rw_state m = expected then (True, expected, m\<lparr>rw_state := expected + 1\<rparr>)
      else (False, rw_state m, m))"

text \<open>
  \<open>BoundedSleep\<close>: nothing for a duration of zero or less, otherwise the \<open>timespec\<close> (seconds,
  nanoseconds) handed to \<open>clock_nanosleep\<close>. C++ durations convert with truncation.
\<close>

definition BoundedSleep :: "int \<Rightarrow> (int \<times> int) option" where
  "BoundedSleep duration =
     (if duration \<le> 0 then None
      else let seconds = sgn duration * (\<bar>duration\<bar> div 1000000000)
           in Some (seconds, duration - seconds * 1000000000))"

text \<open>What a failed attempt of the two slow loops does next.\<close>

datatype backoff = Spin | TimedOut | Sleep "(int \<times> int) option"

definition rw_expired :: "int option \<Rightarrow> int \<Rightarrow> bool" where
  "rw_expired deadline now \<longleftrightarrow> (case deadline of None \<Rightarrow> False | Some t \<Rightarrow> now \<ge> t)"

definition sleep_budget :: "int option \<Rightarrow> int \<Rightarrow> int" where
  "sleep_budget deadline now =
     (case deadline of None \<Rightarrow> kYieldSleep | Some t \<Rightarrow> min kYieldSleep (t - now))"

definition rw_backoff :: "nat \<Rightarrow> int option \<Rightarrow> int \<Rightarrow> backoff" where
  "rw_backoff spincount deadline now =
     (if spincount < kMaxActiveSpin then Spin
      else if rw_expired deadline now then TimedOut
      else Sleep (BoundedSleep (sleep_budget deadline now)))"

text \<open>
  The loop of \<open>try_lock_exclusive_until_slow\<close> seen by the thread that runs it: \<open>cas i\<close> says
  whether the compare-and-exchange of the \<open>i\<close>-th iteration succeeds, \<open>clock i\<close> is the time read in
  that iteration. The first argument bounds the number of iterations; \<open>None\<close>: still running.
\<close>

fun try_lock_exclusive_until_slow ::
  "nat \<Rightarrow> (nat \<Rightarrow> bool) \<Rightarrow> (nat \<Rightarrow> int) \<Rightarrow> int option \<Rightarrow> nat \<Rightarrow> nat \<Rightarrow> bool option" where
  "try_lock_exclusive_until_slow 0 cas clock deadline i spincount = None"
| "try_lock_exclusive_until_slow (Suc fuel) cas clock deadline i spincount =
     (if cas i then Some True
      else case rw_backoff spincount deadline (clock i) of
        Spin \<Rightarrow> try_lock_exclusive_until_slow fuel cas clock deadline (Suc i) (spincount + 1)
      | TimedOut \<Rightarrow> Some False
      | Sleep _ \<Rightarrow> try_lock_exclusive_until_slow fuel cas clock deadline (Suc i) spincount)"

text \<open>
  Program counters of the reader-writer lock. A call is \<open>try_lock()\<close>/\<open>try_lock_shared()\<close>
  (\<open>CallTry\<close>) or a blocking one with its timeout (\<open>CallFor (Some t)\<close>; \<open>CallFor None\<close> for
  \<open>lock()\<close>/\<open>lock_shared()\<close>). The slow loops carry their deadline and spin count.
\<close>

datatype rw_call = CallTry | CallFor "int option"

datatype rw_pc =
    RwIdle
  | XFast rw_call
  | XGuard "int option"
  | XSlow "int option" nat
  | XBackoff "int option" nat
  | XLeave bool
  | XHeld
  | SCheck rw_call "(int option \<times> nat) option"
  | SLoad rw_call "(int option \<times> nat) option"
  | SCas rw_call "(int option \<times> nat) option" "32 word"
  | SFail rw_call "(int option \<times> nat) option"
  | SHeld

definition deadline_of :: "int \<Rightarrow> int option \<Rightarrow> int option" where
  "deadline_of now timeout = map_option (\<lambda>t. now + t) timeout"

text \<open>\<open>lock\<close>, \<open>try_lock_for\<close>, \<open>try_lock\<close> and \<open>unlock\<close> up to the slow loop.\<close>

inductive rw_exclusive_api ::
  "int \<Rightarrow> rw_pc \<times> ReaderWriterSpinningMutex \<Rightarrow> rw_pc \<times> ReaderWriterSpinningMutex \<Rightarrow> bool" for now where
  x_call: "rw_exclusive_api now (RwIdle, m) (XFast c, m)"
| x_fast_ok: "rw_try_lock m = (True, m') \<Longrightarrow> rw_exclusive_api now (XFast c, m) (XHeld, m')"
| x_fast_try: "rw_try_lock m = (False, m') \<Longrightarrow> rw_exclusive_api now (XFast CallTry, m) (RwIdle, m')"
| x_fast_for: "rw_try_lock m = (False, m') \<Longrightarrow> rw_exclusive_api now (XFast (CallFor t), m) (XGuard t, m')"
| x_guard: "rw_exclusive_api now (XGuard t, m) (XSlow (deadline_of now t) 0, guard_enter m)"
| x_leave: "rw_exclusive_api now (XLeave r, m) (if r then XHeld else RwIdle, guard_leave m)"
| x_unlock: "rw_exclusive_api now (XHeld, m) (RwIdle, rw_unlock m)"

text \<open>\<open>try_lock_exclusive_until_slow\<close>; its weak compare-and-exchange may also fail spuriously.\<close>

inductive rw_exclusive_slow ::
  "int \<Rightarrow> rw_pc \<times> ReaderWriterSpinningMutex \<Rightarrow> rw_pc \<times> ReaderWriterSpinningMutex \<Rightarrow> bool" for now where
  x_slow_ok: "rw_try_lock m = (True, m') \<Longrightarrow> rw_exclusive_slow now (XSlow d n, m) (XLeave True, m')"
| x_slow_fail: "rw_exclusive_slow now (XSlow d n, m) (XBackoff d n, m)"
| x_spin: "rw_backoff n d now = Spin \<Longrightarrow> rw_exclusive_slow now (XBackoff d n, m) (XSlow d (n + 1), m)"
| x_timeout: "rw_backoff n d now = TimedOut \<Longrightarrow> rw_exclusive_slow now (XBackoff d n, m) (XLeave False, m)"
| x_sleep: "rw_backoff n d now = Sleep k \<Longrightarrow> rw_exclusive_slow now (XBackoff d n, m) (XSlow d n, m)"

text \<open>\<open>try_lock_shared\<close>, \<open>try_lock_shared_once\<close> and \<open>unlock_shared\<close>.\<close>

inductive rw_shared_api ::
  "int \<Rightarrow> rw_pc \<times> ReaderWriterSpinningMutex \<Rightarrow> rw_pc \<times> ReaderWriterSpinningMutex \<Rightarrow> bool" for now where
  s_call: "rw_shared_api now (RwIdle, m) (SCheck c None, m)"
| s_check_ok: "rw_waitingWriters m = 0 \<Longrightarrow> rw_shared_api now (SCheck c k, m) (SLoad c k, m)"
| s_check_fail: "rw_waitingWriters m \<noteq> 0 \<Longrightarrow> rw_shared_api now (SCheck c k, m) (SFail c k, m)"
| s_load: "rw_shared_api now (SLoad c k, m) (SCas c k (rw_state m), m)"
| s_writer: "sint e < sint kFree \<Longrightarrow> rw_shared_api now (SCas c k e, m) (SFail c k, m)"
| s_cas_ok: "sint e \<ge> sint kFree \<Longrightarrow> rw_shared_cas m e = (True, e', m') \<Longrightarrow>
     rw_shared_api now (SCas c k e, m) (SHeld, m')"
| s_cas_retry: "sint e \<ge> sint kFree \<Longrightarrow> rw_shared_api now (SCas c k e, m) (SCas c k (rw_state m), m)"
| s_unlock: "rw_shared_api now (SHeld, m) (RwIdle, rw_unlock_shared m)"

text \<open>A failed attempt: \<open>try_lock_shared\<close> returns, the blocking calls enter or go on with \<open>try_lock_shared_until_slow\<close>.\<close>

inductive rw_shared_slow ::
  "int \<Rightarrow> rw_pc \<times> ReaderWriterSpinningMutex \<Rightarrow> rw_pc \<times> ReaderWriterSpinningMutex \<Rightarrow> bool" for now where
  s_try_fail: "rw_shared_slow now (SFail CallTry None, m) (RwIdle, m)"
| s_enter_slow: "rw_shared_slow now (SFail (CallFor t) None, m) (SCheck (CallFor t) (Some (deadline_of now t, 0)), m)"
| s_spin: "rw_backoff n d now = Spin \<Longrightarrow>
     rw_shared_slow now (SFail c (Some (d, n)), m) (SCheck c (Some (d, n + 1)), m)"
| s_timeout: "rw_backoff n d now = TimedOut \<Longrightarrow> rw_shared_slow now (SFail c (Some (d, n)), m) (RwIdle, m)"
| s_sleep: "rw_backoff n d now = Sleep j \<Longrightarrow>
     rw_shared_slow now (SFail c (Some (d, n)), m) (SCheck c (Some (d, n)), m)"

record rw_sys =
  rws_mutex :: ReaderWriterSpinningMutex
  rws_pcs :: "rw_pc list"
  rws_now :: int

definition rw_init :: "rw_sys \<Rightarrow> bool" where
  "rw_init s \<longleftrightarrow> rws_mutex s = rw_new \<and> list_all (\<lambda>p. p = RwIdle) (rws_pcs s)
     \<and> length (rws_pcs s) < 2 ^ 31"

inductive rw_step :: "rw_sys \<Rightarrow> rw_sys \<Rightarrow> bool" where
  rw_thread: "i < length (rws_pcs s) \<Longrightarrow>
     rw_exclusive_api (rws_now s) (rws_pcs s ! i, rws_mutex s) (p, m)
     \<or> rw_exclusive_slow (rws_now s) (rws_pcs s ! i, rws_mutex s) (p, m)
     \<or> rw_shared_api (rws_now s) (rws_pcs s ! i, rws_mutex s) (p, m)
     \<or> rw_shared_slow (rws_now s) (rws_pcs s ! i, rws_mutex s) (p, m) \<Longrightarrow>
     rw_step s (s\<lparr>rws_pcs := (rws_pcs s)[i := p], rws_mutex := m\<rparr>)"
| rw_tick: "0 \<le> d \<Longrightarrow> rw_step s (s\<lparr>rws_now := rws_now s + d\<rparr>)"

section \<open>Mutual exclusion of the spin lock\<close>

definition sm_inv :: "sm_sys \<Rightarrow> bool" where
  "sm_inv s \<longleftrightarrow> count_pc (\<lambda>p. p = SmHeld) (sms_pcs s) = of_bool (sm_flag (sms_mutex s))"

lemmas sm_step_cases = sm_api_step.cases sm_fast_step.cases sm_slow_step.cases

text \<open>A thread's step changes the flag exactly as it changes whether the thread holds the lock.\<close>

lemma sm_local_step:
  assumes "sm_api_step now (p, m) (p', m') \<or> sm_fast_step now (p, m) (p', m') \<or> sm_slow_step now (p, m) (p', m')"
    and "p = SmHeld \<Longrightarrow> sm_flag m"
  shows "of_bool (sm_flag m') - of_bool (p' = SmHeld) = (of_bool (sm_flag m) - of_bool (p = SmHeld) :: int)"
  using assms by (auto simp: sm_try_lock_def sm_unlock_def elim!: sm_step_cases split: if_splits)

lemma sm_step_inv:
  assumes "sm_inv s" and "sm_step s t"
  shows "sm_inv t"
  using assms(2)
proof cases
  case (sm_thread i p m)
  let ?held = "\<lambda>p. p = SmHeld"
  have "sm_flag (sms_mutex s)" if "sms_pcs s ! i = SmHeld"
    using count_pc_pos [of i "sms_pcs s" ?held] sm_thread(2) that assms(1) by (auto simp: sm_inv_def)
  with sm_local_step [OF sm_thread(3)]
  have "of_bool (sm_flag m) - of_bool (p = SmHeld)
      = (of_bool (sm_flag (sms_mutex s)) - of_bool (sms_pcs s ! i = SmHeld) :: int)" by blast
  then have "int (count_pc ?held ((sms_pcs s)[i := p])) = of_bool (sm_flag m)"
    using count_pc_update [OF sm_thread(2), of ?held p] assms(1) by (simp add: sm_inv_def)
  then show ?thesis using sm_thread(1) by (simp add: sm_inv_def of_bool_def split: if_splits)
next
  case (sm_tick d)
  then show ?thesis using assms(1) by (simp add: sm_inv_def)
qed

interpretation spin: invariant_system sm_init sm_step sm_inv
proof unfold_locales
  fix s assume "sm_init s"
  then show "sm_inv s"
    by (auto simp: sm_init_def sm_inv_def count_pc_def list_all_iff filter_empty_conv)
qed (rule sm_step_inv)

section \<open>Invariant of the reader-writer lock\<close>

definition is_writer :: "rw_pc \<Rightarrow> bool" where
  "is_writer p \<longleftrightarrow> p = XHeld \<or> p = XLeave True"

definition is_reader :: "rw_pc \<Rightarrow> bool" where
  "is_reader p \<longleftrightarrow> p = SHeld"

text \<open>The threads that live inside a \<open>WaitingWriterGuard\<close>.\<close>

fun is_waiting :: "rw_pc \<Rightarrow> bool" where
  "is_waiting (XSlow _ _) = True"
| "is_waiting (XBackoff _ _) = True"
| "is_waiting (XLeave _) = True"
| "is_waiting _ = False"

definition rw_inv :: "rw_sys \<Rightarrow> bool" where
  "rw_inv s \<longleftrightarrow> length (rws_pcs s) < 2 ^ 31
     \<and> rw_waitingWriters (rws_mutex s) = of_nat (count_pc is_waiting (rws_pcs s))
     \<and> (count_pc is_writer (rws_pcs s) = 0
          \<and> rw_state (rws_mutex s) = of_nat (count_pc is_reader (rws_pcs s))
        \<or> count_pc is_writer (rws_pcs s) = 1 \<and> count_pc is_reader (rws_pcs s) = 0
          \<and> rw_state (rws_mutex s) = kExclusive)"

lemmas rw_step_cases = rw_exclusive_api.cases rw_exclusive_slow.cases rw_shared_api.cases rw_shared_slow.cases
lemmas rw_op_defs = rw_try_lock_def rw_unlock_def rw_unlock_shared_def guard_enter_def guard_leave_def
  rw_shared_cas_def kFree_def

text \<open>
  The effect of a thread's step on the two shared words, by what the step does to the thread's
  roles as writer, reader and waiting writer.
\<close>

lemma rw_local_step:
  assumes "rw_exclusive_api now (p, m) (p', m') \<or> rw_exclusive_slow now (p, m) (p', m')
    \<or> rw_shared_api now (p, m) (p', m') \<or> rw_shared_slow now (p, m) (p', m')"
  shows "rw_waitingWriters m' = rw_waitingWriters m + of_bool (is_waiting p') - of_bool (is_waiting p)
     \<and> (is_writer p = is_writer p' \<and> is_reader p = is_reader p' \<and> rw_state m' = rw_state m
       \<or> \<not> is_writer p \<and> is_writer p' \<and> \<not> is_reader p \<and> \<not> is_reader p' \<and> rw_state m = kFree \<and> rw_state m' = kExclusive
       \<or> is_writer p \<and> \<not> is_writer p' \<and> \<not> is_reader p \<and> \<not> is_reader p' \<and> rw_state m' = kFree
       \<or> \<not> is_writer p \<and> \<not> is_writer p' \<and> \<not> is_reader p \<and> is_reader p' \<and> sint (rw_state m) \<ge> 0 \<and> rw_state m' = rw_state m + 1
       \<or> \<not> is_writer p \<and> \<not> is_writer p' \<and> is_reader p \<and> \<not> is_reader p' \<and> rw_state m' = rw_state m - 1)"
  using assms
  by (elim disjE rw_step_cases) (auto simp: rw_op_defs is_writer_def is_reader_def split: if_splits)

lemma of_nat_word_small:
  assumes "n < 2 ^ 31"
  shows "(of_nat n :: 32 word) = 0 \<longleftrightarrow> n = 0"
  using unat_of_nat_less [where 'a = 32, of n] assms by auto

lemma of_nat_waiting:
  assumes "int w' = int w + of_bool a - of_bool b"
  shows "(of_nat w :: 32 word) + of_bool a - of_bool b = of_nat w'"
proof -
  have "(of_int (int w') :: 32 word) = of_int (int w + of_bool a - of_bool b)" using assms by simp
  then show ?thesis by simp
qed

lemma rw_step_inv:
  assumes inv: "rw_inv s" and "rw_step s t"
  shows "rw_inv t"
  using assms(2)
proof cases
  case (rw_tick d)
  then show ?thesis using inv by (simp add: rw_inv_def)
next
  case (rw_thread i p m)
  let ?ps = "rws_pcs s" and ?m = "rws_mutex s"
  note step = rw_local_step [OF rw_thread(3)]
  note cnt = count_pc_update [OF rw_thread(2), of _ p]
  have "int (count_pc is_waiting (?ps[i := p])) =
      int (count_pc is_waiting ?ps) + of_bool (is_waiting p) - of_bool (is_waiting (?ps ! i))"
    using cnt [of is_waiting] by simp
  from of_nat_waiting [OF this]
  have waiting: "rw_waitingWriters m = of_nat (count_pc is_waiting (?ps[i := p]))"
    using step inv by (simp add: rw_inv_def)
  have bound: "count_pc is_reader ?ps < 2 ^ 31"
    using inv count_pc_le [of is_reader ?ps] by (simp add: rw_inv_def)
  have wpos: "is_writer (?ps ! i) \<Longrightarrow> 0 < count_pc is_writer ?ps"
    and rpos: "is_reader (?ps ! i) \<Longrightarrow> 0 < count_pc is_reader ?ps"
    using count_pc_pos [OF rw_thread(2)] by auto
  have state: "count_pc is_writer (?ps[i := p]) = 0
          \<and> rw_state m = of_nat (count_pc is_reader (?ps[i := p]))
        \<or> count_pc is_writer (?ps[i := p]) = 1 \<and> count_pc is_reader (?ps[i := p]) = 0
          \<and> rw_state m = kExclusive"
    using step [THEN conjunct2]
  proof (elim disjE)
    assume "is_writer (?ps ! i) = is_writer p \<and> is_reader (?ps ! i) = is_reader p \<and> rw_state m = rw_state ?m"
    then show ?thesis using inv cnt [of is_writer] cnt [of is_reader] by (auto simp: rw_inv_def)
  next
    assume a: "\<not> is_writer (?ps ! i) \<and> is_writer p \<and> \<not> is_reader (?ps ! i) \<and> \<not> is_reader p
      \<and> rw_state ?m = kFree \<and> rw_state m = kExclusive"
    then have "count_pc is_writer ?ps = 0 \<and> count_pc is_reader ?ps = 0"
      using inv of_nat_word_small [OF bound] by (auto simp: rw_inv_def kFree_def kExclusive_def)
    then show ?thesis using a cnt [of is_writer] cnt [of is_reader] by simp
  next
    assume a: "is_writer (?ps ! i) \<and> \<not> is_writer p \<and> \<not> is_reader (?ps ! i) \<and> \<not> is_reader p \<and> rw_state m = kFree"
    then have "count_pc is_writer ?ps = 1 \<and> count_pc is_reader ?ps = 0"
      using inv wpos by (auto simp: rw_inv_def)
    then show ?thesis using a cnt [of is_writer] cnt [of is_reader] by (simp add: kFree_def)
  next
    assume a: "\<not> is_writer (?ps ! i) \<and> \<not> is_writer p \<and> \<not> is_reader (?ps ! i) \<and> is_reader p
      \<and> sint (rw_state ?m) \<ge> 0 \<and> rw_state m = rw_state ?m + 1"
    then have "count_pc is_writer ?ps = 0 \<and> rw_state ?m = of_nat (count_pc is_reader ?ps)"
      using inv by (auto simp: rw_inv_def kExclusive_def)
    moreover have "count_pc is_reader (?ps[i := p]) = count_pc is_reader ?ps + 1"
      using a cnt [of is_reader] by simp
    ultimately show ?thesis using a cnt [of is_writer] by simp
  next
    assume a: "\<not> is_writer (?ps ! i) \<and> \<not> is_writer p \<and> is_reader (?ps ! i) \<and> \<not> is_reader p
      \<and> rw_state m = rw_state ?m - 1"
    then have "count_pc is_writer ?ps = 0 \<and> rw_state ?m = of_nat (count_pc is_reader ?ps)"
      using inv rpos by (auto simp: rw_inv_def)
    moreover have "count_pc is_reader ?ps = count_pc is_reader (?ps[i := p]) + 1"
      using a cnt [of is_reader] by simp
    ultimately show ?thesis using a cnt [of is_writer] by simp
  qed
  then show ?thesis using waiting inv rw_thread(1) by (simp add: rw_inv_def)
qed

interpretation rwlock: invariant_system rw_init rw_step rw_inv
proof unfold_locales
  fix s assume "rw_init s"
  then have "count_pc is_writer (rws_pcs s) = 0" "count_pc is_reader (rws_pcs s) = 0"
    "count_pc is_waiting (rws_pcs s) = 0"
    by (auto simp: rw_init_def count_pc_def list_all_iff filter_empty_conv is_writer_def is_reader_def)
  then show "rw_inv s" using \<open>rw_init s\<close> by (simp add: rw_inv_def rw_init_def rw_new_def)
qed (rule rw_step_inv)

section \<open>The bounded wait of the slow loop\<close>

text \<open>
  What the loop relies on: a sleep lasts at least as long as it was asked to, and the clock does
  not go back. \<open>clock i\<close> is read in iteration \<open>i\<close>, and the sleeps start after the spins.
\<close>

definition sleeps_advance :: "(nat \<Rightarrow> int) \<Rightarrow> int \<Rightarrow> bool" where
  "sleeps_advance clock t \<longleftrightarrow>
     (\<forall>j\<ge>kMaxActiveSpin. clock (Suc j) \<ge> clock j + sleep_budget (Some t) (clock j))"

text \<open>What the result says: a success comes from a successful exchange, a failure from the deadline.\<close>

definition slow_outcome :: "(nat \<Rightarrow> bool) \<Rightarrow> (nat \<Rightarrow> int) \<Rightarrow> int \<Rightarrow> nat \<Rightarrow> bool \<Rightarrow> bool" where
  "slow_outcome cas clock t i r \<longleftrightarrow>
     (if r then \<exists>j\<ge>i. cas j
      else \<exists>j\<ge>i. t \<le> clock j \<and> (\<forall>l. i \<le> l \<and> l \<le> j \<longrightarrow> \<not> cas l))"

lemma slow_outcome_success: "cas i \<Longrightarrow> slow_outcome cas clock t i True"
  by (auto simp: slow_outcome_def)

lemma slow_outcome_timeout: "\<not> cas i \<Longrightarrow> t \<le> clock i \<Longrightarrow> slow_outcome cas clock t i False"
  by (auto simp: slow_outcome_def intro!: exI [of _ i] dest: le_antisym)

lemma slow_outcome_later:
  assumes "\<not> cas i" and "slow_outcome cas clock t (Suc i) r"
  shows "slow_outcome cas clock t i r"
proof (cases r)
  case True
  then show ?thesis using assms(2) by (auto simp: slow_outcome_def intro: Suc_leD)
next
  case False
  then obtain j where j: "j \<ge> Suc i" "t \<le> clock j" "\<And>l. Suc i \<le> l \<Longrightarrow> l \<le> j \<Longrightarrow> \<not> cas l"
    using assms(2) by (auto simp: slow_outcome_def)
  have "\<not> cas l" if "i \<le> l" "l \<le> j" for l
    using j(3) [of l] assms(1) that by (cases "l = i") auto
  then show ?thesis using j(1,2) False by (auto simp: slow_outcome_def intro!: exI [of _ j])
qed

lemma slow_sleep_phase:
  assumes "sleeps_advance clock t" and "i \<ge> kMaxActiveSpin" and "spincount \<ge> kMaxActiveSpin"
    and "t - clock i \<le> int n * kYieldSleep" and "n < fuel"
  shows "\<exists>r. try_lock_exclusive_until_slow fuel cas clock (Some t) i spincount = Some r
           \<and> slow_outcome cas clock t i r"
  using assms(2-)
proof (induction n arbitrary: i fuel)
  case 0
  then obtain f where f: "fuel = Suc f" by (cases fuel) auto
  have late: "t \<le> clock i" using "0.prems"(3) by simp
  then have "rw_backoff spincount (Some t) (clock i) = TimedOut"
    using "0.prems"(2) by (simp add: rw_backoff_def rw_expired_def)
  then show ?case using f late slow_outcome_success slow_outcome_timeout by (cases "cas i") auto
next
  case (Suc n)
  then obtain f where f: "fuel = Suc f" "n < f" by (cases fuel) auto
  show ?case
  proof (cases "cas i \<or> t \<le> clock i")
    case True
    have "\<not> cas i \<Longrightarrow> rw_backoff spincount (Some t) (clock i) = TimedOut"
      using True Suc.prems(2) by (simp add: rw_backoff_def rw_expired_def)
    then show ?thesis using True f slow_outcome_success slow_outcome_timeout by (cases "cas i") auto
  next
    case False
    then obtain d where b: "rw_backoff spincount (Some t) (clock i) = Sleep d"
      using Suc.prems(2) by (auto simp: rw_backoff_def rw_expired_def)
    have "clock (Suc i) \<ge> clock i + min kYieldSleep (t - clock i)"
      using assms(1) Suc.prems(1) by (simp add: sleeps_advance_def sleep_budget_def)
    then have "t - clock (Suc i) \<le> int n * kYieldSleep"
      using Suc.prems(3) by (auto simp: algebra_simps kYieldSleep_def min_def split: if_splits)
    then have "\<exists>r. try_lock_exclusive_until_slow f cas clock (Some t) (Suc i) spincount = Some r
        \<and> slow_outcome cas clock t (Suc i) r"
      using Suc.IH [of "Suc i" f] Suc.prems(1,2) f(2) by simp
    then show ?thesis using False b f slow_outcome_later [of cas i] by auto
  qed
qed

lemma slow_spin_phase:
  assumes "sleeps_advance clock t" and "i \<le> kMaxActiveSpin"
    and "t - clock kMaxActiveSpin \<le> int n * kYieldSleep" and "(kMaxActiveSpin - i) + n < fuel"
  shows "\<exists>r. try_lock_exclusive_until_slow fuel cas clock (Some t) i i = Some r
           \<and> slow_outcome cas clock t i r"
  using assms(2-)
proof (induction "kMaxActiveSpin - i" arbitrary: i fuel)
  case 0
  then show ?case using slow_sleep_phase [OF assms(1), of i i n fuel] by simp
next
  case (Suc d)
  have lt: "Suc i \<le> kMaxActiveSpin" and d: "d = kMaxActiveSpin - Suc i" using Suc.hyps(2) by linarith+
  obtain f where f: "fuel = Suc f" "(kMaxActiveSpin - Suc i) + n < f"
    using Suc.prems(3) lt by (cases fuel) auto
  have spin: "rw_backoff i (Some t) (clock i) = Spin"
    using lt by (simp add: rw_backoff_def)
  have "\<exists>r. try_lock_exclusive_until_slow f cas clock (Some t) (Suc i) (Suc i) = Some r
      \<and> slow_outcome cas clock t (Suc i) r"
    by (rule Suc.hyps(1) [OF d lt Suc.prems(2) f(2)])
  then show ?case
    using f spin slow_outcome_success [of cas i] slow_outcome_later [of cas i] by (cases "cas i") auto
qed

section \<open>Properties\<close>

text \<open>
  Mutual exclusion of \<open>SpinningMutex\<close>: in every reachable state of any number of threads that
  call \<open>lock\<close>, \<open>try_lock\<close>, \<open>try_lock_for\<close> and \<open>unlock\<close>, at most one thread holds the lock, and the
  flag is set exactly when one does.
\<close>

lemma spinning_mutex_exclusion:
  assumes "reachable sm_init sm_step s"
  shows "(\<forall>i j. i < length (sms_pcs s) \<and> j < length (sms_pcs s)
            \<and> sms_pcs s ! i = SmHeld \<and> sms_pcs s ! j = SmHeld \<longrightarrow> i = j)
     \<and> (sm_flag (sms_mutex s) \<longleftrightarrow> SmHeld \<in> set (sms_pcs s))"
proof -
  have inv: "count_pc (\<lambda>p. p = SmHeld) (sms_pcs s) = of_bool (sm_flag (sms_mutex s))"
    using spin.reachable_inv [OF assms] by (simp add: sm_inv_def)
  then have "count_pc (\<lambda>p. p = SmHeld) (sms_pcs s) \<le> 1" by simp
  moreover have "SmHeld \<in> set (sms_pcs s) \<longleftrightarrow> 0 < count_pc (\<lambda>p. p = SmHeld) (sms_pcs s)"
    by (auto simp: count_pc_def filter_empty_conv)
  then have "sm_flag (sms_mutex s) \<longleftrightarrow> SmHeld \<in> set (sms_pcs s)"
    using inv by simp
  ultimately show ?thesis using count_pc_one [of "\<lambda>p. p = SmHeld"] by blast
qed

text \<open>A run in which the first of two threads takes the lock with \<open>try_lock\<close>.\<close>

lemma sm_reachable_held:
  "reachable sm_init sm_step \<lparr>sms_mutex = \<lparr>sm_flag = True\<rparr>, sms_pcs = [SmHeld, SmIdle], sms_now = 0\<rparr>"
proof -
  let ?s0 = "\<lparr>sms_mutex = \<lparr>sm_flag = False\<rparr>, sms_pcs = [SmIdle, SmIdle], sms_now = 0\<rparr>"
  have "reachable sm_init sm_step ?s0" by (rule reachable.start) (simp add: sm_init_def)
  moreover have "sm_step ?s0 (?s0\<lparr>sms_pcs := (sms_pcs ?s0)[0 := SmTry], sms_mutex := \<lparr>sm_flag = False\<rparr>\<rparr>)"
    by (rule sm_thread) (auto intro: sm_call_try)
  ultimately have r1: "reachable sm_init sm_step \<lparr>sms_mutex = \<lparr>sm_flag = False\<rparr>, sms_pcs = [SmTry, SmIdle], sms_now = 0\<rparr>"
    (is "reachable _ _ ?s1") by (auto dest: reachable.next_step)
  have "sm_api_step 0 (SmTry, \<lparr>sm_flag = False\<rparr>) (if True then SmHeld else SmIdle, \<lparr>sm_flag = True\<rparr>)"
    by (rule sm_try) (simp add: sm_try_lock_def)
  then have "sm_step ?s1 (?s1\<lparr>sms_pcs := (sms_pcs ?s1)[0 := SmHeld], sms_mutex := \<lparr>sm_flag = True\<rparr>\<rparr>)"
    by (intro sm_thread) auto
  then show ?thesis using r1 by (auto dest: reachable.next_step)
qed

text \<open>
  C11. Exclusion of \<open>ReaderWriterSpinningMutex\<close>: in every reachable state a thread that holds the
  lock exclusively is alone, no other thread holds it exclusively or shared; and the state word is
  what its documentation says: -1 with a writer, the number of readers otherwise.
\<close>

theorem rw_mutex_exclusion:
  assumes "reachable rw_init rw_step s"
  shows "(\<forall>i j. i < length (rws_pcs s) \<and> j < length (rws_pcs s) \<and> i \<noteq> j \<and> is_writer (rws_pcs s ! i)
            \<longrightarrow> \<not> is_writer (rws_pcs s ! j) \<and> \<not> is_reader (rws_pcs s ! j))
     \<and> sint (rw_state (rws_mutex s)) =
         (if \<exists>p \<in> set (rws_pcs s). is_writer p then -1 else int (count_pc is_reader (rws_pcs s)))"
proof -
  let ?ps = "rws_pcs s"
  have inv: "rw_inv s" by (rule rwlock.reachable_inv [OF assms])
  have one: "count_pc is_writer ?ps \<le> 1" using inv by (auto simp: rw_inv_def)
  have any: "(\<exists>p \<in> set ?ps. is_writer p) \<longleftrightarrow> 0 < count_pc is_writer ?ps"
    by (simp add: count_pc_def filter_empty_conv)
  have excl: "\<not> is_writer (?ps ! j) \<and> \<not> is_reader (?ps ! j)"
    if "i < length ?ps" "j < length ?ps" "i \<noteq> j" "is_writer (?ps ! i)" for i j
  proof -
    have "0 < count_pc is_writer ?ps" using count_pc_pos that by metis
    then have "count_pc is_reader ?ps = 0" using inv by (auto simp: rw_inv_def)
    then show ?thesis
      using count_pc_none [of is_reader ?ps j] count_pc_one [OF one that(1,2,4)] that(2,3) by blast
  qed
  have "count_pc is_reader ?ps < 2 ^ 31" using inv count_pc_le [of is_reader ?ps] by (simp add: rw_inv_def)
  then have "sint (of_nat (count_pc is_reader ?ps) :: 32 word) = int (count_pc is_reader ?ps)"
    by (simp add: signed_of_nat signed_take_bit_int_eq_self)
  then have "sint (rw_state (rws_mutex s)) =
      (if 0 < count_pc is_writer ?ps then -1 else int (count_pc is_reader ?ps))"
    using inv by (auto simp: rw_inv_def kExclusive_def)
  then show ?thesis using excl any by auto
qed

text \<open>A run in which the first of two threads takes the lock exclusively on its fast path.\<close>

lemma rw_reachable_writer:
  "reachable rw_init rw_step
     \<lparr>rws_mutex = \<lparr>rw_state = -1, rw_waitingWriters = 0\<rparr>, rws_pcs = [XHeld, RwIdle], rws_now = 0\<rparr>"
proof -
  let ?s0 = "\<lparr>rws_mutex = rw_new, rws_pcs = [RwIdle, RwIdle], rws_now = 0\<rparr>"
  have "reachable rw_init rw_step ?s0" by (rule reachable.start) (simp add: rw_init_def)
  moreover have "rw_step ?s0 (?s0\<lparr>rws_pcs := (rws_pcs ?s0)[0 := XFast CallTry], rws_mutex := rw_new\<rparr>)"
    by (rule rw_thread) (auto intro: x_call)
  ultimately have r1: "reachable rw_init rw_step \<lparr>rws_mutex = rw_new, rws_pcs = [XFast CallTry, RwIdle], rws_now = 0\<rparr>"
    (is "reachable _ _ ?s1") by (auto dest: reachable.next_step)
  have "rw_exclusive_api 0 (XFast CallTry, rw_new) (XHeld, \<lparr>rw_state = -1, rw_waitingWriters = 0\<rparr>)"
    by (rule x_fast_ok) (simp add: rw_try_lock_def rw_new_def kFree_def kExclusive_def)
  then have "rw_step ?s1 (?s1\<lparr>rws_pcs := (rws_pcs ?s1)[0 := XHeld],
      rws_mutex := \<lparr>rw_state = -1, rw_waitingWriters = 0\<rparr>\<rparr>)"
    by (intro rw_thread) auto
  then show ?thesis using r1 by (auto dest: reachable.next_step)
qed

theorem rw_mutex_exclusion_witness:
  "\<not> is_writer ([XHeld, RwIdle] ! 1) \<and> \<not> is_reader ([XHeld, RwIdle] ! 1) \<and> sint (-1 :: 32 word) = -1"
  using rw_mutex_exclusion [OF rw_reachable_writer, THEN conjunct1, rule_format, of 0 1]
  by (simp add: is_writer_def)

text \<open>
  Writer preference of \<open>ReaderWriterSpinningMutex\<close>: in every reachable state the counter of
  waiting writers is the number of threads inside the slow path of \<open>lock\<close> or \<open>try_lock_for\<close> (it
  never leaks), and while there is one, a reader that starts an attempt fails that attempt.
\<close>

lemma rw_writer_preference:
  assumes "reachable rw_init rw_step s"
  shows "WaitingWriterCountForTest (rws_mutex s) = int (count_pc is_waiting (rws_pcs s))
     \<and> (\<forall>p m. 0 < count_pc is_waiting (rws_pcs s) \<and>
          rw_shared_api now (SCheck c k, rws_mutex s) (p, m) \<longrightarrow> p = SFail c k \<and> m = rws_mutex s)"
proof -
  have inv: "rw_inv s" by (rule rwlock.reachable_inv [OF assms])
  let ?n = "count_pc is_waiting (rws_pcs s)"
  have lt: "?n < 2 ^ 31" using inv count_pc_le [of is_waiting "rws_pcs s"] by (simp add: rw_inv_def)
  then have "sint (of_nat ?n :: 32 word) = int ?n"
    by (simp add: signed_of_nat signed_take_bit_int_eq_self)
  moreover have "p = SFail c k \<and> m = rws_mutex s"
    if "0 < ?n" "rw_shared_api now (SCheck c k, rws_mutex s) (p, m)" for p m
    using that(2,1) inv of_nat_word_small [OF lt] by cases (auto simp: rw_inv_def)
  ultimately show ?thesis using inv by (auto simp: rw_inv_def WaitingWriterCountForTest_def)
qed

text \<open>
  Bounded wait: under a clock that advances during the sleeps, the slow loop of
  \<open>try_lock_for\<close> returns after at most \<open>kMaxActiveSpin\<close> spins and as many sleeps as the time that is
  left needs; it returns \<open>true\<close> only on a successful exchange, and \<open>false\<close> only when the deadline
  has passed and no exchange succeeded before.
\<close>

lemma try_lock_for_bounded:
  assumes "sleeps_advance clock t" and "t - clock kMaxActiveSpin \<le> int n * kYieldSleep"
    and "fuel > kMaxActiveSpin + n"
  shows "\<exists>r. try_lock_exclusive_until_slow fuel cas clock (Some t) 0 0 = Some r
     \<and> (if r then \<exists>j. cas j else \<exists>j. t \<le> clock j \<and> (\<forall>l\<le>j. \<not> cas l))"
proof -
  have "\<exists>r. try_lock_exclusive_until_slow fuel cas clock (Some t) 0 0 = Some r \<and> slow_outcome cas clock t 0 r"
    by (rule slow_spin_phase [OF assms(1)]) (use assms(2,3) in simp_all)
  then show ?thesis unfolding slow_outcome_def by (simp cong: if_cong del: if_bool_eq_conj split del: if_split)
qed

text \<open>
  The sleeps are clamped: whenever a slow loop decides to sleep, the \<open>timespec\<close> it passes is
  normalised (the nanoseconds are below one second), positive, at most \<open>kYieldSleep\<close> and at most the
  time that is left until the deadline.
\<close>

lemma backoff_sleep_clamped:
  assumes "rw_backoff spincount (Some t) now = Sleep r"
  shows "\<exists>sec nsec. r = Some (sec, nsec) \<and> 0 \<le> sec \<and> 0 \<le> nsec \<and> nsec < 1000000000
     \<and> 0 < sec * 1000000000 + nsec \<and> sec * 1000000000 + nsec \<le> kYieldSleep
     \<and> now + (sec * 1000000000 + nsec) \<le> t"
proof -
  define b where "b = min kYieldSleep (t - now)"
  have r: "now < t" "r = BoundedSleep b"
    using assms by (auto simp: rw_backoff_def rw_expired_def sleep_budget_def b_def split: if_splits)
  have b: "0 < b" "b \<le> kYieldSleep" "now + b \<le> t" using r(1) by (auto simp: b_def kYieldSleep_def)
  define q and m where "q = b div 1000000000" and "m = b mod 1000000000"
  have "r = Some (q, b - q * 1000000000)" using b(1) r(2) by (simp add: BoundedSleep_def Let_def q_def)
  moreover have "q * 1000000000 + m = b" "0 \<le> m" "m < 1000000000"
    unfolding q_def m_def by (rule div_mult_mod_eq, simp_all)
  moreover have "0 \<le> q" unfolding q_def using b(1) by (simp add: pos_imp_zdiv_nonneg_iff)
  ultimately have "r = Some (q, m)" "0 < q * 1000000000 + m" "q * 1000000000 + m \<le> kYieldSleep"
    "now + (q * 1000000000 + m) \<le> t" "0 \<le> q" "0 \<le> m" "m < 1000000000"
    using b by (simp_all add: algebra_simps)
  then show ?thesis by blast
qed

end
