(* ===== verification/Bytes.thy ===== *)
theory Bytes
  imports Prelude
begin

unbundle bit_operations_syntax

text \<open>
  Integers in memory and in buffers: the little-endian representation that the C++ code gets when it
  reads or writes a \<open>uint16_t\<close>, \<open>uint32_t\<close> or \<open>uint64_t\<close> through a pointer, with its round trips, and the
  facts on rounding up to a multiple of a power of two.
\<close>

section \<open>Little-endian integers\<close>

fun le_nat :: "u8 list \<Rightarrow> nat" where
  "le_nat [] = 0"
| "le_nat (b # bs) = unat b + 256 * le_nat bs"

fun le_bytes :: "nat \<Rightarrow> nat \<Rightarrow> u8 list" where
  "le_bytes 0 x = []"
| "le_bytes (Suc n) x = of_nat (x mod 256) # le_bytes n (x div 256)"

lemma length_le_bytes [simp]: "length (le_bytes n x) = n"
  by (induction n arbitrary: x) simp_all

lemma unat_of_nat_byte [simp]: "unat (of_nat (x mod 256) :: u8) = x mod 256"
  by (rule unat_of_nat_less) simp

lemma unat_byte_less [simp]: "unat (b :: u8) < 256"
  using unsigned_less [of b] by simp

lemma unat_eqI: "unat v = unat w \<Longrightarrow> v = w"
  by (rule unsigned_word_eqI)

lemma unat_u64_less: "unat (w :: u64) < 2 ^ 64"
  by (rule order_less_le_trans [OF unsigned_less]) simp

lemma le_nat_le_bytes: "le_nat (le_bytes n x) = x mod 256 ^ n"
proof (induction n arbitrary: x)
  case (Suc n)
  have "x mod (256 * 256 ^ n) = 256 * (x div 256 mod 256 ^ n) + x mod 256"
    by (rule mod_mult2_eq)
  then show ?case using Suc by simp
qed simp

lemma le_nat_bound: "le_nat bs < 256 ^ length bs"
proof (induction bs)
  case (Cons b bs)
  have "unat b + 256 * le_nat bs < 256 + 256 * le_nat bs" by simp
  also have "\<dots> = 256 * (le_nat bs + 1)" by simp
  also have "\<dots> \<le> 256 * 256 ^ length bs" using Cons by (intro mult_left_mono) simp_all
  finally show ?case by simp
qed simp

lemma le_bytes_le_nat: "length bs = n \<Longrightarrow> le_bytes n (le_nat bs) = bs"
proof (induction bs arbitrary: n)
  case (Cons b bs)
  have "(unat b + 256 * le_nat bs) mod 256 = unat b"
    by (metis mod_less mod_mult_self2 unat_byte_less)
  moreover have "(unat b + 256 * le_nat bs) div 256 = le_nat bs"
    using unat_byte_less [of b] by simp
  ultimately show ?case using Cons by auto
qed simp

lemma le_nat_append: "le_nat (xs @ ys) = le_nat xs + 256 ^ length xs * le_nat ys"
  by (induction xs) (simp_all add: algebra_simps)

text \<open>A word written as its bytes and read back.\<close>

lemma word_le_roundtrip:
  assumes "LENGTH('a) = 8 * n"
  shows "of_nat (le_nat (le_bytes n (unat (w :: 'a::len word)))) = w"
proof -
  have "(256 :: nat) ^ n = 2 ^ LENGTH('a)" using assms by (simp add: power_mult)
  then have "unat w mod 256 ^ n = unat w" using unsigned_less [of w] by simp
  then show ?thesis by (simp add: le_nat_le_bytes)
qed

section \<open>Rounding up to a multiple of a power of two\<close>

lemma or_mask_plus_one:
  "(x OR mask p :: 'a::len word) + 1 = (x AND NOT (mask p)) + 2 ^ p"
proof -
  have "x OR mask p = (x AND NOT (mask p)) OR mask p"
    by (rule bit_word_eqI) (auto simp: bit_simps)
  also have "\<dots> = (x AND NOT (mask p)) + mask p"
    by (rule disjunctive_add_eq_or [symmetric]) (rule bit_word_eqI, auto simp: bit_simps)
  finally show ?thesis by (simp add: mask_eq_decr_exp)
qed

lemma unat_and_not_mask:
  "unat (x AND NOT (mask p) :: 'a::len word) = unat x div 2 ^ p * 2 ^ p"
proof -
  have "(x AND NOT (mask p)) + (x AND mask p) = (x AND NOT (mask p)) OR (x AND mask p)"
    by (rule disjunctive_add_eq_or) (rule bit_word_eqI, auto simp: bit_simps)
  also have "\<dots> = x" by (rule bit_word_eqI) (auto simp: bit_simps)
  finally have "x AND NOT (mask p) = x - (x AND mask p)" by (simp add: eq_diff_eq)
  moreover have "x AND mask p \<le> x" by (simp add: word_and_le2)
  ultimately have "unat (x AND NOT (mask p)) = unat x - unat x mod 2 ^ p"
    by (simp add: unat_sub and_mask_unat)
  then show ?thesis by (simp add: minus_mod_eq_div_mult)
qed

section \<open>Decimal text\<close>

text \<open>The characters that \<open>printf\<close> gives for an unsigned integer with \<open>%u\<close> or \<open>%llu\<close>.\<close>

fun decimal :: "nat \<Rightarrow> u8 list" where
  "decimal n = (if n < 10 then [of_nat (48 + n)] else decimal (n div 10) @ [of_nat (48 + n mod 10)])"

declare decimal.simps [simp del]

definition digit_value :: "u8 \<Rightarrow> nat" where
  "digit_value c = unat c - 48"

definition decimal_value :: "u8 list \<Rightarrow> nat" where
  "decimal_value cs = foldl (\<lambda>v c. v * 10 + digit_value c) 0 cs"

lemma digit_value_of_nat: "d < 10 \<Longrightarrow> digit_value (of_nat (48 + d)) = d"
  by (simp add: digit_value_def unat_of_nat_less del: of_nat_add)

lemma decimal_value_decimal: "decimal_value (decimal n) = n"
proof (induction n rule: decimal.induct)
  case (1 n)
  show ?case
  proof (cases "n < 10")
    case True
    then show ?thesis by (subst decimal.simps) (simp add: decimal_value_def digit_value_of_nat del: of_nat_add)
  next
    case False
    then have "decimal_value (decimal n) = decimal_value (decimal (n div 10)) * 10 + n mod 10"
      by (subst decimal.simps) (simp add: decimal_value_def digit_value_of_nat del: of_nat_add)
    then show ?thesis using 1 False by simp
  qed
qed

lemma decimal_digits: "c \<in> set (decimal n) \<Longrightarrow> 48 \<le> unat c \<and> unat c < 58"
proof (induction n rule: decimal.induct)
  case (1 n)
  have d: "48 \<le> unat (of_nat (48 + k) :: u8) \<and> unat (of_nat (48 + k) :: u8) < 58" if "k < 10" for k
    using that by (simp add: unat_of_nat_less del: of_nat_add)
  show ?case using 1 d [of n] d [of "n mod 10"] by (subst (asm) (2) decimal.simps) (auto split: if_splits simp del: of_nat_add)
qed

end
