(* ===== verification/Channel.thy ===== *)
theory Channel
  imports Prelude
begin

text \<open>
  The contract of a bounded first-in first-out channel, as the samplers of the profiler use one: a
  writer publishes a message, or reserves room and gives it back, a reader takes the oldest message.
  The locale states what a provider promises of one operation and derives what holds of every
  interleaving of operations. The budget is the number of messages that the provider can still number.
\<close>

datatype 'a channel_op = Publish 'a | Cancel | Take

text \<open>A run: the accepted messages, the messages that were taken, and the last state.\<close>

fun run_channel :: "('a \<Rightarrow> 's \<Rightarrow> 's option) \<Rightarrow> ('s \<Rightarrow> 's option) \<Rightarrow> ('s \<Rightarrow> ('a option \<times> 's) option) \<Rightarrow>
    'a channel_op list \<Rightarrow> 's \<Rightarrow> ('a list \<times> 'a list \<times> 's) option" where
  "run_channel publish cancel take1 [] s = Some ([], [], s)"
| "run_channel publish cancel take1 (Publish a # ops) s =
     (case publish a s of
        None \<Rightarrow> run_channel publish cancel take1 ops s
      | Some s' \<Rightarrow> map_option (\<lambda>(ins, outs, t). (a # ins, outs, t)) (run_channel publish cancel take1 ops s'))"
| "run_channel publish cancel take1 (Cancel # ops) s =
     (case cancel s of
        None \<Rightarrow> run_channel publish cancel take1 ops s
      | Some s' \<Rightarrow> run_channel publish cancel take1 ops s')"
| "run_channel publish cancel take1 (Take # ops) s =
     (case take1 s of
        None \<Rightarrow> None
      | Some (None, s') \<Rightarrow> run_channel publish cancel take1 ops s'
      | Some (Some a, s') \<Rightarrow> map_option (\<lambda>(ins, outs, t). (ins, a # outs, t)) (run_channel publish cancel take1 ops s'))"

locale fifo_channel =
  fixes inv :: "nat \<Rightarrow> 's \<Rightarrow> bool" and queue :: "'s \<Rightarrow> 'a list" and msg :: "'s \<Rightarrow> 'a \<Rightarrow> bool"
    and publish :: "'a \<Rightarrow> 's \<Rightarrow> 's option" and cancel :: "'s \<Rightarrow> 's option"
    and take1 :: "'s \<Rightarrow> ('a option \<times> 's) option"
  assumes budget_less: "inv (Suc b) s \<Longrightarrow> inv b s"
    and publish_law: "inv (Suc b) s \<Longrightarrow> msg s a \<Longrightarrow> publish a s = Some s' \<Longrightarrow>
      inv b s' \<and> queue s' = queue s @ [a] \<and> msg s' = msg s"
    and cancel_law: "inv (Suc b) s \<Longrightarrow> cancel s = Some s' \<Longrightarrow> inv b s' \<and> queue s' = queue s \<and> msg s' = msg s"
    and take_law: "inv b s \<Longrightarrow> \<exists>s'. take1 s = Some (case queue s of [] \<Rightarrow> None | a # _ \<Rightarrow> Some a, s')
      \<and> inv b s' \<and> queue s' = tl (queue s) \<and> msg s' = msg s"
begin

text \<open>
  Every run returns; the accepted messages come out once, in the order of their publication, and
  those that did not come out are still in the channel.
\<close>

lemma run_fifo:
  assumes "inv (length ops) s" and "\<And>a. Publish a \<in> set ops \<Longrightarrow> msg s a"
  shows "\<exists>ins outs t. run_channel publish cancel take1 ops s = Some (ins, outs, t) \<and> queue s @ ins = outs @ queue t"
  using assms
proof (induction ops arbitrary: s)
  case (Cons op ops)
  have step: "\<exists>ins outs t. run_channel publish cancel take1 ops s' = Some (ins, outs, t) \<and> queue s' @ ins = outs @ queue t"
    if "inv (length ops) s'" "msg s' = msg s" for s'
    using Cons.IH [of s'] Cons.prems(2) that by auto
  have less: "inv (length ops) s" using Cons.prems(1) by (auto intro: budget_less)
  show ?case
  proof (cases op)
    case (Publish a)
    show ?thesis
    proof (cases "publish a s")
      case None
      then show ?thesis using step [OF less] Publish by simp
    next
      case (Some s')
      then have "inv (length ops) s' \<and> queue s' = queue s @ [a] \<and> msg s' = msg s"
        using Cons.prems Publish by (intro publish_law) auto
      with step [of s'] Some Publish show ?thesis by fastforce
    qed
  next
    case Cancel
    show ?thesis
    proof (cases "cancel s")
      case None
      then show ?thesis using step [OF less] Cancel by simp
    next
      case (Some s')
      then have "inv (length ops) s' \<and> queue s' = queue s \<and> msg s' = msg s"
        using Cons.prems Cancel by (intro cancel_law) auto
      with step [of s'] Some Cancel show ?thesis by fastforce
    qed
  next
    case Take
    obtain s' where s': "take1 s = Some (case queue s of [] \<Rightarrow> None | a # _ \<Rightarrow> Some a, s')"
      "inv (length ops) s'" "queue s' = tl (queue s)" "msg s' = msg s"
      using take_law [OF less] by blast
    then show ?thesis using step [of s'] Take by (cases "queue s") auto
  qed
qed simp

end

end
