(* ===== verification/RingBuf.thy ===== *)
theory RingBuf
  imports Bytes SpinLock Channel
begin

unbundle bit_operations_syntax

text \<open>
  The ring buffer of the Linux CPU profiler (\<open>RingBuffer.cpp\<close> and \<open>RingBuffer.h\<close> of
  \<open>Datadog.Profiler.Native.Linux\<close>): creation over a doubly mapped memory file, reservation of a sample
  by writers under the spin lock, commit and discard, and the reader that consumes samples in order.
  The data area is a memory of bytes; the second mapping makes the offsets \<open>k\<close> and \<open>k + data_size\<close> name
  the same byte. The operating system calls of \<open>Create\<close> are parameters (their results).
\<close>

section \<open>Model\<close>

record RingBufferImpl =
  rb_mask :: u64
  rb_meta_size :: u64
  rb_data_size :: u64
  rb_base :: uintptr
  rb_writer_pos :: u64
  rb_reader_pos :: u64
  rb_intermediate_reader_pos :: u64
  rb_sample_size :: u64
  rb_spinlock :: SpinningMutex
  rb_mapfd :: int
  rb_mem :: "nat \<Rightarrow> u8"

text \<open>\<open>shared::span\<close>: the offset of the first byte in the data area, and the number of bytes.\<close>

type_synonym Buffer = "nat \<times> u64"

definition align_up :: "u64 \<Rightarrow> u64 \<Rightarrow> u64" where
  "align_up x pow2 = ((x - 1) OR (pow2 - 1)) + 1"

definition smear :: "nat \<Rightarrow> u64 \<Rightarrow> u64" where
  "smear k n = n OR drop_bit k n"

definition next_power_of_two :: "u64 \<Rightarrow> u64" where
  "next_power_of_two n =
     (if n = 0 then 1
      else smear 32 (smear 16 (smear 8 (smear 4 (smear 2 (smear 1 (n - 1)))))) + 1)"

definition get_mask_from_size :: "u64 \<Rightarrow> u64" where
  "get_mask_from_size n = n - 1"

subsection \<open>Creation\<close>

text \<open>
  The results of the system calls that \<open>Create\<close> makes, in their order: the descriptor of
  \<open>memfd_create\<close>, success of \<open>ftruncate\<close>, the address of the anonymous reservation (\<open>None\<close>: failed),
  and the success of the two fixed mappings.
\<close>

record os_results =
  os_memfd :: int
  os_ftruncate :: bool
  os_reserve :: "uintptr option"
  os_map_second :: bool
  os_map_first :: bool

datatype create_error = MemfdFailed | FtruncateFailed u64 | AllocateFailed u64
  | MapSecondFailed | MapFirstFailed

text \<open>What \<open>Create\<close> and the deleter ask of the system.\<close>

datatype os_effect = Mmap uintptr u64 | Munmap uintptr u64 | Close int

definition RingBufferImpl_delete :: "int \<Rightarrow> uintptr \<Rightarrow> u64 \<Rightarrow> u64 \<Rightarrow> os_effect list" where
  "RingBufferImpl_delete mapfd base data_size meta_size =
     (if mapfd \<ge> 0 then [Close mapfd] else []) @
     (if base \<noteq> 0
      then let rbSize = data_size + meta_size
           in [Munmap (base + rbSize - meta_size) rbSize, Munmap base rbSize,
               Munmap base (2 * rbSize - meta_size)]
      else [])"

definition RingBuffer_Create :: "u64 \<Rightarrow> os_results \<Rightarrow> u64 \<Rightarrow> u64 \<Rightarrow> (create_error + RingBufferImpl) \<times> os_effect list" where
  "RingBuffer_Create page_size os requestedSize sampleSize =
     (let failed = RingBufferImpl_delete (os_memfd os) 0 0 0;
          dataSize = next_power_of_two (max page_size requestedSize);
          metadata_size = page_size;
          rbSize = dataSize + metadata_size;
          total_length = 2 * rbSize - metadata_size
      in if os_memfd os < 0 then (Inl MemfdFailed, failed)
         else if \<not> os_ftruncate os then (Inl (FtruncateFailed rbSize), failed)
         else case os_reserve os of
           None \<Rightarrow> (Inl (AllocateFailed total_length), failed)
         | Some base \<Rightarrow>
             if base = 0 then (Inl (AllocateFailed total_length), failed)
             else if \<not> os_map_second os then (Inl MapSecondFailed, Mmap base total_length # failed)
             else if \<not> os_map_first os
             then (Inl MapFirstFailed, Mmap base total_length # Mmap (base + dataSize) rbSize # failed)
             else (Inr \<lparr>rb_mask = get_mask_from_size dataSize, rb_meta_size = metadata_size,
                        rb_data_size = dataSize, rb_base = base, rb_writer_pos = 0, rb_reader_pos = 0,
                        rb_intermediate_reader_pos = 0, rb_sample_size = sampleSize,
                        rb_spinlock = \<lparr>sm_flag = False\<rparr>, rb_mapfd = os_memfd os, rb_mem = (\<lambda>_. 0)\<rparr>,
                   [Mmap base total_length, Mmap (base + dataSize) rbSize, Mmap base rbSize]))"

definition RingBuffer_Reset :: "RingBufferImpl option \<Rightarrow> RingBufferImpl option" where
  "RingBuffer_Reset impl = map_option
     (\<lambda>rb. rb\<lparr>rb_writer_pos := 0, rb_reader_pos := 0, rb_intermediate_reader_pos := 0\<rparr>) impl"

definition RingBuffer_GetSize :: "RingBufferImpl option \<Rightarrow> u64" where
  "RingBuffer_GetSize impl = (case impl of None \<Rightarrow> 0 | Some rb \<Rightarrow> rb_data_size rb + rb_meta_size rb)"

subsection \<open>Memory\<close>

definition mem_read :: "RingBufferImpl \<Rightarrow> nat \<Rightarrow> nat \<Rightarrow> u8 list" where
  "mem_read rb off n = map (\<lambda>t. rb_mem rb ((off + t) mod unat (rb_data_size rb))) [0..<n]"

fun poke :: "nat \<Rightarrow> nat \<Rightarrow> u8 list \<Rightarrow> (nat \<Rightarrow> u8) \<Rightarrow> nat \<Rightarrow> u8" where
  "poke d off [] f = f"
| "poke d off (b # bs) f = poke d (Suc off) bs (f (off mod d := b))"

definition mem_write :: "RingBufferImpl \<Rightarrow> nat \<Rightarrow> u8 list \<Rightarrow> RingBufferImpl" where
  "mem_write rb off bs = rb\<lparr>rb_mem := poke (unat (rb_data_size rb)) off bs (rb_mem rb)\<rparr>"

definition read_size :: "RingBufferImpl \<Rightarrow> nat \<Rightarrow> u64" where
  "read_size rb off = of_nat (le_nat (mem_read rb off 8))"

definition write_size :: "RingBufferImpl \<Rightarrow> nat \<Rightarrow> u64 \<Rightarrow> RingBufferImpl" where
  "write_size rb off v = mem_write rb off (le_bytes 8 (unat v))"

subsection \<open>Writers\<close>

definition k_discard_bit :: u64 where
  "k_discard_bit = 2 ^ 62"

definition k_reserved_bit :: u64 where
  "k_reserved_bit = 2 ^ 63"

definition is_reserved :: "u64 \<Rightarrow> bool" where
  "is_reserved sz \<longleftrightarrow> sz AND k_reserved_bit \<noteq> 0"

definition is_discarded :: "u64 \<Rightarrow> bool" where
  "is_discarded sz \<longleftrightarrow> sz AND k_discard_bit \<noteq> 0"

definition sizeof_BufferHeader :: u64 where
  "sizeof_BufferHeader = 8"

definition RingBufferAlignment :: u64 where
  "RingBufferAlignment = 8"

text \<open>
  \<open>Writer::Reserve\<close>: the buffer, if any, whether the timeout flag was set, and the new state.
  \<open>owns_lock\<close> is the outcome of \<open>try_lock_for(ReserveTimeout)\<close> on the spin lock; the lock is held
  for the rest of the call, so the steps below are not interleaved with those of another writer.
\<close>

definition Reserve :: "bool \<Rightarrow> RingBufferImpl \<Rightarrow> Buffer option \<times> bool \<times> RingBufferImpl" where
  "Reserve owns_lock rb =
     (let size = rb_sample_size rb;
          n2 = align_up (size + sizeof_BufferHeader) RingBufferAlignment
      in if n2 = 0 then (None, False, rb)
         else if \<not> owns_lock then (None, True, rb)
         else
           let writer_pos = rb_writer_pos rb;
               new_writer_pos = writer_pos + n2;
               head = rb_reader_pos rb
           in if rb_mask rb < new_writer_pos - head then (None, False, rb)
              else let head_linear = unat (writer_pos AND rb_mask rb);
                       rb1 = write_size rb head_linear (size OR k_reserved_bit)
                   in (Some (head_linear + unat sizeof_BufferHeader, size), False,
                       rb1\<lparr>rb_writer_pos := new_writer_pos\<rparr>))"

definition Commit :: "Buffer \<Rightarrow> RingBufferImpl \<Rightarrow> RingBufferImpl" where
  "Commit buf rb =
     (let hdr = fst buf - unat sizeof_BufferHeader;
          new_size = read_size rb hdr XOR k_reserved_bit
      in write_size rb hdr new_size)"

definition Discard :: "Buffer \<Rightarrow> RingBufferImpl \<Rightarrow> RingBufferImpl" where
  "Discard buf rb =
     (let hdr = fst buf - unat sizeof_BufferHeader;
          new_size = (read_size rb hdr XOR k_reserved_bit) OR k_discard_bit
      in write_size rb hdr new_size)"

subsection \<open>Reader\<close>

definition Reader_new :: "RingBufferImpl \<Rightarrow> u64" where
  "Reader_new rb = rb_writer_pos rb"

definition Reader_delete :: "RingBufferImpl \<Rightarrow> RingBufferImpl" where
  "Reader_delete rb =
     (if rb_reader_pos rb < rb_intermediate_reader_pos rb
      then rb\<lparr>rb_reader_pos := rb_intermediate_reader_pos rb\<rparr> else rb)"

definition AvailableSamples :: "u64 \<Rightarrow> RingBufferImpl \<Rightarrow> u64" where
  "AvailableSamples tail rb =
     (let n2 = align_up (sizeof_BufferHeader + rb_sample_size rb) RingBufferAlignment
      in (tail - rb_intermediate_reader_pos rb) div n2)"

partial_function (option) GetNext :: "u64 \<Rightarrow> RingBufferImpl \<Rightarrow> (Buffer option \<times> RingBufferImpl) option" where
  "GetNext tail rb =
     (let head = rb_intermediate_reader_pos rb
      in if head = tail then Some (None, rb)
         else
           let head_linear = unat (head AND rb_mask rb);
               sz = read_size rb head_linear
           in if is_reserved sz then Some (None, rb)
              else
                let rb1 = rb\<lparr>rb_intermediate_reader_pos := rb_intermediate_reader_pos rb +
                      align_up ((sz AND NOT k_discard_bit) + sizeof_BufferHeader) RingBufferAlignment\<rparr>
                in if is_discarded sz then GetNext tail rb1
                   else Some (Some (head_linear + unat sizeof_BufferHeader, sz), rb1))"

section \<open>Rounding\<close>

lemma align_up_unat:
  assumes "x \<noteq> 0" and "p < 64" and "(unat x - 1) div 2 ^ p * 2 ^ p + 2 ^ p < 2 ^ 64"
  shows "unat (align_up x (2 ^ p)) = ((unat x - 1) div 2 ^ p + 1) * 2 ^ p"
proof -
  have pos: "unat x \<noteq> 0" using assms(1) by (simp add: unat_eq_0)
  then have "unat (x - 1) = unat x - 1"
    by (metis One_nat_def assms(1) unat_1 unat_minus_one)
  then have "unat ((x - 1) AND NOT (mask p)) = (unat x - 1) div 2 ^ p * 2 ^ p"
    by (simp add: unat_and_not_mask)
  moreover have "unat (2 ^ p :: u64) = 2 ^ p" using assms(2) by (intro unat_pow2) simp
  moreover have "align_up x (2 ^ p) = ((x - 1) AND NOT (mask p)) + 2 ^ p"
    by (simp add: align_up_def pow2_minus_one_mask or_mask_plus_one)
  ultimately show ?thesis using assms(3) by (simp add: unat_word_ariths)
qed

lemma smear_bits:
  assumes "\<And>n. bit v n \<longleftrightarrow> (\<exists>j<k. bit w (n + j))"
  shows "bit (smear k v) n \<longleftrightarrow> (\<exists>j<k + k. bit w (n + j))"
proof -
  have "bit (smear k v) n \<longleftrightarrow> (\<exists>j<k. bit w (n + j)) \<or> (\<exists>j<k. bit w (n + k + j))"
    by (simp add: smear_def bit_simps assms add.commute)
  also have "\<dots> \<longleftrightarrow> (\<exists>j<k + k. bit w (n + j))"
  proof
    assume "\<exists>j<k + k. bit w (n + j)"
    then obtain j where j: "j < k + k" "bit w (n + j)" by blast
    show "(\<exists>j<k. bit w (n + j)) \<or> (\<exists>j<k. bit w (n + k + j))"
    proof (cases "j < k")
      case False
      then have "bit w (n + k + (j - k))" "j - k < k" using j by simp_all
      then show ?thesis by blast
    qed (use j in blast)
  next
    assume "(\<exists>j<k. bit w (n + j)) \<or> (\<exists>j<k. bit w (n + k + j))"
    then show "\<exists>j<k + k. bit w (n + j)"
      by (metis add.assoc add_less_cancel_left trans_less_add1)
  qed
  finally show ?thesis .
qed

lemma smeared:
  "bit (smear 32 (smear 16 (smear 8 (smear 4 (smear 2 (smear 1 w)))))) n \<longleftrightarrow> (\<exists>m\<ge>n. bit w m)"
proof -
  have "bit w n \<longleftrightarrow> (\<exists>j<1. bit w (n + j))" for n by simp
  from smear_bits [OF this] have "bit (smear 1 w) n \<longleftrightarrow> (\<exists>j<2. bit w (n + j))" for n
    by (simp add: numeral_2_eq_2)
  from smear_bits [OF this] have "bit (smear 2 (smear 1 w)) n \<longleftrightarrow> (\<exists>j<4. bit w (n + j))" for n by simp
  from smear_bits [OF this] have "bit (smear 4 (smear 2 (smear 1 w))) n \<longleftrightarrow> (\<exists>j<8. bit w (n + j))" for n by simp
  from smear_bits [OF this] have "bit (smear 8 (smear 4 (smear 2 (smear 1 w)))) n \<longleftrightarrow> (\<exists>j<16. bit w (n + j))"
    for n by simp
  from smear_bits [OF this]
  have "bit (smear 16 (smear 8 (smear 4 (smear 2 (smear 1 w))))) n \<longleftrightarrow> (\<exists>j<32. bit w (n + j))" for n by simp
  from smear_bits [OF this]
  have *: "bit (smear 32 (smear 16 (smear 8 (smear 4 (smear 2 (smear 1 w)))))) n \<longleftrightarrow> (\<exists>j<64. bit w (n + j))" by simp
  have "(\<exists>j<64. bit w (n + j)) \<longleftrightarrow> (\<exists>m\<ge>n. bit w m)"
  proof
    assume "\<exists>m\<ge>n. bit w m"
    then obtain m where m: "n \<le> m" "bit w m" by blast
    then have "m < 64" using bit_imp_le_length [of w m] by simp
    with m show "\<exists>j<64. bit w (n + j)" by (intro exI [of _ "m - n"]) simp
  qed (use le_add1 in blast)
  with * show ?thesis by simp
qed

lemma highest_bit:
  assumes "w \<noteq> (0 :: u64)"
  obtains L where "L < 64" "bit w L" "\<And>m. bit w m \<Longrightarrow> m \<le> L" "2 ^ L \<le> unat w" "unat w < 2 ^ Suc L"
proof -
  let ?B = "{m. bit w m}"
  have sub: "?B \<subseteq> {..<64}" using bit_imp_le_length [of w] by auto
  then have fin: "finite ?B" by (rule finite_subset) simp
  have ne: "?B \<noteq> {}" using assms by (auto simp: bit_eq_iff)
  define L where "L = Max ?B"
  have L: "bit w L" using Max_in [OF fin ne] by (simp add: L_def)
  have max: "m \<le> L" if "bit w m" for m using Max_ge [OF fin] that by (simp add: L_def)
  have "take_bit (Suc L) w = w" by (rule bit_word_eqI) (use max in \<open>auto simp: bit_simps less_Suc_eq_le\<close>)
  then have "take_bit (Suc L) (unat w) = unat w" by (metis unsigned_take_bit_eq)
  then have up: "unat w < 2 ^ Suc L" by (metis take_bit_nat_less_exp)
  have low: "2 ^ L \<le> unat w"
  proof (rule ccontr)
    assume "\<not> 2 ^ L \<le> unat w"
    then have "take_bit L (unat w) = unat w" by (intro take_bit_nat_eq_self) simp
    then have "take_bit L w = w" by (metis unsigned_take_bit_eq unsigned_word_eqI)
    then show False using L by (metis bit_take_bit_iff less_irrefl)
  qed
  show thesis using that [OF _ L max low up] sub L by auto
qed

lemma next_power_of_two_pow2:
  assumes "n \<noteq> 0" and "unat n \<le> 2 ^ 63"
  obtains p where "p < 64" "next_power_of_two n = 2 ^ p" "unat n \<le> 2 ^ p" "2 ^ p < 2 * unat n"
proof (cases "n = 1")
  case True
  then have "next_power_of_two n = 2 ^ 0" by (simp add: next_power_of_two_def smear_def)
  then show thesis using that [of 0] True by simp
next
  case False
  let ?w = "n - 1"
  have w: "?w \<noteq> 0" using False by simp
  have un: "unat ?w = unat n - 1" "1 < unat n"
  proof -
    show "unat ?w = unat n - 1" using assms(1) by (simp add: unat_minus_one)
    show "1 < unat n" using assms(1) False
      by (metis One_nat_def less_one linorder_neqE_nat unat_1 unat_eq_zero unsigned_word_eqI)
  qed
  from highest_bit [OF w] obtain L where L: "L < 64" "bit ?w L" "\<And>m. bit ?w m \<Longrightarrow> m \<le> L"
    "2 ^ L \<le> unat ?w" "unat ?w < 2 ^ Suc L" by blast
  have "smear 32 (smear 16 (smear 8 (smear 4 (smear 2 (smear 1 ?w))))) = mask (Suc L)"
  proof (rule bit_word_eqI)
    fix m assume "m < LENGTH(64)"
    have "(\<exists>m'\<ge>m. bit ?w m') \<longleftrightarrow> m \<le> L" using L(2,3) by (meson le_trans)
    then show "bit (smear 32 (smear 16 (smear 8 (smear 4 (smear 2 (smear 1 ?w)))))) m \<longleftrightarrow> bit (mask (Suc L) :: u64) m"
      using L(1) \<open>m < LENGTH(64)\<close> by (simp only: smeared) (simp add: bit_simps less_Suc_eq_le)
  qed
  then have np: "next_power_of_two n = 2 ^ Suc L"
    using assms(1) by (simp add: next_power_of_two_def mask_eq_decr_exp)
  have "(2 :: nat) ^ L < 2 ^ 63" using L(4) un assms(2) by linarith
  then have "L < 63" by (rule power_less_imp_less_exp [rotated]) simp
  then show thesis using that [of "Suc L"] np L un by simp
qed

section \<open>Memory\<close>

lemma poke_other:
  "(\<And>t. t < length bs \<Longrightarrow> a \<noteq> (off + t) mod d) \<Longrightarrow> poke d off bs f a = f a"
proof (induction bs arbitrary: off f)
  case (Cons b bs)
  have "a \<noteq> (Suc off + t) mod d" if "t < length bs" for t using Cons.prems [of "Suc t"] that by simp
  moreover have "a \<noteq> off mod d" using Cons.prems [of 0] by simp
  ultimately show ?case by (subst poke.simps, subst Cons.IH) simp_all
qed simp

lemma poke_same:
  "length bs \<le> d \<Longrightarrow> t < length bs \<Longrightarrow> poke d off bs f ((off + t) mod d) = bs ! t"
proof (induction bs arbitrary: off f t)
  case (Cons b bs)
  show ?case
  proof (cases t)
    case 0
    have "off mod d \<noteq> (Suc off + u) mod d" if "u < length bs" for u
      using cyclic_inj [of off 0 d "Suc u"] that Cons.prems(1) by auto
    then have "poke d (Suc off) bs (f(off mod d := b)) (off mod d) = b"
      by (subst poke_other) auto
    then show ?thesis using 0 by simp
  next
    case (Suc u)
    have "poke d (Suc off) bs g ((Suc off + u) mod d) = bs ! u" for g
      by (rule Cons.IH) (use Cons.prems Suc in simp_all)
    then show ?thesis using Suc by simp
  qed
qed simp

lemma poke_mod: "poke d (off mod d) bs f = poke d off bs f"
proof (induction bs arbitrary: off f)
  case (Cons b bs)
  have "poke d (Suc (off mod d)) bs g = poke d (Suc off) bs g" for g
    using Cons.IH [of "Suc (off mod d)" g] Cons.IH [of "Suc off" g] by (simp add: mod_Suc_eq)
  then show ?case by simp
qed simp

abbreviation ring_size :: "RingBufferImpl \<Rightarrow> nat" where
  "ring_size rb \<equiv> unat (rb_data_size rb)"

lemma mem_read_mod [simp]: "mem_read rb (off mod ring_size rb) n = mem_read rb off n"
  by (simp add: mem_read_def mod_add_left_eq)

lemma mem_write_mod [simp]: "mem_write rb (off mod ring_size rb) bs = mem_write rb off bs"
  by (simp add: mem_write_def poke_mod)

lemma length_mem_read [simp]: "length (mem_read rb off n) = n"
  by (simp add: mem_read_def)

lemma mem_write_select [simp]:
  "rb_data_size (mem_write rb off bs) = rb_data_size rb"
  "rb_mask (mem_write rb off bs) = rb_mask rb"
  "rb_sample_size (mem_write rb off bs) = rb_sample_size rb"
  "rb_writer_pos (mem_write rb off bs) = rb_writer_pos rb"
  "rb_reader_pos (mem_write rb off bs) = rb_reader_pos rb"
  "rb_intermediate_reader_pos (mem_write rb off bs) = rb_intermediate_reader_pos rb"
  by (simp_all add: mem_write_def)

lemma mem_read_write_same:
  assumes "length bs \<le> ring_size rb"
  shows "mem_read (mem_write rb off bs) off (length bs) = bs"
  by (rule nth_equalityI) (simp_all add: mem_read_def mem_write_def poke_same assms)

text \<open>Two ranges of one window of the ring that do not overlap are disjoint in memory.\<close>

lemma mem_read_write_other:
  assumes "off + length bs \<le> a \<or> a + n \<le> off"
    and "x \<le> off" "off + length bs \<le> x + ring_size rb" "x \<le> a" "a + n \<le> x + ring_size rb"
  shows "mem_read (mem_write rb off bs) a n = mem_read rb a n"
proof -
  have "(a + u) mod ring_size rb \<noteq> (off + t) mod ring_size rb" if "u < n" "t < length bs" for u t
  proof
    assume "(a + u) mod ring_size rb = (off + t) mod ring_size rb"
    then have "(x + (a - x + u)) mod ring_size rb = (x + (off - x + t)) mod ring_size rb"
      using assms by simp
    then have "a - x + u = off - x + t" by (rule cyclic_inj) (use assms that in linarith)+
    then show False using assms that by linarith
  qed
  then have "poke (ring_size rb) off bs (rb_mem rb) ((a + u) mod ring_size rb)
      = rb_mem rb ((a + u) mod ring_size rb)" if "u < n" for u
    using that by (intro poke_other) blast
  then show ?thesis by (simp add: mem_read_def mem_write_def)
qed

lemma read_write_size_same:
  assumes "8 \<le> ring_size rb"
  shows "read_size (write_size rb off v) off = v"
proof -
  have "mem_read (write_size rb off v) off 8 = le_bytes 8 (unat v)"
    using mem_read_write_same [of "le_bytes 8 (unat v)" rb off] assms by (simp add: write_size_def)
  then show ?thesis by (simp add: read_size_def word_le_roundtrip)
qed

lemma size_mod [simp]:
  "read_size rb (off mod ring_size rb) = read_size rb off"
  "write_size rb (off mod ring_size rb) v = write_size rb off v"
  by (simp_all add: read_size_def write_size_def)

lemma write_size_select [simp]:
  "rb_data_size (write_size rb off v) = rb_data_size rb"
  "rb_mask (write_size rb off v) = rb_mask rb"
  "rb_sample_size (write_size rb off v) = rb_sample_size rb"
  "rb_writer_pos (write_size rb off v) = rb_writer_pos rb"
  "rb_reader_pos (write_size rb off v) = rb_reader_pos rb"
  "rb_intermediate_reader_pos (write_size rb off v) = rb_intermediate_reader_pos rb"
  by (simp_all add: write_size_def)

section \<open>Well-formed rings and their slots\<close>

text \<open>
  A slot is a header and a sample, rounded up to the alignment. The cursors are counted in bytes
  since the creation; the slots of the window from the reader cursor to the writer cursor are live.
\<close>

datatype slot = Reserved | Discarded | Committed "u8 list"

definition slot_bytes :: "RingBufferImpl \<Rightarrow> nat" where
  "slot_bytes rb = (unat (rb_sample_size rb) + 7) div 8 * 8 + 8"

definition slot_at :: "RingBufferImpl \<Rightarrow> nat \<Rightarrow> slot" where
  "slot_at rb pos =
     (let sz = read_size rb pos
      in if is_reserved sz then Reserved
         else if is_discarded sz then Discarded
         else Committed (mem_read rb (pos + 8) (unat sz)))"

definition slots :: "RingBufferImpl \<Rightarrow> nat \<Rightarrow> nat \<Rightarrow> slot list" where
  "slots rb a n = map (\<lambda>j. slot_at rb (a + j * slot_bytes rb)) [0..<n]"

definition header_ok :: "RingBufferImpl \<Rightarrow> nat \<Rightarrow> bool" where
  "header_ok rb pos \<longleftrightarrow> read_size rb pos \<in>
     {rb_sample_size rb, rb_sample_size rb OR k_reserved_bit, rb_sample_size rb OR k_discard_bit}"

definition wf_sizes :: "RingBufferImpl \<Rightarrow> bool" where
  "wf_sizes rb \<longleftrightarrow> (\<exists>p. 3 \<le> p \<and> p < 63 \<and> rb_data_size rb = 2 ^ p) \<and> rb_mask rb = rb_data_size rb - 1
     \<and> unat (rb_sample_size rb) < 2 ^ 62"

text \<open>
  \<open>wf_ring rb k n\<close>: the window has \<open>n\<close> slots, of which the first \<open>k\<close> have been read but not yet
  released by the destruction of the reader.
\<close>

definition wf_ring :: "RingBufferImpl \<Rightarrow> nat \<Rightarrow> nat \<Rightarrow> bool" where
  "wf_ring rb k n \<longleftrightarrow> wf_sizes rb \<and> k \<le> n \<and> n * slot_bytes rb < ring_size rb
     \<and> unat (rb_intermediate_reader_pos rb) = unat (rb_reader_pos rb) + k * slot_bytes rb
     \<and> unat (rb_writer_pos rb) = unat (rb_reader_pos rb) + n * slot_bytes rb
     \<and> (\<forall>j<n. header_ok rb (unat (rb_reader_pos rb) + j * slot_bytes rb))"

abbreviation window :: "RingBufferImpl \<Rightarrow> nat \<Rightarrow> slot list" where
  "window rb n \<equiv> slots rb (unat (rb_reader_pos rb)) n"

lemma wf_sizes_pow2:
  assumes "wf_sizes rb"
  obtains p where "3 \<le> p" "p < 63" "rb_data_size rb = 2 ^ p" "ring_size rb = 2 ^ p" "rb_mask rb = mask p"
proof -
  obtain p where p: "3 \<le> p" "p < 63" "rb_data_size rb = 2 ^ p" "rb_mask rb = rb_data_size rb - 1"
    using assms by (auto simp: wf_sizes_def)
  then have "ring_size rb = 2 ^ p" using unat_pow2 [where 'a=64, of p] by simp
  then show thesis using that [of p] p by (simp add: mask_eq_decr_exp)
qed

lemma wf_sizes_mask:
  assumes "wf_sizes rb"
  shows "unat (x AND rb_mask rb) = unat x mod ring_size rb" "unat (rb_mask rb) = ring_size rb - 1"
    "8 \<le> ring_size rb" "ring_size rb < 2 ^ 63"
proof -
  from assms obtain p where p: "3 \<le> p" "p < 63" "rb_data_size rb = 2 ^ p" "ring_size rb = 2 ^ p"
    "rb_mask rb = mask p" by (rule wf_sizes_pow2)
  then show "unat (x AND rb_mask rb) = unat x mod ring_size rb" by (simp only: and_mask_unat)
  have "(2 :: nat) ^ 3 \<le> 2 ^ p" using p(1) by (intro power_increasing) simp_all
  then show "8 \<le> ring_size rb" using p(4) by simp
  have "(2 :: nat) ^ p < 2 ^ 63" using p(2) by (intro power_strict_increasing) simp_all
  then show "ring_size rb < 2 ^ 63" using p(4) by simp
  have "rb_data_size rb \<noteq> 0" using p(4) by (metis power_not_zero unat_0 zero_neq_numeral)
  then show "unat (rb_mask rb) = ring_size rb - 1"
    using assms by (simp add: wf_sizes_def unat_minus_one)
qed

lemma align_sample:
  assumes "unat s < 2 ^ 62"
  shows "unat (align_up (s + sizeof_BufferHeader) RingBufferAlignment) = (unat s + 7) div 8 * 8 + 8"
proof -
  have "unat (s + 8) = unat s + 8" using assms by (simp add: unat_word_ariths)
  moreover from this have "s + 8 \<noteq> 0" by (metis add_eq_0_iff_both_eq_0 unat_0 zero_neq_numeral)
  moreover have "(unat s + 7) div 8 * 8 + 8 < 2 ^ 64"
    using assms div_times_less_eq_dividend [of "unat s + 7" 8] by simp
  ultimately show ?thesis
    using align_up_unat [of "s + 8" 3] by (simp add: sizeof_BufferHeader_def RingBufferAlignment_def algebra_simps)
qed

lemma sample_header_bits:
  assumes "unat s < 2 ^ 62"
  shows "\<not> bit s 62" "\<not> bit s 63"
proof -
  have "take_bit 62 (unat s) = unat s" using assms by (rule take_bit_nat_eq_self)
  then have "take_bit 62 s = s" by (metis unsigned_take_bit_eq unsigned_word_eqI)
  then have "bit s n \<longleftrightarrow> n < 62 \<and> bit s n" for n by (metis bit_take_bit_iff)
  from this [of 62] this [of 63] show "\<not> bit s 62" "\<not> bit s 63" by simp_all
qed

lemma is_reserved_bit: "is_reserved v \<longleftrightarrow> bit v 63"
  by (simp only: is_reserved_def k_reserved_bit_def and_exp_eq_0_iff_not_bit not_not)

lemma is_discarded_bit: "is_discarded v \<longleftrightarrow> bit v 62"
  by (simp only: is_discarded_def k_discard_bit_def and_exp_eq_0_iff_not_bit not_not)

lemma bit_flag: "bit (2 ^ k :: u64) n \<longleftrightarrow> n = k \<and> k < 64"
  by (auto simp: bit_exp_iff)

lemma header_flags:
  assumes "unat s < 2 ^ 62"
  shows "\<not> is_reserved s" "\<not> is_discarded s" "is_reserved (s OR k_reserved_bit)"
    "\<not> is_reserved (s OR k_discard_bit)" "is_discarded (s OR k_discard_bit)"
  using sample_header_bits [OF assms]
  unfolding is_reserved_bit is_discarded_bit k_reserved_bit_def k_discard_bit_def bit_or_iff bit_flag
  by simp_all

lemma header_clear:
  assumes "unat s < 2 ^ 62"
  shows "(s OR k_reserved_bit) XOR k_reserved_bit = s"
    and "(s OR k_discard_bit) AND NOT k_discard_bit = s" and "s AND NOT k_discard_bit = s"
proof -
  note bits = k_reserved_bit_def k_discard_bit_def bit_or_iff bit_xor_iff bit_and_iff bit_not_iff bit_flag
  note s = sample_header_bits [OF assms]
  show "(s OR k_reserved_bit) XOR k_reserved_bit = s"
    by (rule bit_word_eqI) (unfold bits, use s in auto)
  show "(s OR k_discard_bit) AND NOT k_discard_bit = s"
    by (rule bit_word_eqI) (unfold bits, use s in auto)
  show "s AND NOT k_discard_bit = s"
    by (rule bit_word_eqI) (unfold bits, use s in auto)
qed

lemmas header_values = header_flags header_clear

lemma slot_fits: "unat (rb_sample_size rb) + 8 \<le> slot_bytes rb"
  unfolding slot_bytes_def by presburger

lemma slot_bytes_pos: "8 \<le> slot_bytes rb"
  using slot_fits [of rb] by simp

lemma header_ok_cases:
  assumes "header_ok rb pos" and "wf_sizes rb"
  obtains (reserved) "read_size rb pos = rb_sample_size rb OR k_reserved_bit" "slot_at rb pos = Reserved"
  | (discarded) "read_size rb pos = rb_sample_size rb OR k_discard_bit" "slot_at rb pos = Discarded"
  | (committed) "read_size rb pos = rb_sample_size rb"
      "slot_at rb pos = Committed (mem_read rb (pos + 8) (unat (rb_sample_size rb)))"
  using assms header_values [of "rb_sample_size rb"]
  by (auto simp: header_ok_def slot_at_def Let_def wf_sizes_def)

text \<open>A write inside one slot of a window leaves the other slots of the window as they are.\<close>

lemma slot_frame:
  assumes wf: "wf_sizes rb" and ok: "header_ok rb (x + i * slot_bytes rb)"
    and ij: "i < n" "j < n" "i \<noteq> j" and fit: "n * slot_bytes rb \<le> ring_size rb"
    and off: "x + j * slot_bytes rb \<le> off" "off + length bs \<le> x + j * slot_bytes rb + slot_bytes rb"
  shows "slot_at (mem_write rb off bs) (x + i * slot_bytes rb) = slot_at rb (x + i * slot_bytes rb)
       \<and> header_ok (mem_write rb off bs) (x + i * slot_bytes rb)"
proof -
  define B where "B = slot_bytes rb"
  have Bn: "k * B + B \<le> n * B" if "k < n" for k
    using that by (metis add.commute mult_Suc mult_le_mono1 Suc_leI)
  have "i * B + B \<le> j * B \<or> j * B + B \<le> i * B"
    using ij(3) by (metis add.commute linorder_neqE_nat mult_Suc mult_le_mono1 Suc_leI)
  moreover have "B \<le> n * B" "i * B + B \<le> n * B" "j * B + B \<le> n * B" using Bn ij by auto
  ultimately have other: "mem_read (mem_write rb off bs) a m = mem_read rb a m"
    if "x + i * B \<le> a" "a + m \<le> x + i * B + B" for a m
    by (intro mem_read_write_other [where x = x]) (use that off fit in \<open>simp_all flip: B_def, linarith+\<close>)
  have size: "read_size (mem_write rb off bs) (x + i * B) = read_size rb (x + i * B)"
    using other [of "x + i * B" 8] slot_bytes_pos [of rb] by (simp add: read_size_def B_def)
  have "mem_read (mem_write rb off bs) (x + i * B + 8) (unat (rb_sample_size rb))
      = mem_read rb (x + i * B + 8) (unat (rb_sample_size rb))"
    by (rule other) (use slot_fits [of rb] in \<open>simp_all add: B_def\<close>)
  with size show ?thesis
    using ok wf unfolding B_def
    by (elim header_ok_cases) (simp_all add: header_ok_def slot_at_def Let_def header_values wf_sizes_def)
qed

lemma slot_bytes_cong [simp]:
  "slot_bytes (mem_write rb off bs) = slot_bytes rb" "slot_bytes (rb\<lparr>rb_writer_pos := w\<rparr>) = slot_bytes rb"
  "slot_bytes (rb\<lparr>rb_intermediate_reader_pos := w\<rparr>) = slot_bytes rb" "slot_bytes (rb\<lparr>rb_reader_pos := w\<rparr>) = slot_bytes rb"
  by (simp_all add: slot_bytes_def)

text \<open>The cursors are not part of the data area.\<close>

lemma mem_read_cursor [simp]:
  "mem_read (rb\<lparr>rb_writer_pos := w\<rparr>) = mem_read rb" "mem_read (rb\<lparr>rb_intermediate_reader_pos := w\<rparr>) = mem_read rb"
  "mem_read (rb\<lparr>rb_reader_pos := w\<rparr>) = mem_read rb"
  by (simp_all add: mem_read_def fun_eq_iff)

lemma slot_cursor [simp]:
  "slot_at (rb\<lparr>rb_writer_pos := w\<rparr>) = slot_at rb" "slot_at (rb\<lparr>rb_intermediate_reader_pos := w\<rparr>) = slot_at rb"
  "slot_at (rb\<lparr>rb_reader_pos := w\<rparr>) = slot_at rb"
  "slots (rb\<lparr>rb_writer_pos := w\<rparr>) = slots rb" "slots (rb\<lparr>rb_intermediate_reader_pos := w\<rparr>) = slots rb"
  "slots (rb\<lparr>rb_reader_pos := w\<rparr>) = slots rb"
  "header_ok (rb\<lparr>rb_writer_pos := w\<rparr>) = header_ok rb" "header_ok (rb\<lparr>rb_intermediate_reader_pos := w\<rparr>) = header_ok rb"
  "header_ok (rb\<lparr>rb_reader_pos := w\<rparr>) = header_ok rb"
  by (simp_all add: slot_at_def slots_def header_ok_def read_size_def fun_eq_iff Let_def)

lemma wf_sizes_cong [simp]:
  "wf_sizes (mem_write rb off bs) = wf_sizes rb" "wf_sizes (rb\<lparr>rb_writer_pos := w\<rparr>) = wf_sizes rb"
  "wf_sizes (rb\<lparr>rb_intermediate_reader_pos := w\<rparr>) = wf_sizes rb" "wf_sizes (rb\<lparr>rb_reader_pos := w\<rparr>) = wf_sizes rb"
  by (simp_all add: wf_sizes_def)

lemma length_slots [simp]: "length (slots rb a n) = n"
  by (simp add: slots_def)

lemma slot_update:
  assumes wf: "wf_ring rb k n" and j: "j < n"
    and off: "unat (rb_reader_pos rb) + j * slot_bytes rb \<le> off"
      "off + length bs \<le> unat (rb_reader_pos rb) + j * slot_bytes rb + slot_bytes rb"
    and ok: "header_ok (mem_write rb off bs) (unat (rb_reader_pos rb) + j * slot_bytes rb)"
  shows "wf_ring (mem_write rb off bs) k n \<and> window (mem_write rb off bs) n =
     (window rb n)[j := slot_at (mem_write rb off bs) (unat (rb_reader_pos rb) + j * slot_bytes rb)]"
proof -
  let ?x = "unat (rb_reader_pos rb)"
  have other: "slot_at (mem_write rb off bs) (?x + i * slot_bytes rb) = slot_at rb (?x + i * slot_bytes rb)
      \<and> header_ok (mem_write rb off bs) (?x + i * slot_bytes rb)" if "i < n" "i \<noteq> j" for i
    using wf off j that by (intro slot_frame [where n = n and j = j]) (auto simp: wf_ring_def)
  have "header_ok (mem_write rb off bs) (?x + i * slot_bytes rb)" if "i < n" for i
    using other [OF that] ok by (cases "i = j") auto
  then have "wf_ring (mem_write rb off bs) k n" using wf by (simp add: wf_ring_def)
  moreover have "window (mem_write rb off bs) n = (window rb n)[j :=
      slot_at (mem_write rb off bs) (?x + j * slot_bytes rb)]"
    by (rule nth_equalityI) (use other j in \<open>auto simp: slots_def nth_list_update\<close>)
  ultimately show ?thesis by blast
qed

text \<open>The buffer that \<open>Reserve\<close> hands out for the \<open>j\<close>-th slot of the window.\<close>

definition slot_buffer :: "RingBufferImpl \<Rightarrow> nat \<Rightarrow> Buffer" where
  "slot_buffer rb j =
     ((unat (rb_reader_pos rb) + j * slot_bytes rb) mod ring_size rb + 8, rb_sample_size rb)"

lemma mem_write_buffer:
  "mem_write rb (fst (slot_buffer rb j)) bs = mem_write rb (unat (rb_reader_pos rb) + j * slot_bytes rb + 8) bs"
  using mem_write_mod [of rb "fst (slot_buffer rb j)" bs]
    mem_write_mod [of rb "unat (rb_reader_pos rb) + j * slot_bytes rb + 8" bs]
  by (simp only: slot_buffer_def fst_conv mod_add_left_eq)

lemma mem_read_buffer:
  "mem_read rb (fst (slot_buffer rb j)) n = mem_read rb (unat (rb_reader_pos rb) + j * slot_bytes rb + 8) n"
  using mem_read_mod [of rb "fst (slot_buffer rb j)" n]
    mem_read_mod [of rb "unat (rb_reader_pos rb) + j * slot_bytes rb + 8" n]
  by (simp only: slot_buffer_def fst_conv mod_add_left_eq)

text \<open>Setting the header of a slot.\<close>

lemma header_update:
  assumes wf: "wf_ring rb k n" and j: "j < n"
    and v: "v \<in> {rb_sample_size rb, rb_sample_size rb OR k_reserved_bit, rb_sample_size rb OR k_discard_bit}"
  defines "pos \<equiv> unat (rb_reader_pos rb) + j * slot_bytes rb"
  shows "wf_ring (write_size rb pos v) k n
     \<and> window (write_size rb pos v) n = (window rb n)[j := slot_at (write_size rb pos v) pos]
     \<and> read_size (write_size rb pos v) pos = v"
proof -
  have "8 \<le> ring_size rb" using wf by (simp add: wf_ring_def wf_sizes_mask)
  then have size: "read_size (write_size rb pos v) pos = v" by (rule read_write_size_same)
  then have "header_ok (write_size rb pos v) pos" using v by (simp add: header_ok_def)
  then show ?thesis
    using slot_update [OF wf j, of pos "le_bytes 8 (unat v)"] slot_bytes_pos [of rb] size
    by (simp add: pos_def write_size_def)
qed

lemma payload_after_header:
  assumes "wf_ring rb k n" and "j < n"
  defines "pos \<equiv> unat (rb_reader_pos rb) + j * slot_bytes rb"
  shows "mem_read (write_size rb pos v) (pos + 8) (unat (rb_sample_size rb))
       = mem_read rb (pos + 8) (unat (rb_sample_size rb))"
proof -
  have "slot_bytes rb \<le> n * slot_bytes rb" using assms(2) by simp
  then have "slot_bytes rb \<le> ring_size rb" using assms(1) unfolding wf_ring_def by linarith
  then show ?thesis
    unfolding write_size_def using slot_fits [of rb] by (intro mem_read_write_other [where x = pos]) simp_all
qed

section \<open>Reservation, commit, discard and reading\<close>

lemma unat_sizeof_BufferHeader [simp]: "unat sizeof_BufferHeader = 8"
  by (simp add: sizeof_BufferHeader_def)

lemma Reserve_no_room:
  assumes wf: "wf_ring rb k n" and nowrap: "unat (rb_writer_pos rb) + slot_bytes rb < 2 ^ 64"
    and full: "ring_size rb \<le> Suc n * slot_bytes rb"
  shows "Reserve True rb = (None, False, rb)"
proof -
  define n2 where "n2 = align_up (rb_sample_size rb + sizeof_BufferHeader) RingBufferAlignment"
  have sizes: "wf_sizes rb" using wf by (simp add: wf_ring_def)
  have n2: "unat n2 = slot_bytes rb"
    using align_sample [of "rb_sample_size rb"] sizes by (simp add: n2_def slot_bytes_def wf_sizes_def)
  have "unat (rb_writer_pos rb + n2) = unat (rb_reader_pos rb) + Suc n * slot_bytes rb"
    using wf nowrap by (simp add: unat_word_ariths n2 wf_ring_def)
  then have "unat (rb_writer_pos rb + n2 - rb_reader_pos rb) = Suc n * slot_bytes rb"
    by (subst unat_sub) (simp_all add: word_le_nat_alt)
  then have "rb_mask rb < rb_writer_pos rb + n2 - rb_reader_pos rb"
    using full wf_sizes_mask [OF sizes] by (simp add: word_less_nat_alt)
  then show ?thesis by (simp add: Reserve_def Let_def n2_def)
qed

lemma Reserve_room:
  assumes wf: "wf_ring rb k n" and nowrap: "unat (rb_writer_pos rb) + slot_bytes rb < 2 ^ 64"
    and room: "Suc n * slot_bytes rb < ring_size rb"
  shows "\<exists>rb'. Reserve True rb = (Some (slot_buffer rb n), False, rb') \<and> wf_ring rb' k (Suc n)
     \<and> window rb' (Suc n) = window rb n @ [Reserved] \<and> rb_reader_pos rb' = rb_reader_pos rb
     \<and> rb_sample_size rb' = rb_sample_size rb \<and> rb_data_size rb' = rb_data_size rb
     \<and> unat (rb_writer_pos rb') = unat (rb_writer_pos rb) + slot_bytes rb"
proof -
  define n2 where "n2 = align_up (rb_sample_size rb + sizeof_BufferHeader) RingBufferAlignment"
  define v where "v = rb_sample_size rb OR k_reserved_bit"
  let ?x = "unat (rb_reader_pos rb)" and ?pos = "unat (rb_writer_pos rb)"
  have sizes: "wf_sizes rb" and pos: "?pos = ?x + n * slot_bytes rb" using wf by (simp_all add: wf_ring_def)
  have n2: "unat n2 = slot_bytes rb"
    using align_sample [of "rb_sample_size rb"] sizes by (simp add: n2_def slot_bytes_def wf_sizes_def)
  then have "n2 \<noteq> 0" using slot_bytes_pos [of rb] by (metis not_numeral_le_zero unat_0)
  have new: "unat (rb_writer_pos rb + n2) = ?x + Suc n * slot_bytes rb"
    using wf nowrap by (simp add: unat_word_ariths n2 wf_ring_def)
  then have "unat (rb_writer_pos rb + n2 - rb_reader_pos rb) = Suc n * slot_bytes rb"
    by (subst unat_sub) (simp_all add: word_le_nat_alt)
  then have "\<not> rb_mask rb < rb_writer_pos rb + n2 - rb_reader_pos rb"
    using room wf_sizes_mask [OF sizes] by (simp add: word_less_nat_alt)
  then have res: "Reserve True rb = (Some (slot_buffer rb n), False,
      (write_size rb ?pos v)\<lparr>rb_writer_pos := rb_writer_pos rb + n2\<rparr>)"
    using \<open>n2 \<noteq> 0\<close> wf_sizes_mask(1) [OF sizes] pos
    by (simp add: Reserve_def Let_def v_def slot_buffer_def flip: n2_def)
  let ?rb1 = "write_size rb ?pos v"
  have rest: "slot_at ?rb1 (?x + i * slot_bytes rb) = slot_at rb (?x + i * slot_bytes rb)
      \<and> header_ok ?rb1 (?x + i * slot_bytes rb)" if "i < n" for i
    unfolding write_size_def
    by (rule slot_frame [where n = "Suc n" and j = n])
      (use that wf room slot_bytes_pos [of rb] in \<open>auto simp: wf_ring_def\<close>)
  have last: "read_size ?rb1 ?pos = v" using wf_sizes_mask(3) [OF sizes] by (rule read_write_size_same)
  then have new_slot: "slot_at ?rb1 ?pos = Reserved" "header_ok ?rb1 ?pos"
    using header_values [of "rb_sample_size rb"] sizes
    by (simp_all add: v_def slot_at_def header_ok_def wf_sizes_def)
  have "wf_ring (?rb1\<lparr>rb_writer_pos := rb_writer_pos rb + n2\<rparr>) k (Suc n)"
    using wf room new new_slot rest pos by (auto simp: wf_ring_def less_Suc_eq write_size_def)
  moreover have "window (?rb1\<lparr>rb_writer_pos := rb_writer_pos rb + n2\<rparr>) (Suc n) = window rb n @ [Reserved]"
    using rest new_slot pos by (simp add: slots_def write_size_def)
  ultimately show ?thesis using res new pos by simp
qed

text \<open>The client fills the sample through the buffer, while the slot is reserved.\<close>

lemma fill_correct:
  assumes wf: "wf_ring rb k n" and j: "j < n" and res: "window rb n ! j = Reserved"
    and len: "length bs \<le> unat (rb_sample_size rb)"
  shows "wf_ring (mem_write rb (fst (slot_buffer rb j)) bs) k n
     \<and> window (mem_write rb (fst (slot_buffer rb j)) bs) n = window rb n"
proof -
  let ?pos = "unat (rb_reader_pos rb) + j * slot_bytes rb"
  let ?rb1 = "mem_write rb (?pos + 8) bs"
  have sizes: "wf_sizes rb" using wf by (simp add: wf_ring_def)
  have "slot_bytes rb \<le> n * slot_bytes rb" using j by simp
  then have "slot_bytes rb \<le> ring_size rb" using wf unfolding wf_ring_def by linarith
  then have "mem_read ?rb1 ?pos 8 = mem_read rb ?pos 8"
    using slot_fits [of rb] len by (intro mem_read_write_other [where x = ?pos]) simp_all
  then have size: "read_size ?rb1 ?pos = read_size rb ?pos" by (simp add: read_size_def)
  moreover have ok: "header_ok rb ?pos" using wf j by (simp add: wf_ring_def)
  ultimately have "header_ok ?rb1 ?pos" by (simp add: header_ok_def)
  moreover have "slot_at rb ?pos = Reserved" using res j by (simp add: slots_def)
  with size have "slot_at ?rb1 ?pos = Reserved"
    by (auto simp: slot_at_def Let_def split: if_splits)
  ultimately show ?thesis
    using slot_update [OF wf j, of "?pos + 8" bs] slot_fits [of rb] len
      list_update_id [of "window rb n" j] res
    by (simp add: mem_write_buffer)
qed

lemma release_header:
  assumes "wf_ring rb k n" and "j < n" and "window rb n ! j = Reserved"
  shows "read_size rb (unat (rb_reader_pos rb) + j * slot_bytes rb) XOR k_reserved_bit = rb_sample_size rb"
proof -
  let ?pos = "unat (rb_reader_pos rb) + j * slot_bytes rb"
  have sizes: "wf_sizes rb" "header_ok rb ?pos" "slot_at rb ?pos = Reserved"
    using assms by (simp_all add: wf_ring_def slots_def)
  then have "read_size rb ?pos = rb_sample_size rb OR k_reserved_bit"
    by (elim header_ok_cases) simp_all
  then show ?thesis using sizes(1) by (simp add: header_values wf_sizes_def)
qed

lemma slot_buffer_header:
  "read_size rb (fst (slot_buffer rb j) - 8) = read_size rb (unat (rb_reader_pos rb) + j * slot_bytes rb)"
  "write_size rb (fst (slot_buffer rb j) - 8) v = write_size rb (unat (rb_reader_pos rb) + j * slot_bytes rb) v"
  by (simp_all add: slot_buffer_def)

lemma Commit_window:
  assumes wf: "wf_ring rb k n" and j: "j < n" and res: "window rb n ! j = Reserved"
  shows "wf_ring (Commit (slot_buffer rb j) rb) k n
     \<and> window (Commit (slot_buffer rb j) rb) n =
         (window rb n)[j := Committed (mem_read rb (fst (slot_buffer rb j)) (unat (rb_sample_size rb)))]"
proof -
  let ?pos = "unat (rb_reader_pos rb) + j * slot_bytes rb"
  have commit: "Commit (slot_buffer rb j) rb = write_size rb ?pos (rb_sample_size rb)"
    by (simp add: Commit_def Let_def slot_buffer_header release_header [OF assms])
  have "slot_at (write_size rb ?pos (rb_sample_size rb)) ?pos
      = Committed (mem_read rb (?pos + 8) (unat (rb_sample_size rb)))"
    using header_update [OF wf j, of "rb_sample_size rb"] payload_after_header [OF wf j, of "rb_sample_size rb"] wf
    by (simp add: slot_at_def header_values wf_ring_def wf_sizes_def)
  then show ?thesis
    using header_update [OF wf j, of "rb_sample_size rb"] by (simp add: commit mem_read_buffer)
qed

lemma Discard_window:
  assumes wf: "wf_ring rb k n" and j: "j < n" and res: "window rb n ! j = Reserved"
  shows "wf_ring (Discard (slot_buffer rb j) rb) k n
     \<and> window (Discard (slot_buffer rb j) rb) n = (window rb n)[j := Discarded]"
proof -
  let ?pos = "unat (rb_reader_pos rb) + j * slot_bytes rb" and ?v = "rb_sample_size rb OR k_discard_bit"
  have discard: "Discard (slot_buffer rb j) rb = write_size rb ?pos ?v"
    by (simp add: Discard_def Let_def slot_buffer_header release_header [OF assms])
  have "slot_at (write_size rb ?pos ?v) ?pos = Discarded"
    using header_update [OF wf j, of ?v] wf
    by (simp add: slot_at_def header_values wf_ring_def wf_sizes_def)
  then show ?thesis using header_update [OF wf j, of ?v] by (simp add: discard)
qed

text \<open>What a reader gets from a queue of slots: the next sample, and how many slots it passes.\<close>

fun next_sample :: "slot list \<Rightarrow> u8 list option \<times> nat" where
  "next_sample [] = (None, 0)"
| "next_sample (Reserved # q) = (None, 0)"
| "next_sample (Committed bs # q) = (Some bs, 1)"
| "next_sample (Discarded # q) = (case next_sample q of (r, c) \<Rightarrow> (r, Suc c))"

lemma next_sample_le: "snd (next_sample q) \<le> length q"
  by (induction q rule: next_sample.induct) (auto split: prod.splits)

definition advance :: "RingBufferImpl \<Rightarrow> nat \<Rightarrow> RingBufferImpl" where
  "advance rb c = rb\<lparr>rb_intermediate_reader_pos :=
     rb_intermediate_reader_pos rb + of_nat (c * slot_bytes rb)\<rparr>"

lemma advance_simps [simp]:
  "slot_bytes (advance rb c) = slot_bytes rb" "slots (advance rb c) = slots rb"
  "mem_read (advance rb c) = mem_read rb" "rb_reader_pos (advance rb c) = rb_reader_pos rb"
  "rb_data_size (advance rb c) = rb_data_size rb" "rb_writer_pos (advance rb c) = rb_writer_pos rb"
  "rb_sample_size (advance rb c) = rb_sample_size rb"
  by (simp_all add: advance_def)

lemma advance_0 [simp]: "advance rb 0 = rb"
  by (simp add: advance_def)

lemma advance_add: "advance (advance rb c) d = advance rb (c + d)"
  by (simp add: advance_def algebra_simps)

lemma wf_advance:
  assumes wf: "wf_ring rb k n" and "k + c \<le> n"
  shows "wf_ring (advance rb c) (k + c) n"
proof -
  let ?i = "rb_intermediate_reader_pos rb"
  have le: "(k + c) * slot_bytes rb \<le> n * slot_bytes rb" using assms(2) by (rule mult_le_mono1)
  then have bound: "unat ?i + c * slot_bytes rb \<le> unat (rb_writer_pos rb)"
    using wf by (simp add: wf_ring_def algebra_simps)
  then have lt: "unat ?i + c * slot_bytes rb < 2 ^ 64"
    using unat_u64_less [of "rb_writer_pos rb"] by (rule order_le_less_trans)
  then have "unat (of_nat (c * slot_bytes rb) :: u64) = c * slot_bytes rb"
    by (intro unat_of_nat_less) simp
  then have "unat (?i + of_nat (c * slot_bytes rb)) = unat ?i + c * slot_bytes rb"
    using lt by (simp add: unat_word_ariths)
  then show ?thesis using wf assms(2) by (simp add: wf_ring_def advance_def algebra_simps)
qed

text \<open>One iteration of \<open>GetNext\<close> at a slot that is not at the end.\<close>

lemma GetNext_step:
  assumes wf: "wf_ring rb k n" and k: "k < m" "m \<le> n"
    and tail: "unat tail = unat (rb_reader_pos rb) + m * slot_bytes rb"
  shows "GetNext tail rb = (case window rb n ! k of
      Reserved \<Rightarrow> Some (None, rb)
    | Committed _ \<Rightarrow> Some (Some (slot_buffer rb k), advance rb 1)
    | Discarded \<Rightarrow> GetNext tail (advance rb 1))"
proof -
  let ?x = "unat (rb_reader_pos rb)" and ?i = "rb_intermediate_reader_pos rb"
  have sizes: "wf_sizes rb" and i: "unat ?i = ?x + k * slot_bytes rb" using wf by (simp_all add: wf_ring_def)
  have ne: "?i \<noteq> tail"
  proof
    assume "?i = tail"
    then have "k * slot_bytes rb = m * slot_bytes rb" using i tail by (metis add_left_cancel)
    then show False using k slot_bytes_pos [of rb] by simp
  qed
  have lin: "unat (?i AND rb_mask rb) = (?x + k * slot_bytes rb) mod ring_size rb"
    using wf_sizes_mask(1) [OF sizes] i by simp
  have n2: "unat (align_up (rb_sample_size rb + sizeof_BufferHeader) RingBufferAlignment) = slot_bytes rb"
    using align_sample [of "rb_sample_size rb"] sizes by (simp add: slot_bytes_def wf_sizes_def)
  have "of_nat (slot_bytes rb) = align_up (rb_sample_size rb + sizeof_BufferHeader) RingBufferAlignment"
    by (simp flip: n2)
  then have adv: "rb\<lparr>rb_intermediate_reader_pos := ?i +
      align_up (rb_sample_size rb + sizeof_BufferHeader) RingBufferAlignment\<rparr> = advance rb 1"
    by (simp add: advance_def)
  have slot: "window rb n ! k = slot_at rb (?x + k * slot_bytes rb)" using k by (simp add: slots_def)
  have ok: "header_ok rb (?x + k * slot_bytes rb)" using wf k by (simp add: wf_ring_def)
  have sample: "unat (rb_sample_size rb) < 2 ^ 62" using sizes by (simp add: wf_sizes_def)
  note unfold = GetNext.simps [of tail rb] Let_def ne lin size_mod slot header_values [OF sample] adv
  show ?thesis using ok sizes
  proof (cases rule: header_ok_cases)
    case reserved
    then show ?thesis by (simp add: unfold)
  next
    case discarded
    then show ?thesis by (subst GetNext.simps) (simp add: Let_def ne lin slot header_values [OF sample] adv)
  next
    case committed
    then show ?thesis by (simp add: unfold slot_buffer_def)
  qed
qed

lemma GetNext_window:
  assumes "wf_ring rb k n" and "k \<le> m" "m \<le> n"
    and "unat tail = unat (rb_reader_pos rb) + m * slot_bytes rb"
  shows "\<exists>b. GetNext tail rb = Some (b, advance rb (snd (next_sample (drop k (take m (window rb n))))))
     \<and> map_option (\<lambda>(off, sz). mem_read rb off (unat sz)) b = fst (next_sample (drop k (take m (window rb n))))"
  using assms
proof (induction "m - k" arbitrary: rb k)
  case 0
  then have "k = m" by simp
  then have "rb_intermediate_reader_pos rb = tail"
    using 0 by (intro unat_eqI) (simp add: wf_ring_def)
  then show ?case using \<open>k = m\<close> by (subst GetNext.simps) simp
next
  case (Suc d)
  then have k: "k < m" by simp
  then have split: "drop k (take m (window rb n)) = window rb n ! k # drop (Suc k) (take m (window rb n))"
    using Suc.prems(3) by (metis Cons_nth_drop_Suc length_slots length_take min.absorb2 nth_take)
  note step = GetNext_step [OF Suc.prems(1) k Suc.prems(3,4)]
  show ?case
  proof (cases "window rb n ! k")
    case Reserved
    then show ?thesis by (simp add: step split)
  next
    case Discarded
    have "\<exists>b. GetNext tail (advance rb 1) = Some (b, advance (advance rb 1)
          (snd (next_sample (drop (Suc k) (take m (window rb n))))))
        \<and> map_option (\<lambda>(off, sz). mem_read rb off (unat sz)) b = fst (next_sample (drop (Suc k) (take m (window rb n))))"
      using Suc.hyps(1) [of "Suc k" "advance rb 1"] Suc.hyps(2) Suc.prems wf_advance [OF Suc.prems(1), of 1] k
      by simp
    then show ?thesis using Discarded by (auto simp: step split advance_add split: prod.splits)
  next
    case (Committed bs)
    have "window rb n ! k = slot_at rb (unat (rb_reader_pos rb) + k * slot_bytes rb)"
      using k Suc.prems(3) by (simp add: slots_def)
    then have "bs = mem_read rb (fst (slot_buffer rb k)) (unat (rb_sample_size rb))"
      using Committed Suc.prems(1,3) k
      by (auto simp: mem_read_buffer wf_ring_def elim!: header_ok_cases dest: spec [of _ k])
    then show ?thesis using Committed by (simp add: step split slot_buffer_def)
  qed
qed

lemma Reader_delete_window:
  assumes wf: "wf_ring rb k n"
  shows "wf_ring (Reader_delete rb) 0 (n - k) \<and> window (Reader_delete rb) (n - k) = drop k (window rb n)
     \<and> rb_writer_pos (Reader_delete rb) = rb_writer_pos rb"
proof (cases "k = 0")
  case True
  then have "Reader_delete rb = rb" using wf by (simp add: Reader_delete_def wf_ring_def word_less_nat_alt)
  then show ?thesis using True wf by simp
next
  case False
  let ?i = "rb_intermediate_reader_pos rb" and ?x = "unat (rb_reader_pos rb)"
  have "0 < k * slot_bytes rb" using False slot_bytes_pos [of rb] by simp
  then have del: "Reader_delete rb = rb\<lparr>rb_reader_pos := ?i\<rparr>"
    using wf by (simp add: Reader_delete_def wf_ring_def word_less_nat_alt)
  have k: "k \<le> n" and i: "unat ?i = ?x + k * slot_bytes rb" using wf by (simp_all add: wf_ring_def)
  have pos: "unat ?i + j * slot_bytes rb = ?x + (k + j) * slot_bytes rb" for j
    using i by (simp add: algebra_simps)
  have le: "(n - k) * slot_bytes rb \<le> n * slot_bytes rb" by simp
  have hdr: "header_ok rb (unat ?i + j * slot_bytes rb)" if "j < n - k" for j
    unfolding pos using wf that by (simp add: wf_ring_def)
  have "unat (rb_writer_pos rb) = unat ?i + (n - k) * slot_bytes rb"
    unfolding pos using wf k by (simp add: wf_ring_def)
  with hdr have "wf_ring (rb\<lparr>rb_reader_pos := ?i\<rparr>) 0 (n - k)"
    using wf order_le_less_trans [OF le] by (simp add: wf_ring_def)
  moreover have "window (rb\<lparr>rb_reader_pos := ?i\<rparr>) (n - k) = drop k (window rb n)"
    using k by (intro nth_equalityI) (simp_all add: slots_def pos less_diff_conv add.commute)
  ultimately show ?thesis by (simp add: del)
qed

section \<open>The ring as a channel\<close>

text \<open>
  The uses of the ring by the samplers: a writer reserves, fills and commits a sample, or discards its
  reservation; a reader is created, takes one sample and is destroyed.
\<close>

definition publish_sample :: "u8 list \<Rightarrow> RingBufferImpl \<Rightarrow> RingBufferImpl option" where
  "publish_sample bs rb =
     (case Reserve True rb of
        (None, _, _) \<Rightarrow> None
      | (Some buf, _, rb1) \<Rightarrow> Some (Commit buf (mem_write rb1 (fst buf) bs)))"

definition cancel_sample :: "RingBufferImpl \<Rightarrow> RingBufferImpl option" where
  "cancel_sample rb =
     (case Reserve True rb of (None, _, _) \<Rightarrow> None | (Some buf, _, rb1) \<Rightarrow> Some (Discard buf rb1))"

definition take_sample :: "RingBufferImpl \<Rightarrow> (u8 list option \<times> RingBufferImpl) option" where
  "take_sample rb =
     (case GetNext (Reader_new rb) rb of
        None \<Rightarrow> None
      | Some (b, rb1) \<Rightarrow> Some (map_option (\<lambda>(off, sz). mem_read rb1 off (unat sz)) b, Reader_delete rb1))"

fun samples :: "slot list \<Rightarrow> u8 list list" where
  "samples [] = []"
| "samples (Committed bs # q) = bs # samples q"
| "samples (_ # q) = samples q"

text \<open>The number of slots between two cursors, the unread samples, and the invariant of a ring at rest.\<close>

definition live_slots :: "RingBufferImpl \<Rightarrow> nat" where
  "live_slots rb = (unat (rb_writer_pos rb) - unat (rb_reader_pos rb)) div slot_bytes rb"

definition ring_queue :: "RingBufferImpl \<Rightarrow> u8 list list" where
  "ring_queue rb = samples (window rb (live_slots rb))"

definition ring_inv :: "nat \<Rightarrow> RingBufferImpl \<Rightarrow> bool" where
  "ring_inv b rb \<longleftrightarrow> wf_ring rb 0 (live_slots rb) \<and> Reserved \<notin> set (window rb (live_slots rb))
     \<and> unat (rb_writer_pos rb) + b * slot_bytes rb < 2 ^ 64"

definition sample_msg :: "RingBufferImpl \<Rightarrow> u8 list \<Rightarrow> bool" where
  "sample_msg rb bs \<longleftrightarrow> length bs = unat (rb_sample_size rb)"

lemma live_slots_wf: "wf_ring rb k n \<Longrightarrow> live_slots rb = n"
  using slot_bytes_pos [of rb] by (simp add: live_slots_def wf_ring_def)

lemma samples_append: "samples (xs @ ys) = samples xs @ samples ys"
  by (induction xs rule: samples.induct) simp_all

lemma next_sample_samples:
  "Reserved \<notin> set q \<Longrightarrow> fst (next_sample q) = (case samples q of [] \<Rightarrow> None | a # _ \<Rightarrow> Some a)
     \<and> samples (drop (snd (next_sample q)) q) = tl (samples q)"
  by (induction q rule: next_sample.induct) (auto split: prod.splits)

lemma reserve_live:
  assumes inv: "ring_inv (Suc b) rb" and res: "Reserve True rb = (Some buf, t, rb1)"
  defines "n \<equiv> live_slots rb"
  shows "wf_ring rb1 0 (Suc n)" "window rb1 (Suc n) = window rb n @ [Reserved]" "buf = slot_buffer rb1 n"
    "slot_bytes rb1 = slot_bytes rb" "rb_sample_size rb1 = rb_sample_size rb"
    "unat (rb_writer_pos rb1) = unat (rb_writer_pos rb) + slot_bytes rb" "slot_bytes rb1 < ring_size rb1"
proof -
  have wf: "wf_ring rb 0 n" and nowrap: "unat (rb_writer_pos rb) + slot_bytes rb < 2 ^ 64"
    using inv by (auto simp: ring_inv_def n_def)
  have room: "Suc n * slot_bytes rb < ring_size rb"
    using Reserve_no_room [OF wf nowrap] res by (cases "Suc n * slot_bytes rb < ring_size rb") auto
  have rb1: "buf = slot_buffer rb n" "wf_ring rb1 0 (Suc n)" "window rb1 (Suc n) = window rb n @ [Reserved]"
    "rb_reader_pos rb1 = rb_reader_pos rb" "rb_sample_size rb1 = rb_sample_size rb"
    "rb_data_size rb1 = rb_data_size rb" "unat (rb_writer_pos rb1) = unat (rb_writer_pos rb) + slot_bytes rb"
    using Reserve_room [OF wf nowrap room] res by auto
  then show "wf_ring rb1 0 (Suc n)" "window rb1 (Suc n) = window rb n @ [Reserved]"
    "rb_sample_size rb1 = rb_sample_size rb" "unat (rb_writer_pos rb1) = unat (rb_writer_pos rb) + slot_bytes rb"
    by simp_all
  show "buf = slot_buffer rb1 n" "slot_bytes rb1 = slot_bytes rb" "slot_bytes rb1 < ring_size rb1"
    using rb1 room by (simp_all add: slot_buffer_def slot_bytes_def)
qed

text \<open>The end of a use: the last slot of the window has its final state.\<close>

lemma finish_live:
  assumes "ring_inv (Suc b) rb" and "wf_ring rb' 0 (Suc (live_slots rb))"
    and "window rb' (Suc (live_slots rb)) = (window rb (live_slots rb) @ [Reserved])[live_slots rb := v]"
    and "v \<noteq> Reserved" and "slot_bytes rb' = slot_bytes rb" and "rb_sample_size rb' = rb_sample_size rb"
    and "unat (rb_writer_pos rb') = unat (rb_writer_pos rb) + slot_bytes rb"
  shows "ring_inv b rb' \<and> ring_queue rb' = ring_queue rb @ samples [v] \<and> sample_msg rb' = sample_msg rb"
proof -
  have "window rb' (live_slots rb') = window rb (live_slots rb) @ [v]"
    using assms(3) live_slots_wf [OF assms(2)] by (simp add: list_update_append)
  then show ?thesis
    using assms live_slots_wf [OF assms(2)]
    by (auto simp: ring_inv_def ring_queue_def samples_append sample_msg_def fun_eq_iff)
qed

lemma publish_sample_law:
  assumes inv: "ring_inv (Suc b) rb" and msg: "sample_msg rb bs" and pub: "publish_sample bs rb = Some rb'"
  shows "ring_inv b rb' \<and> ring_queue rb' = ring_queue rb @ [bs] \<and> sample_msg rb' = sample_msg rb"
proof -
  obtain buf t rb1 where res: "Reserve True rb = (Some buf, t, rb1)"
    and rb': "rb' = Commit buf (mem_write rb1 (fst buf) bs)"
    using pub by (auto simp: publish_sample_def split: prod.splits option.splits)
  let ?n = "live_slots rb" and ?rb2 = "mem_write rb1 (fst buf) bs"
  note rb1 = reserve_live [OF inv res]
  have last: "window rb1 (Suc ?n) ! ?n = Reserved" using rb1(2) by (simp add: nth_append)
  have len: "length bs = unat (rb_sample_size rb1)" using msg rb1(5) by (simp add: sample_msg_def)
  have fill: "wf_ring ?rb2 0 (Suc ?n)" "window ?rb2 (Suc ?n) = window rb1 (Suc ?n)"
    using fill_correct [OF rb1(1) lessI last, of bs] len rb1(3) by simp_all
  have buf2: "slot_buffer ?rb2 ?n = buf" using rb1(3) by (simp add: slot_buffer_def)
  have "length bs \<le> ring_size rb1" using len slot_fits [of rb1] rb1(7) by simp
  then have read: "mem_read ?rb2 (fst buf) (unat (rb_sample_size rb1)) = bs"
    using mem_read_write_same [of bs rb1 "fst buf"] len by simp
  have "wf_ring rb' 0 (Suc ?n)" "window rb' (Suc ?n) = (window rb ?n @ [Reserved])[?n := Committed bs]"
    using Commit_window [OF fill(1) lessI] fill(2) last read rb1(2) buf2 by (simp_all add: rb')
  moreover have "rb_writer_pos rb' = rb_writer_pos rb1" "slot_bytes rb' = slot_bytes rb1"
    "rb_sample_size rb' = rb_sample_size rb1"
    by (simp_all add: rb' Commit_def Let_def slot_bytes_def)
  ultimately show ?thesis using finish_live [OF inv, of rb' "Committed bs"] rb1(4-6) by simp
qed

lemma cancel_sample_law:
  assumes inv: "ring_inv (Suc b) rb" and can: "cancel_sample rb = Some rb'"
  shows "ring_inv b rb' \<and> ring_queue rb' = ring_queue rb \<and> sample_msg rb' = sample_msg rb"
proof -
  obtain buf t rb1 where res: "Reserve True rb = (Some buf, t, rb1)" and rb': "rb' = Discard buf rb1"
    using can by (auto simp: cancel_sample_def split: prod.splits option.splits)
  let ?n = "live_slots rb"
  note rb1 = reserve_live [OF inv res]
  have "wf_ring rb' 0 (Suc ?n)" "window rb' (Suc ?n) = (window rb ?n @ [Reserved])[?n := Discarded]"
    using Discard_window [OF rb1(1) lessI] rb1(2,3) by (simp_all add: rb' nth_append)
  moreover have "rb_writer_pos rb' = rb_writer_pos rb1" "slot_bytes rb' = slot_bytes rb1"
    "rb_sample_size rb' = rb_sample_size rb1"
    by (simp_all add: rb' Discard_def Let_def slot_bytes_def)
  ultimately show ?thesis using finish_live [OF inv, of rb' Discarded] rb1(4-6) by simp
qed

lemma take_sample_law:
  assumes inv: "ring_inv b rb"
  shows "\<exists>rb'. take_sample rb = Some (case ring_queue rb of [] \<Rightarrow> None | a # _ \<Rightarrow> Some a, rb')
     \<and> ring_inv b rb' \<and> ring_queue rb' = tl (ring_queue rb) \<and> sample_msg rb' = sample_msg rb"
proof -
  let ?n = "live_slots rb" and ?q = "window rb (live_slots rb)"
  let ?c = "snd (next_sample ?q)" and ?rb1 = "advance rb (snd (next_sample (window rb (live_slots rb))))"
  have wf: "wf_ring rb 0 ?n" and nores: "Reserved \<notin> set ?q" using inv by (auto simp: ring_inv_def)
  have "unat (Reader_new rb) = unat (rb_reader_pos rb) + ?n * slot_bytes rb"
    using wf by (simp add: Reader_new_def wf_ring_def)
  from GetNext_window [OF wf _ _ this] obtain r where r: "GetNext (Reader_new rb) rb = Some (r, ?rb1)"
    "map_option (\<lambda>(off, sz). mem_read rb off (unat sz)) r = fst (next_sample ?q)" by auto
  have c: "?c \<le> ?n" using next_sample_le [of ?q] by simp
  then have wf1: "wf_ring ?rb1 ?c ?n" using wf_advance [OF wf, of ?c] by simp
  note del = Reader_delete_window [OF wf1]
  let ?rb' = "Reader_delete ?rb1"
  have live: "live_slots ?rb' = ?n - ?c" using del by (auto intro: live_slots_wf)
  have win: "window ?rb' (live_slots ?rb') = drop ?c ?q" using del live by simp
  have sel: "slot_bytes ?rb' = slot_bytes rb" "rb_sample_size ?rb' = rb_sample_size rb" "rb_writer_pos ?rb' = rb_writer_pos rb"
    by (simp_all add: Reader_delete_def slot_bytes_def)
  have "ring_inv b ?rb'"
    using inv del live win sel nores by (auto simp: ring_inv_def dest: in_set_dropD)
  moreover have "ring_queue ?rb' = tl (ring_queue rb)"
    unfolding ring_queue_def win using next_sample_samples [OF nores] by simp
  moreover have "take_sample rb = Some (case ring_queue rb of [] \<Rightarrow> None | a # _ \<Rightarrow> Some a, ?rb')"
    unfolding ring_queue_def using next_sample_samples [OF nores] r by (simp add: take_sample_def)
  ultimately show ?thesis using sel by (auto simp: sample_msg_def fun_eq_iff)
qed

interpretation ring: fifo_channel ring_inv ring_queue sample_msg publish_sample cancel_sample take_sample
proof unfold_locales
  show "ring_inv (Suc b) s \<Longrightarrow> ring_inv b s" for b s by (auto simp: ring_inv_def)
qed (use publish_sample_law cancel_sample_law take_sample_law in blast)+

section \<open>Properties\<close>

text \<open>An empty ring over one page with samples of 4 bytes, for the concrete instances below.\<close>

definition page_ring :: RingBufferImpl where
  "page_ring = \<lparr>rb_mask = 4095, rb_meta_size = 4096, rb_data_size = 4096, rb_base = 0x10000, rb_writer_pos = 0,
     rb_reader_pos = 0, rb_intermediate_reader_pos = 0, rb_sample_size = 4, rb_spinlock = \<lparr>sm_flag = False\<rparr>,
     rb_mapfd = 3, rb_mem = (\<lambda>_. 0)\<rparr>"

lemma page_ring_sizes: "wf_sizes page_ring" "slot_bytes page_ring = 16" "live_slots page_ring = 0"
  "rb_reader_pos page_ring = 0" "rb_writer_pos page_ring = 0" "rb_sample_size page_ring = 4"
  by (simp_all add: wf_sizes_def page_ring_def slot_bytes_def live_slots_def exI [of _ 12])

lemma page_ring_wf: "wf_ring page_ring 0 0"
  using page_ring_sizes by (simp add: wf_ring_def page_ring_def)

lemma page_ring_inv: "ring_inv 100 page_ring"
  using page_ring_wf page_ring_sizes by (simp add: ring_inv_def slots_def)

lemma created_ring:
  assumes "ring_size rb = 2 ^ p" "rb_data_size rb = 2 ^ p" "3 \<le> p" "p < 63" "rb_mask rb = rb_data_size rb - 1"
    and "rb_reader_pos rb = 0" "rb_intermediate_reader_pos rb = 0" "rb_writer_pos rb = 0"
    and "unat (rb_sample_size rb) < 2 ^ 62" and "b * slot_bytes rb < 2 ^ 64"
  shows "ring_inv b rb \<and> ring_queue rb = []"
proof -
  have "wf_ring rb 0 0" using assms by (auto simp: wf_ring_def wf_sizes_def)
  moreover have "live_slots rb = 0" using assms by (simp add: live_slots_def)
  ultimately show ?thesis using assms by (simp add: ring_inv_def ring_queue_def slots_def)
qed

text \<open>
  C9. FIFO refinement of the ring buffer: in every interleaving of published samples (reserve, fill,
  commit), given-back reservations (reserve, discard) and reads (create a reader, \<open>GetNext\<close>, destroy
  it), every call returns, and the samples that come out followed by those still in the ring are the
  samples that were there followed by the accepted ones, byte for byte and in order, across
  wrap-arounds of the data area. The cursors must not pass \<open>2 ^ 64\<close> bytes (\<open>ring_inv\<close>).
\<close>

theorem ring_fifo:
  assumes "ring_inv (length ops) rb" and "\<And>bs. Publish bs \<in> set ops \<Longrightarrow> sample_msg rb bs"
  shows "\<exists>ins outs rb'. run_channel publish_sample cancel_sample take_sample ops rb = Some (ins, outs, rb')
     \<and> ring_queue rb @ ins = outs @ ring_queue rb'"
  using assms by (rule ring.run_fifo)

theorem ring_fifo_witness:
  "\<exists>ins outs rb'. run_channel publish_sample cancel_sample take_sample [Publish [1, 2, 3, 4], Cancel, Take, Take]
       page_ring = Some (ins, outs, rb') \<and> ring_queue page_ring @ ins = outs @ ring_queue rb'"
proof (rule ring_fifo)
  show "ring_inv (length [Publish [1, 2, 3, 4 :: u8], Cancel, Take, Take]) page_ring"
    using page_ring_inv page_ring_sizes by (simp add: ring_inv_def)
qed (auto simp: sample_msg_def page_ring_sizes)

text \<open>
  C24. Reservation: when one more slot fits below the size of the ring, \<open>Reserve\<close> returns the buffer of
  that slot, with the sample size, appends a reserved slot to the window and leaves the samples
  already there as they are; otherwise, and when the lock times out, it changes nothing.
\<close>

theorem Reserve_correct:
  assumes "wf_ring rb k n" and "unat (rb_writer_pos rb) + slot_bytes rb < 2 ^ 64"
  shows "if Suc n * slot_bytes rb < ring_size rb
     then \<exists>rb'. Reserve True rb = (Some (slot_buffer rb n), False, rb') \<and> wf_ring rb' k (Suc n)
            \<and> window rb' (Suc n) = window rb n @ [Reserved]
     else Reserve True rb = (None, False, rb)"
  using Reserve_room [OF assms] Reserve_no_room [OF assms] by (auto simp: not_less)

theorem Reserve_correct_witness:
  "\<exists>rb'. Reserve True page_ring = (Some (8, 4), False, rb') \<and> wf_ring rb' 0 1 \<and> window rb' 1 = [Reserved]"
proof -
  have "slot_buffer page_ring 0 = (8, 4)" by (simp add: slot_buffer_def page_ring_sizes)
  then show ?thesis
    using Reserve_correct [OF page_ring_wf] page_ring_sizes by (auto simp: slots_def page_ring_def)
qed

text \<open>
  Commit and discard: for a reserved slot, the bytes that the client has put into its buffer become
  the committed sample, or the slot is discarded; no other slot of the window changes.
\<close>

lemma Commit_Discard_correct:
  assumes "wf_ring rb k n" and "j < n" and "window rb n ! j = Reserved"
  shows "wf_ring (Commit (slot_buffer rb j) rb) k n \<and> wf_ring (Discard (slot_buffer rb j) rb) k n
     \<and> window (Commit (slot_buffer rb j) rb) n =
         (window rb n)[j := Committed (mem_read rb (fst (slot_buffer rb j)) (unat (rb_sample_size rb)))]
     \<and> window (Discard (slot_buffer rb j) rb) n = (window rb n)[j := Discarded]"
  using Commit_window [OF assms] Discard_window [OF assms] by blast

text \<open>The page ring after a first reservation.\<close>

lemma page_ring_reserved:
  obtains rb where "wf_ring rb 0 1" "window rb 1 = [Reserved]"
  using Reserve_room [OF page_ring_wf] page_ring_sizes by (auto simp: slots_def page_ring_def)

text \<open>
  C25. Reading: \<open>GetNext\<close> returns (its loop ends), gives the bytes of the first committed sample before
  the tail of the reader, skips the discarded slots before it, stops at a reserved one, and moves the
  intermediate cursor by exactly the slots it passed.
\<close>

theorem GetNext_correct:
  assumes "wf_ring rb k n" and "k \<le> m" "m \<le> n"
    and "unat tail = unat (rb_reader_pos rb) + m * slot_bytes rb"
  shows "\<exists>b rb'. GetNext tail rb = Some (b, rb')
     \<and> map_option (\<lambda>(off, sz). mem_read rb off (unat sz)) b = fst (next_sample (drop k (take m (window rb n))))
     \<and> wf_ring rb' (k + snd (next_sample (drop k (take m (window rb n))))) n \<and> window rb' n = window rb n"
proof -
  let ?c = "snd (next_sample (drop k (take m (window rb n))))"
  obtain b where b: "GetNext tail rb = Some (b, advance rb ?c)"
    "map_option (\<lambda>(off, sz). mem_read rb off (unat sz)) b = fst (next_sample (drop k (take m (window rb n))))"
    using GetNext_window [OF assms] by blast
  have "?c \<le> m - k" using next_sample_le [of "drop k (take m (window rb n))"] assms(3) by simp
  then have "wf_ring (advance rb ?c) (k + ?c) n" using assms by (intro wf_advance) auto
  then show ?thesis using b by auto
qed

theorem GetNext_correct_witness:
  "\<exists>rb b rb'. window rb 1 = [Discarded] \<and> GetNext (rb_writer_pos rb) rb = Some (b, rb') \<and> b = None \<and> wf_ring rb' 1 1"
proof -
  obtain rb where rb: "wf_ring rb 0 1" "window rb 1 = [Reserved]" by (rule page_ring_reserved)
  let ?rb = "Discard (slot_buffer rb 0) rb"
  have d: "wf_ring ?rb 0 1" "window ?rb 1 = [Discarded]" using Discard_window [OF rb(1), of 0] rb(2) by auto
  have "unat (rb_writer_pos ?rb) = unat (rb_reader_pos ?rb) + 1 * slot_bytes ?rb"
    using d(1) by (simp add: wf_ring_def)
  from GetNext_correct [OF d(1) _ _ this] d(2) show ?thesis by fastforce
qed

text \<open>
  Creation: \<open>Create\<close> fails exactly when one of the system calls does; otherwise the data area is
  a power of two of at least one page and at least the requested size, and the ring is empty and
  satisfies the invariant, for sizes up to \<open>2 ^ 62\<close> bytes.
\<close>

lemma RingBuffer_Create_correct:
  assumes "page_size = 2 ^ q" "3 \<le> q" "q \<le> 62" and "unat requestedSize \<le> 2 ^ 62"
    and "unat sampleSize < 2 ^ 62" and "b * ((unat sampleSize + 7) div 8 * 8 + 8) < 2 ^ 64"
  shows "case fst (RingBuffer_Create page_size os requestedSize sampleSize) of
       Inl e \<Rightarrow> os_memfd os < 0 \<or> \<not> os_ftruncate os \<or> os_reserve os = None \<or> os_reserve os = Some 0
               \<or> \<not> os_map_second os \<or> \<not> os_map_first os
     | Inr rb \<Rightarrow> 0 \<le> os_memfd os \<and> os_ftruncate os \<and> os_reserve os = Some (rb_base rb)
               \<and> os_map_second os \<and> os_map_first os \<and> requestedSize \<le> rb_data_size rb \<and> page_size \<le> rb_data_size rb
               \<and> rb_sample_size rb = sampleSize \<and> ring_inv b rb \<and> ring_queue rb = []"
proof -
  let ?m = "max page_size requestedSize"
  have page: "unat page_size = 2 ^ q" using assms(1,3) unat_pow2 [where 'a=64, of q] by simp
  have q: "(2 :: nat) ^ q \<le> 2 ^ 62" using assms(3) by (intro power_increasing) simp_all
  have umax: "unat ?m = max (unat page_size) (unat requestedSize)"
    by (auto simp: max_def word_le_nat_alt)
  have le: "unat ?m \<le> 2 ^ 62" using umax page q assms(4) by simp
  have "?m \<noteq> 0" using page umax by (metis max_def le_zero_eq power_not_zero unat_0 zero_neq_numeral)
  moreover have "unat ?m \<le> 2 ^ 63" using le by simp
  ultimately obtain p where p: "p < 64" "next_power_of_two ?m = 2 ^ p" "unat ?m \<le> 2 ^ p" "2 ^ p < 2 * unat ?m"
    by (rule next_power_of_two_pow2)
  have "(2 :: nat) ^ p < 2 ^ 63" using p(4) le by simp
  then have p63: "p < 63" by (rule power_less_imp_less_exp [rotated]) simp
  have "(2 :: nat) ^ 3 \<le> 2 ^ q" using assms(2) by (intro power_increasing) simp_all
  also have "\<dots> \<le> 2 ^ p" using p(3) page umax by simp
  finally have "(2 :: nat) ^ 3 \<le> 2 ^ p" .
  then have p3: "3 \<le> p" by (rule power_le_imp_le_exp [rotated]) simp
  have up: "unat (2 ^ p :: u64) = 2 ^ p" using p(1) by (intro unat_pow2) simp
  have "page_size \<le> 2 ^ p" "requestedSize \<le> 2 ^ p" using p(3) umax up by (simp_all add: word_le_nat_alt)
  then show ?thesis
    using p(2) up p3 p63 assms(5,6)
    by (auto simp: RingBuffer_Create_def Let_def get_mask_from_size_def slot_bytes_def
        split: option.splits intro!: created_ring [of _ p, THEN conjunct1] created_ring [of _ p, THEN conjunct2])
qed

text \<open>
  When one of the fixed mappings fails, the deleter does not know the base address yet: the
  anonymous reservation is never unmapped.
\<close>

lemma Create_leaks_reservation:
  assumes "os_memfd os \<ge> 0" "os_ftruncate os" "os_reserve os = Some base" "base \<noteq> 0" "\<not> os_map_second os"
  shows "\<exists>len. Mmap base len \<in> set (snd (RingBuffer_Create page_size os requestedSize sampleSize))
     \<and> (\<forall>a l. Munmap a l \<notin> set (snd (RingBuffer_Create page_size os requestedSize sampleSize)))"
  using assms by (auto simp: RingBuffer_Create_def Let_def RingBufferImpl_delete_def)

end
