(* ===== verification/Utf.thy ===== *)
theory Utf
  imports Bytes
begin

unbundle bit_operations_syntax

text \<open>
  Unicode conversions of the native code (\<open>miniutf.cpp\<close>) and the string helpers that use them
  (\<open>string.cpp\<close>, the Linux branches). \<open>char\<close> is a byte, \<open>char16_t\<close> and \<open>WCHAR\<close> are 16-bit words,
  \<open>char32_t\<close> is a 32-bit word; a string is a list of code units.
\<close>

section \<open>Encoding\<close>

definition utf8_encode :: "u32 \<Rightarrow> u8 list" where
  "utf8_encode pt =
     (if pt < 0x80 then [ucast pt]
      else if pt < 0x800 then [ucast (drop_bit 6 pt OR 0xC0), ucast ((pt AND 0x3F) OR 0x80)]
      else if pt < 0x10000 then
        [ucast (drop_bit 12 pt OR 0xE0), ucast ((drop_bit 6 pt AND 0x3F) OR 0x80), ucast ((pt AND 0x3F) OR 0x80)]
      else if pt < 0x110000 then
        [ucast (drop_bit 18 pt OR 0xF0), ucast ((drop_bit 12 pt AND 0x3F) OR 0x80),
         ucast ((drop_bit 6 pt AND 0x3F) OR 0x80), ucast ((pt AND 0x3F) OR 0x80)]
      else [0xEF, 0xBF, 0xBD])"

definition utf16_encode :: "u32 \<Rightarrow> u16 list" where
  "utf16_encode pt =
     (if pt < 0x10000 then [ucast pt]
      else if pt < 0x110000 then
        [ucast (drop_bit 10 (pt - 0x10000) + 0xD800), ucast ((pt AND 0x3FF) + 0xDC00)]
      else [0xFFFD])"

section \<open>Decoding\<close>

text \<open>
  \<open>offset_pt\<close>: the number of code units and the code point; \<open>None\<close> is \<open>invalid_pt\<close>. A read one past the
  last byte of a \<open>std::string\<close> gives the terminating zero.
\<close>

type_synonym offset_pt = "(nat \<times> u32) option"

definition byte_at :: "u8 list \<Rightarrow> nat \<Rightarrow> u32" where
  "byte_at str i = (if i < length str then ucast (str ! i) else 0)"

definition is_continuation :: "u32 \<Rightarrow> bool" where
  "is_continuation b \<longleftrightarrow> b AND 0xC0 = 0x80"

definition utf8_decode_check :: "u8 list \<Rightarrow> nat \<Rightarrow> offset_pt" where
  "utf8_decode_check str i =
     (let b0 = byte_at str i
      in if b0 < 0x80 then Some (1, b0)
         else if b0 < 0xC0 then None
         else if b0 < 0xE0 then
           let b1 = byte_at str (i + 1)
           in if \<not> is_continuation b1 then None
              else let pt = push_bit 6 (b0 AND 0x1F) OR (b1 AND 0x3F)
                   in if pt < 0x80 then None else Some (2, pt)
         else if b0 < 0xF0 then
           let b1 = byte_at str (i + 1)
           in if \<not> is_continuation b1 then None
              else let b2 = byte_at str (i + 2)
                   in if \<not> is_continuation b2 then None
                      else let pt = push_bit 12 (b0 AND 0x0F) OR push_bit 6 (b1 AND 0x3F) OR (b2 AND 0x3F)
                           in if pt < 0x800 then None else Some (3, pt)
         else if b0 < 0xF8 then
           let b1 = byte_at str (i + 1)
           in if \<not> is_continuation b1 then None
              else let b2 = byte_at str (i + 2)
                   in if \<not> is_continuation b2 then None
                      else let b3 = byte_at str (i + 3)
                           in if \<not> is_continuation b3 then None
                              else let pt = push_bit 18 (b0 AND 0x0F) OR push_bit 12 (b1 AND 0x3F)
                                     OR push_bit 6 (b2 AND 0x3F) OR (b3 AND 0x3F)
                                   in if pt < 0x10000 \<or> pt \<ge> 0x110000 then None else Some (4, pt)
         else None)"

definition is_high_surrogate :: "u16 \<Rightarrow> bool" where
  "is_high_surrogate c \<longleftrightarrow> c \<ge> 0xD800 \<and> c < 0xDC00"

definition is_low_surrogate :: "u16 \<Rightarrow> bool" where
  "is_low_surrogate c \<longleftrightarrow> c \<ge> 0xDC00 \<and> c < 0xE000"

text \<open>The callers pass a position inside the string. The subtractions are on promoted integers.\<close>

definition utf16_decode_check :: "u16 list \<Rightarrow> nat \<Rightarrow> offset_pt" where
  "utf16_decode_check str i =
     (if is_high_surrogate (str ! i) \<and> i + 1 < length str \<and> is_low_surrogate (str ! (i + 1))
      then let pt = (push_bit 10 (ucast (str ! i) - 0xD800) OR (ucast (str ! (i + 1)) - 0xDC00)) + 0x10000
           in Some (2, pt)
      else if is_high_surrogate (str ! i) \<or> is_low_surrogate (str ! i) then None
      else Some (1, ucast (str ! i)))"

definition utf32_decode_check :: "u32 list \<Rightarrow> nat \<Rightarrow> offset_pt" where
  "utf32_decode_check str i = (if str ! i < 0x110000 then Some (1, str ! i) else None)"

text \<open>The wrappers: the code point, the next position, and whether the replacement flag is set.\<close>

definition decode_wrapper :: "nat \<Rightarrow> offset_pt \<Rightarrow> u32 \<times> nat \<times> bool" where
  "decode_wrapper i res =
     (case res of None \<Rightarrow> (0xFFFD, i + 1, True) | Some (offset, pt) \<Rightarrow> (pt, i + offset, False))"

definition utf8_decode :: "u8 list \<Rightarrow> nat \<Rightarrow> u32 \<times> nat \<times> bool" where
  "utf8_decode str i = decode_wrapper i (utf8_decode_check str i)"

definition utf16_decode :: "u16 list \<Rightarrow> nat \<Rightarrow> u32 \<times> nat \<times> bool" where
  "utf16_decode str i = decode_wrapper i (utf16_decode_check str i)"

lemma utf8_check_offset: "utf8_decode_check str i = Some (n, pt) \<Longrightarrow> 0 < n"
  by (auto simp: utf8_decode_check_def Let_def split: if_splits)

lemma utf16_check_offset: "utf16_decode_check str i = Some (n, pt) \<Longrightarrow> 0 < n"
  by (auto simp: utf16_decode_check_def Let_def split: if_splits)

lemma utf8_decode_advances: "i < fst (snd (utf8_decode str i))"
  by (auto simp: utf8_decode_def decode_wrapper_def dest: utf8_check_offset split: option.splits)

lemma utf16_decode_advances: "i < fst (snd (utf16_decode str i))"
  by (auto simp: utf16_decode_def decode_wrapper_def dest: utf16_check_offset split: option.splits)

section \<open>Checks and conversions\<close>

text \<open>\<open>check_helper\<close>, with the decoder as an argument; a decoder that returns moves by at least one unit.\<close>

function check_helper :: "('a list \<Rightarrow> nat \<Rightarrow> offset_pt) \<Rightarrow> 'a list \<Rightarrow> nat \<Rightarrow> bool" where
  "check_helper func str i =
     (if i < length str
      then case func str i of None \<Rightarrow> False | Some (offset, pt) \<Rightarrow> check_helper func str (i + max 1 offset)
      else True)"
  by pat_completeness auto
termination by (relation "measure (\<lambda>(func, str, i). length str - i)") auto

definition utf8_check :: "u8 list \<Rightarrow> bool" where
  "utf8_check str = check_helper utf8_decode_check str 0"

definition utf16_check :: "u16 list \<Rightarrow> bool" where
  "utf16_check str = check_helper utf16_decode_check str 0"

definition utf32_check :: "u32 list \<Rightarrow> bool" where
  "utf32_check str = check_helper utf32_decode_check str 0"

function to_utf32_loop :: "u8 list \<Rightarrow> nat \<Rightarrow> u32 list" where
  "to_utf32_loop str i =
     (if i < length str then fst (utf8_decode str i) # to_utf32_loop str (fst (snd (utf8_decode str i))) else [])"
  by pat_completeness auto
termination
  by (relation "measure (\<lambda>(str, i). length str - i)") (use utf8_decode_advances in \<open>auto intro: diff_less_mono2\<close>)

definition to_utf32 :: "u8 list \<Rightarrow> u32 list" where
  "to_utf32 str = to_utf32_loop str 0"

function to_utf16_loop :: "u8 list \<Rightarrow> nat \<Rightarrow> u16 list" where
  "to_utf16_loop str i =
     (if i < length str
      then utf16_encode (fst (utf8_decode str i)) @ to_utf16_loop str (fst (snd (utf8_decode str i))) else [])"
  by pat_completeness auto
termination
  by (relation "measure (\<lambda>(str, i). length str - i)") (use utf8_decode_advances in \<open>auto intro: diff_less_mono2\<close>)

definition to_utf16 :: "u8 list \<Rightarrow> u16 list" where
  "to_utf16 str = to_utf16_loop str 0"

function to_utf8_loop :: "u16 list \<Rightarrow> nat \<Rightarrow> u8 list" where
  "to_utf8_loop str i =
     (if i < length str
      then utf8_encode (fst (utf16_decode str i)) @ to_utf8_loop str (fst (snd (utf16_decode str i))) else [])"
  by pat_completeness auto
termination
  by (relation "measure (\<lambda>(str, i). length str - i)") (use utf16_decode_advances in \<open>auto intro: diff_less_mono2\<close>)

definition to_utf8 :: "u16 list \<Rightarrow> u8 list" where
  "to_utf8 str = to_utf8_loop str 0"

definition to_utf8_32 :: "u32 list \<Rightarrow> u8 list" where
  "to_utf8_32 str = concat (map utf8_encode str)"

declare check_helper.simps [simp del] to_utf32_loop.simps [simp del] to_utf16_loop.simps [simp del]
  to_utf8_loop.simps [simp del]

section \<open>String helpers\<close>

text \<open>\<open>ToString(const WCHAR*)\<close>: the string up to its terminating zero; \<open>None\<close> is the null pointer.\<close>

definition ToString :: "u16 list option \<Rightarrow> u8 list" where
  "ToString wstr = (case wstr of None \<Rightarrow> [] | Some w \<Rightarrow> if w = [] then [] else to_utf8 w)"

text \<open>\<open>ToWSTRING(const std::string&)\<close>: the conversion stops at an embedded zero, because it passes \<open>c_str()\<close>.\<close>

definition ToWSTRING :: "u8 list \<Rightarrow> u16 list" where
  "ToWSTRING str = takeWhile (\<lambda>c. c \<noteq> 0) (to_utf16 str)"

text \<open>\<open>ToWSTRING(uint64_t)\<close>: the digits, from the last to the first.\<close>

fun digits_loop :: "nat \<Rightarrow> u64 \<Rightarrow> u16 list \<Rightarrow> u16 list" where
  "digits_loop 0 res out = out"
| "digits_loop (Suc n) res out =
     (let out1 = (ucast (res mod 10) + 48) # out; res1 = res div 10
      in if res1 \<noteq> 0 then digits_loop n res1 out1 else out1)"

definition ToWSTRING_u64 :: "u64 \<Rightarrow> u16 list" where
  "ToWSTRING_u64 v = digits_loop 24 v []"

definition EndsWith :: "'a list \<Rightarrow> 'a list \<Rightarrow> bool" where
  "EndsWith str suf \<longleftrightarrow> length str \<ge> length suf \<and> take (length suf) (drop (length str - length suf) str) = suf"

definition StartsWith :: "'a list \<Rightarrow> 'a list \<Rightarrow> bool" where
  "StartsWith str pre \<longleftrightarrow> length str \<ge> length pre \<and> take (length pre) str = pre"

section \<open>Bits of the encodings\<close>

lemma mask_literals:
  "(0x3F :: u32) = mask 6" "(0x1F :: u32) = mask 5" "(0x0F :: u32) = mask 4" "(0x3FF :: u32) = mask 10"
  by (simp_all add: mask_eq_exp_minus_1)

lemma lead_literals:
  "(0x80 :: u32) = 2 ^ 7" "(0xC0 :: u32) = 2 ^ 7 OR 2 ^ 6" "(0xE0 :: u32) = 2 ^ 7 OR 2 ^ 6 OR 2 ^ 5"
  "(0xF0 :: u32) = 2 ^ 7 OR 2 ^ 6 OR 2 ^ 5 OR 2 ^ 4"
  by simp_all

lemma bit_pow2_u32: "bit (2 ^ k :: u32) n \<longleftrightarrow> n = k \<and> k < 32"
  by (auto simp: bit_exp_iff)

lemmas utf_bits = bit_and_iff bit_or_iff bit_xor_iff bit_mask_iff bit_pow2_u32 bit_unsigned_iff bit_drop_bit_eq
  bit_push_bit_iff bit_not_iff o_apply

lemma small_bits:
  fixes x :: u32
  assumes "x < 2 ^ k" and "k < 32" and "bit x n"
  shows "n < k"
proof -
  have "unat x < 2 ^ k" using assms(1,2) by (simp add: word_less_nat_alt unat_pow2)
  then have "take_bit k (unat x) = unat x" by (rule take_bit_nat_eq_self)
  then have "take_bit k x = x" by (metis unsigned_take_bit_eq unsigned_word_eqI)
  then show ?thesis using assms(3) by (metis bit_take_bit_iff)
qed

lemma cont_byte:
  fixes x :: u32
  defines "b \<equiv> ucast (ucast ((x AND 0x3F) OR 0x80) :: u8) :: u32"
  shows "is_continuation b" "b AND 0x3F = x AND 0x3F"
proof -
  have "b AND 0xC0 = 0x80"
    unfolding b_def mask_literals lead_literals by (rule bit_word_eqI) (simp only: utf_bits, auto)
  then show "is_continuation b" by (simp add: is_continuation_def)
  show "b AND 0x3F = x AND 0x3F"
    unfolding b_def mask_literals lead_literals by (rule bit_word_eqI) (simp only: utf_bits, auto)
qed

text \<open>A leading byte: the high bits of the code point below the marker bits of \<open>c\<close>.\<close>

lemma lead_byte:
  fixes x c :: u32
  assumes x: "x < 2 ^ k" "k \<le> m" "m < 8" and c: "\<And>n. bit c n \<Longrightarrow> m \<le> n \<and> n < 8"
  defines "b \<equiv> ucast (ucast (x OR c) :: u8) :: u32"
  shows "b = x + c" "b AND mask m = x"
proof -
  have xs: "n < m" if "bit x n" for n using small_bits [OF x(1) _ that] x(2,3) by simp
  have "b = x OR c"
    unfolding b_def by (rule bit_word_eqI) (simp only: utf_bits, use xs c x(3) in fastforce)
  also have "\<dots> = x + c"
    by (rule disjunctive_add_eq_or [symmetric], rule bit_word_eqI, simp only: utf_bits) (use xs c in fastforce)
  finally show "b = x + c" .
  show "b AND mask m = x"
    unfolding b_def by (rule bit_word_eqI) (simp only: utf_bits, use xs c x(3) in fastforce)
qed

lemma marker_bits:
  "bit (0xC0 :: u32) n \<Longrightarrow> 5 \<le> n \<and> n < 8" "bit (0xE0 :: u32) n \<Longrightarrow> 4 \<le> n \<and> n < 8"
  "bit (0xF0 :: u32) n \<Longrightarrow> 4 \<le> n \<and> n < 8"
  by (unfold lead_literals, simp_all only: utf_bits) auto

lemmas lead_byte2 = lead_byte [where k = 5 and m = 5 and c = "0xC0", OF _ _ _ marker_bits(1), simplified]
lemmas lead_byte3 = lead_byte [where k = 4 and m = 4 and c = "0xE0", OF _ _ _ marker_bits(2), simplified]
lemmas lead_byte4 = lead_byte [where k = 3 and m = 4 and c = "0xF0", OF _ _ _ marker_bits(3), simplified]

text \<open>Putting the pieces of a code point together again.\<close>

lemma join2: "(pt :: u32) = push_bit 6 (drop_bit 6 pt) OR (pt AND 0x3F)"
  unfolding mask_literals by (rule bit_word_eqI) (simp only: utf_bits, auto)

lemma join3: "(pt :: u32) = push_bit 12 (drop_bit 12 pt) OR push_bit 6 (drop_bit 6 pt AND 0x3F) OR (pt AND 0x3F)"
  unfolding mask_literals by (rule bit_word_eqI) (simp only: utf_bits, rename_tac n, case_tac "n < 6"; case_tac "n < 12"; case_tac "n < 18"; auto)

lemma join4:
  "(pt :: u32) = push_bit 18 (drop_bit 18 pt) OR push_bit 12 (drop_bit 12 pt AND 0x3F)
     OR push_bit 6 (drop_bit 6 pt AND 0x3F) OR (pt AND 0x3F)"
  unfolding mask_literals by (rule bit_word_eqI) (simp only: utf_bits, rename_tac n, case_tac "n < 6"; case_tac "n < 12"; case_tac "n < 18"; auto)

lemma unat_drop_bit: "unat (drop_bit k x) = unat x div 2 ^ k"
  by (simp add: unat_drop_bit_eq flip: drop_bit_eq_div)

lemma drop_bit_less:
  fixes pt :: u32
  assumes "unat pt < 2 ^ k * n" and "n < 2 ^ 32"
  shows "drop_bit k pt < of_nat n"
proof -
  have "unat (drop_bit k pt) = unat pt div 2 ^ k" by (rule unat_drop_bit)
  also have "\<dots> < n" using assms(1) by (simp add: less_mult_imp_div_less mult.commute)
  finally show ?thesis using assms(2) by (simp add: word_less_nat_alt unat_of_nat_less)
qed

section \<open>Decoding what was encoded\<close>

lemma byte_at_append: "byte_at (pre @ xs) (length pre + k) = byte_at xs k"
  by (simp add: byte_at_def nth_append)

lemma utf8_decode_check_append:
  "utf8_decode_check (pre @ xs) (length pre) = utf8_decode_check xs 0"
proof -
  have "byte_at (pre @ xs) (length pre) = byte_at xs 0" using byte_at_append [of pre xs 0] by simp
  then show ?thesis by (simp only: utf8_decode_check_def byte_at_append add_0)
qed

text \<open>The value of an encoding, byte by byte.\<close>

lemma byte_at_Cons:
  "byte_at (b # bs) 0 = ucast b" "byte_at (b # bs) (Suc k) = byte_at bs k"
  "byte_at (b # bs) (numeral n) = byte_at bs (pred_numeral n)"
  by (auto simp: byte_at_def)

lemma word_add_range:
  fixes x :: u32
  assumes "unat x < n" and "n + unat c \<le> 2 ^ 31"
  shows "unat (x + c) = unat x + unat c"
  using assms by (simp add: unat_word_ariths)

lemma utf8_decode_encode1:
  assumes "pt < 0x80"
  shows "utf8_decode_check (utf8_encode pt @ rest) 0 = Some (length (utf8_encode pt), pt)"
proof -
  have "ucast (ucast pt :: u8) = pt"
    using small_bits [of pt 7] assms by (intro bit_word_eqI) (auto simp: bit_unsigned_iff intro: less_trans)
  then show ?thesis using assms by (simp add: utf8_encode_def utf8_decode_check_def byte_at_Cons)
qed

lemma utf8_decode_encode2:
  assumes "0x80 \<le> pt" "pt < 0x800"
  shows "utf8_decode_check (utf8_encode pt @ rest) 0 = Some (length (utf8_encode pt), pt)"
proof -
  have x: "drop_bit 6 pt < 0x20" using drop_bit_less [of pt 6 32] assms(2) by (simp add: word_less_nat_alt)
  have lead: "ucast (ucast (drop_bit 6 pt OR 0xC0) :: u8) = drop_bit 6 pt + 0xC0"
    "(drop_bit 6 pt + 0xC0) AND 0x1F = drop_bit 6 pt"
    using lead_byte2 [OF x] by (simp_all add: mask_literals)
  have "unat (drop_bit 6 pt + 0xC0) = unat (drop_bit 6 pt) + 192"
    using word_add_range [of "drop_bit 6 pt" 32 "0xC0"] x by (simp add: word_less_nat_alt)
  then have "\<not> drop_bit 6 pt + 0xC0 < 0x80" "\<not> drop_bit 6 pt + 0xC0 < 0xC0" "drop_bit 6 pt + 0xC0 < 0xE0"
    using x by (simp_all add: word_less_nat_alt)
  moreover have "utf8_encode pt = [ucast (drop_bit 6 pt OR 0xC0), ucast ((pt AND 0x3F) OR 0x80)]"
    using assms by (simp add: utf8_encode_def)
  ultimately show ?thesis
    using assms lead cont_byte [of pt] join2 [of pt, symmetric]
    by (simp add: utf8_decode_check_def byte_at_Cons Let_def)
qed

lemma utf8_decode_encode3:
  assumes "0x800 \<le> pt" "pt < 0x10000"
  shows "utf8_decode_check (utf8_encode pt @ rest) 0 = Some (length (utf8_encode pt), pt)"
proof -
  have x: "drop_bit 12 pt < 0x10" using drop_bit_less [of pt 12 16] assms(2) by (simp add: word_less_nat_alt)
  have lead: "ucast (ucast (drop_bit 12 pt OR 0xE0) :: u8) = drop_bit 12 pt + 0xE0"
    "(drop_bit 12 pt + 0xE0) AND 0x0F = drop_bit 12 pt"
    using lead_byte3 [OF x] by (simp_all add: mask_literals)
  have "unat (drop_bit 12 pt + 0xE0) = unat (drop_bit 12 pt) + 224"
    using word_add_range [of "drop_bit 12 pt" 16 "0xE0"] x by (simp add: word_less_nat_alt)
  then have "\<not> drop_bit 12 pt + 0xE0 < 0x80" "\<not> drop_bit 12 pt + 0xE0 < 0xC0" "\<not> drop_bit 12 pt + 0xE0 < 0xE0"
    "drop_bit 12 pt + 0xE0 < 0xF0"
    using x by (simp_all add: word_less_nat_alt)
  moreover have "utf8_encode pt = [ucast (drop_bit 12 pt OR 0xE0), ucast ((drop_bit 6 pt AND 0x3F) OR 0x80),
      ucast ((pt AND 0x3F) OR 0x80)]"
  proof -
    have "\<not> pt < 0x80" "\<not> pt < 0x800" using assms(1) by (simp_all add: word_less_nat_alt word_le_nat_alt)
    then show ?thesis using assms by (simp add: utf8_encode_def)
  qed
  ultimately show ?thesis
    using assms lead cont_byte [of pt] cont_byte [of "drop_bit 6 pt"] join3 [of pt, symmetric]
    by (simp add: utf8_decode_check_def byte_at_Cons Let_def)
qed

lemma utf8_decode_encode4:
  assumes "0x10000 \<le> pt" "pt < 0x110000"
  shows "utf8_decode_check (utf8_encode pt @ rest) 0 = Some (length (utf8_encode pt), pt)"
proof -
  have x: "drop_bit 18 pt < 8" using drop_bit_less [of pt 18 8] assms(2) by (simp add: word_less_nat_alt)
  have lead: "ucast (ucast (drop_bit 18 pt OR 0xF0) :: u8) = drop_bit 18 pt + 0xF0"
    "(drop_bit 18 pt + 0xF0) AND 0x0F = drop_bit 18 pt"
    using lead_byte4 [OF x] by (simp_all add: mask_literals)
  have "unat (drop_bit 18 pt + 0xF0) = unat (drop_bit 18 pt) + 240"
    using word_add_range [of "drop_bit 18 pt" 8 "0xF0"] x by (simp add: word_less_nat_alt)
  then have "\<not> drop_bit 18 pt + 0xF0 < 0x80" "\<not> drop_bit 18 pt + 0xF0 < 0xC0" "\<not> drop_bit 18 pt + 0xF0 < 0xE0"
    "\<not> drop_bit 18 pt + 0xF0 < 0xF0" "drop_bit 18 pt + 0xF0 < 0xF8"
    using x by (simp_all add: word_less_nat_alt)
  moreover have "utf8_encode pt = [ucast (drop_bit 18 pt OR 0xF0), ucast ((drop_bit 12 pt AND 0x3F) OR 0x80),
      ucast ((drop_bit 6 pt AND 0x3F) OR 0x80), ucast ((pt AND 0x3F) OR 0x80)]"
  proof -
    have "\<not> pt < 0x80" "\<not> pt < 0x800" "\<not> pt < 0x10000"
      using assms(1) by (simp_all add: word_less_nat_alt word_le_nat_alt)
    then show ?thesis using assms by (simp add: utf8_encode_def)
  qed
  ultimately show ?thesis
    using assms [unfolded not_less [symmetric]] assms(2) lead cont_byte [of pt] cont_byte [of "drop_bit 6 pt"]
      cont_byte [of "drop_bit 12 pt"] join4 [of pt, symmetric]
    by (simp add: utf8_decode_check_def byte_at_Cons Let_def)
qed

lemma utf8_decode_encode:
  assumes "pt < 0x110000"
  shows "utf8_decode_check (utf8_encode pt @ rest) 0 = Some (length (utf8_encode pt), pt)"
proof -
  consider "pt < 0x80" | "0x80 \<le> pt" "pt < 0x800" | "0x800 \<le> pt" "pt < 0x10000" | "0x10000 \<le> pt"
    by (meson not_le_imp_less)
  then show ?thesis
    by cases (use assms in \<open>auto intro: utf8_decode_encode1 utf8_decode_encode2 utf8_decode_encode3 utf8_decode_encode4\<close>)
qed

section \<open>What the decoder accepts\<close>

lemma bits_small:
  fixes x :: u32
  assumes "\<And>n. bit x n \<Longrightarrow> n < k" and "k < 32"
  shows "x < 2 ^ k"
proof -
  have "take_bit k x = x" by (rule bit_word_eqI) (use assms in \<open>auto simp: bit_simps\<close>)
  then have "unat x < 2 ^ k" by (metis take_bit_nat_less_exp unsigned_take_bit_eq)
  then show ?thesis using assms(2) by (simp add: word_less_nat_alt unat_pow2)
qed

lemma lead_split:
  fixes b c :: u32
  assumes "c \<le> b" "unat b < unat c + 2 ^ k" "k < 32" and c: "\<And>n. bit c n \<Longrightarrow> k \<le> n"
  shows "\<exists>x. x < 2 ^ k \<and> b = x OR c"
proof -
  have "unat (b - c) = unat b - unat c" using assms(1) by (simp add: unat_sub)
  then have x: "b - c < 2 ^ k"
    using assms by (simp add: word_less_nat_alt unat_pow2 word_le_nat_alt)
  have "(b - c) + c = (b - c) OR c"
    by (rule disjunctive_add_eq_or, rule bit_word_eqI, simp only: utf_bits)
      (use small_bits [OF x assms(3)] c in fastforce)
  then show ?thesis using x by (intro exI [of _ "b - c"]) simp
qed

lemma cont_split:
  assumes "is_continuation (ucast (y :: u8))"
  shows "ucast y = ((ucast y AND 0x3F) OR 0x80 :: u32)"
proof -
  have and_bits: "(ucast y AND 0xC0 :: u32) = 0x80" using assms by (simp add: is_continuation_def)
  have "bit (ucast y AND 0xC0 :: u32) n \<longleftrightarrow> bit (0x80 :: u32) n" for n by (simp only: and_bits)
  then have eq: "n < 32 \<and> bit y n \<and> (n = 7 \<or> n = 6) \<longleftrightarrow> n = 7" for n
    unfolding lead_literals utf_bits by (auto simp: bit_imp_le_length dest: bit_imp_le_length)
  have "bit y 7" "\<not> bit y 6" using eq [of 7] eq [of 6] by simp_all
  moreover have "n < 8" if "bit y n" for n using bit_imp_le_length [OF that] by simp
  ultimately show ?thesis
    unfolding mask_literals lead_literals
    by (intro bit_word_eqI) (simp only: utf_bits, rename_tac n, case_tac "n = 7"; case_tac "n = 6"; force)
qed

lemma parts2:
  fixes x u :: u32
  assumes "\<And>n. bit u n \<Longrightarrow> n < 6" "\<And>n. bit x n \<Longrightarrow> n < 5"
  defines "pt \<equiv> push_bit 6 x OR u"
  shows "drop_bit 6 pt = x" "pt AND 0x3F = u" "pt < 0x800"
proof -
  show "drop_bit 6 pt = x" unfolding pt_def by (rule bit_word_eqI) (simp only: utf_bits, use assms in fastforce)
  show "pt AND 0x3F = u"
    unfolding pt_def mask_literals by (rule bit_word_eqI) (simp only: utf_bits, use assms in fastforce)
  have "pt < 2 ^ 11" unfolding pt_def by (rule bits_small) (simp only: utf_bits, use assms in fastforce, simp)
  then show "pt < 0x800" by simp
qed

lemma parts3:
  fixes x u v :: u32
  assumes "\<And>n. bit u n \<Longrightarrow> n < 6" "\<And>n. bit v n \<Longrightarrow> n < 6" "\<And>n. bit x n \<Longrightarrow> n < 4"
  defines "pt \<equiv> push_bit 12 x OR push_bit 6 u OR v"
  shows "drop_bit 12 pt = x" "drop_bit 6 pt AND 0x3F = u" "pt AND 0x3F = v" "pt < 0x10000"
proof -
  show "drop_bit 12 pt = x" unfolding pt_def by (rule bit_word_eqI) (simp only: utf_bits, use assms in fastforce)
  show "drop_bit 6 pt AND 0x3F = u"
    unfolding pt_def mask_literals by (rule bit_word_eqI) (simp only: utf_bits, use assms in fastforce)
  show "pt AND 0x3F = v"
    unfolding pt_def mask_literals by (rule bit_word_eqI) (simp only: utf_bits, use assms in fastforce)
  have "pt < 2 ^ 16" unfolding pt_def by (rule bits_small) (simp only: utf_bits, use assms in fastforce, simp)
  then show "pt < 0x10000" by simp
qed

lemma parts4:
  fixes x u v w :: u32
  assumes "\<And>n. bit u n \<Longrightarrow> n < 6" "\<And>n. bit v n \<Longrightarrow> n < 6" "\<And>n. bit w n \<Longrightarrow> n < 6" "\<And>n. bit x n \<Longrightarrow> n < 3"
  defines "pt \<equiv> push_bit 18 x OR push_bit 12 u OR push_bit 6 v OR w"
  shows "drop_bit 18 pt = x" "drop_bit 12 pt AND 0x3F = u" "drop_bit 6 pt AND 0x3F = v" "pt AND 0x3F = w"
proof -
  show "drop_bit 18 pt = x" unfolding pt_def by (rule bit_word_eqI) (simp only: utf_bits, use assms in fastforce)
  show "drop_bit 12 pt AND 0x3F = u"
    unfolding pt_def mask_literals by (rule bit_word_eqI) (simp only: utf_bits, use assms in fastforce)
  show "drop_bit 6 pt AND 0x3F = v"
    unfolding pt_def mask_literals by (rule bit_word_eqI) (simp only: utf_bits, use assms in fastforce)
  show "pt AND 0x3F = w"
    unfolding pt_def mask_literals by (rule bit_word_eqI) (simp only: utf_bits, use assms in fastforce)
qed

lemma ucast_byte_back: "ucast (y :: u8) = (z :: u32) \<Longrightarrow> y = ucast z"
  by (drule sym, simp, rule bit_word_eqI) (auto simp: bit_unsigned_iff)

lemma continuation_at:
  assumes "is_continuation (byte_at xs k)"
  shows "k < length xs" "byte_at xs k = ucast (xs ! k)" "xs ! k = ucast ((byte_at xs k AND 0x3F) OR 0x80)"
proof -
  show k: "k < length xs" using assms by (auto simp: byte_at_def is_continuation_def split: if_splits)
  then show eq: "byte_at xs k = ucast (xs ! k)" by (simp add: byte_at_def)
  show "xs ! k = ucast ((byte_at xs k AND 0x3F) OR 0x80)"
    unfolding eq by (rule ucast_byte_back) (rule cont_split, use assms eq in simp)
qed

lemma and_3F_bits: "bit (y AND 0x3F :: u32) n \<Longrightarrow> n < 6"
  unfolding mask_literals by (simp only: utf_bits)

lemma lead_at:
  assumes "unat c \<le> unat (byte_at xs 0)" "unat (byte_at xs 0) < unat c + 2 ^ k" "k \<le> m" "m < 8" "0 < unat c"
    and c: "\<And>n. bit c n \<Longrightarrow> m \<le> n \<and> n < 8"
  shows "0 < length xs" "xs ! 0 = ucast ((byte_at xs 0 AND mask m) OR c)" "\<And>n. bit (byte_at xs 0 AND mask m) n \<Longrightarrow> n < k"
proof -
  show len: "0 < length xs" using assms(1,5) by (auto simp: byte_at_def split: if_splits)
  have "c \<le> byte_at xs 0" using assms(1) by (simp add: word_le_nat_alt)
  then obtain x where x: "x < 2 ^ k" "byte_at xs 0 = x OR c"
    using lead_split [of c "byte_at xs 0" k] assms(2-4) c by (auto intro: le_trans)
  have bits: "n < k" if "bit x n" for n using small_bits [OF x(1) _ that] assms(3,4) by simp
  have "byte_at xs 0 AND mask m = x"
    unfolding x(2) by (rule bit_word_eqI) (simp only: utf_bits, use bits c assms(3) in fastforce)
  with bits x(2) len show "xs ! 0 = ucast ((byte_at xs 0 AND mask m) OR c)"
    "\<And>n. bit (byte_at xs 0 AND mask m) n \<Longrightarrow> n < k"
    by (auto simp: byte_at_def intro: ucast_byte_back)
qed

lemma take_2_3_4:
  "2 \<le> length xs \<Longrightarrow> take 2 xs = [xs ! 0, xs ! 1]" "3 \<le> length xs \<Longrightarrow> take 3 xs = [xs ! 0, xs ! 1, xs ! 2]"
  "4 \<le> length xs \<Longrightarrow> take 4 xs = [xs ! 0, xs ! 1, xs ! 2, xs ! 3]"
  by (simp_all add: list_eq_iff_nth_eq less_Suc_eq numeral_eq_Suc)

lemma utf8_sound1:
  assumes "byte_at xs 0 < 0x80" "xs \<noteq> []"
  shows "take 1 xs = utf8_encode (byte_at xs 0)"
proof -
  obtain y ys where xs: "xs = y # ys" using assms(2) by (cases xs) auto
  have "y = ucast (ucast y :: u32)" by (rule ucast_byte_back) simp
  then show ?thesis using assms(1) by (simp add: xs utf8_encode_def byte_at_def)
qed

lemma utf8_sound2:
  assumes b: "\<not> byte_at xs 0 < 0xC0" "byte_at xs 0 < 0xE0" and c: "is_continuation (byte_at xs 1)"
  defines "pt \<equiv> push_bit 6 (byte_at xs 0 AND 0x1F) OR (byte_at xs 1 AND 0x3F)"
  assumes "\<not> pt < 0x80"
  shows "take 2 xs = utf8_encode pt" "pt < 0x110000"
proof -
  have lead: "xs ! 0 = ucast ((byte_at xs 0 AND 0x1F) OR 0xC0)" "\<And>n. bit (byte_at xs 0 AND 0x1F) n \<Longrightarrow> n < 5"
    using lead_at [of "0xC0" xs 5 5] b marker_bits(1) by (simp_all add: mask_literals word_less_nat_alt)
  have parts: "drop_bit 6 pt = byte_at xs 0 AND 0x1F" "pt AND 0x3F = byte_at xs 1 AND 0x3F" "pt < 0x800"
    unfolding pt_def by (rule parts2; use and_3F_bits lead(2) in blast)+
  have "utf8_encode pt = [ucast (drop_bit 6 pt OR 0xC0), ucast ((pt AND 0x3F) OR 0x80)]"
    using assms(5) parts(3) by (simp add: utf8_encode_def)
  moreover have "take 2 xs = [xs ! 0, xs ! 1]" using continuation_at(1) [OF c] by (intro take_2_3_4) simp
  ultimately show "take 2 xs = utf8_encode pt" using lead(1) continuation_at(3) [OF c] by (simp only: parts)
  show "pt < 0x110000" using parts(3) by (rule less_trans) simp
qed

lemma utf8_sound3:
  assumes b: "\<not> byte_at xs 0 < 0xE0" "byte_at xs 0 < 0xF0"
    and c: "is_continuation (byte_at xs 1)" "is_continuation (byte_at xs 2)"
  defines "pt \<equiv> push_bit 12 (byte_at xs 0 AND 0x0F) OR push_bit 6 (byte_at xs 1 AND 0x3F) OR (byte_at xs 2 AND 0x3F)"
  assumes pt: "\<not> pt < 0x800"
  shows "take 3 xs = utf8_encode pt" "pt < 0x110000"
proof -
  have lead: "xs ! 0 = ucast ((byte_at xs 0 AND 0x0F) OR 0xE0)" "\<And>n. bit (byte_at xs 0 AND 0x0F) n \<Longrightarrow> n < 4"
    using lead_at [of "0xE0" xs 4 4] b marker_bits(2) by (simp_all add: mask_literals word_less_nat_alt)
  have parts: "drop_bit 12 pt = byte_at xs 0 AND 0x0F" "drop_bit 6 pt AND 0x3F = byte_at xs 1 AND 0x3F"
    "pt AND 0x3F = byte_at xs 2 AND 0x3F" "pt < 0x10000"
    unfolding pt_def by (rule parts3; use and_3F_bits lead(2) in blast)+
  have "\<not> pt < 0x80" using pt by (simp add: word_less_nat_alt)
  then have "utf8_encode pt = [ucast (drop_bit 12 pt OR 0xE0), ucast ((drop_bit 6 pt AND 0x3F) OR 0x80),
      ucast ((pt AND 0x3F) OR 0x80)]"
    using pt parts(4) by (simp add: utf8_encode_def)
  moreover have "take 3 xs = [xs ! 0, xs ! 1, xs ! 2]" using continuation_at(1) [OF c(2)] by (intro take_2_3_4) simp
  ultimately show "take 3 xs = utf8_encode pt"
    using lead(1) continuation_at(3) [OF c(1)] continuation_at(3) [OF c(2)] by (simp only: parts)
  show "pt < 0x110000" using parts(4) by (rule less_trans) simp
qed

lemma utf8_sound4:
  assumes b: "\<not> byte_at xs 0 < 0xF0" "byte_at xs 0 < 0xF8" and c: "is_continuation (byte_at xs 1)"
    "is_continuation (byte_at xs 2)" "is_continuation (byte_at xs 3)"
  defines "pt \<equiv> push_bit 18 (byte_at xs 0 AND 0x0F) OR push_bit 12 (byte_at xs 1 AND 0x3F)
      OR push_bit 6 (byte_at xs 2 AND 0x3F) OR (byte_at xs 3 AND 0x3F)"
  assumes pt: "\<not> pt < 0x10000" "pt < 0x110000"
  shows "take 4 xs = utf8_encode pt"
proof -
  have lead: "xs ! 0 = ucast ((byte_at xs 0 AND 0x0F) OR 0xF0)" "\<And>n. bit (byte_at xs 0 AND 0x0F) n \<Longrightarrow> n < 3"
    using lead_at [of "0xF0" xs 3 4] b marker_bits(3) by (simp_all add: mask_literals word_less_nat_alt)
  have parts: "drop_bit 18 pt = byte_at xs 0 AND 0x0F" "drop_bit 12 pt AND 0x3F = byte_at xs 1 AND 0x3F"
    "drop_bit 6 pt AND 0x3F = byte_at xs 2 AND 0x3F" "pt AND 0x3F = byte_at xs 3 AND 0x3F"
    unfolding pt_def by (rule parts4; use and_3F_bits lead(2) in blast)+
  have "\<not> pt < 0x80" "\<not> pt < 0x800" using pt(1) by (simp_all add: word_less_nat_alt)
  then have "utf8_encode pt = [ucast (drop_bit 18 pt OR 0xF0), ucast ((drop_bit 12 pt AND 0x3F) OR 0x80),
      ucast ((drop_bit 6 pt AND 0x3F) OR 0x80), ucast ((pt AND 0x3F) OR 0x80)]"
    using pt by (simp add: utf8_encode_def)
  moreover have "take 4 xs = [xs ! 0, xs ! 1, xs ! 2, xs ! 3]"
    using continuation_at(1) [OF c(3)] by (intro take_2_3_4) simp
  ultimately show "take 4 xs = utf8_encode pt"
    using lead(1) continuation_at(3) [OF c(1)] continuation_at(3) [OF c(2)] continuation_at(3) [OF c(3)]
    by (simp only: parts)
qed

text \<open>The decoder accepts shortest encodings only, of code points below \<open>0x110000\<close>.\<close>

lemma utf8_decode_sound:
  assumes "utf8_decode_check xs 0 = Some (n, pt)" and "xs \<noteq> []"
  shows "take n xs = utf8_encode pt \<and> pt < 0x110000"
proof -
  have small: "pt < 0x110000" if "pt < 0x80" using that by (rule less_trans) simp
  show ?thesis
    using assms utf8_sound1 [of xs] utf8_sound2 [of xs] utf8_sound3 [of xs] utf8_sound4 [of xs] small
    unfolding utf8_decode_check_def Let_def add_0
    by (auto split: if_splits simp: not_le)
qed

section \<open>UTF-16\<close>

text \<open>The code points that UTF-16 can express: no surrogates.\<close>

definition scalar :: "u32 \<Rightarrow> bool" where
  "scalar pt \<longleftrightarrow> pt < 0x110000 \<and> \<not> (0xD800 \<le> pt \<and> pt < 0xE000)"

lemma unat_ucast_16_32: "unat (ucast (c :: u16) :: u32) = unat c"
  using unsigned_less [of c, where 'a = nat] by (simp add: unsigned_ucast_eq take_bit_nat_eq_self)

lemma unat_ucast_32_16: "unat x < 2 ^ 16 \<Longrightarrow> unat (ucast (x :: u32) :: u16) = unat x"
  by (simp add: unsigned_ucast_eq take_bit_nat_eq_self)

lemma unat_push_bit_10: "unat (a :: u32) < 2 ^ 22 \<Longrightarrow> unat (push_bit 10 a) = unat a * 1024"
  by (simp add: push_bit_eq_mult unat_word_ariths)

lemma surrogate_pair_value:
  fixes hi lo :: u16
  assumes "is_high_surrogate hi" "is_low_surrogate lo"
  defines "pt \<equiv> (push_bit 10 (ucast hi - 0xD800) OR (ucast lo - 0xDC00)) + 0x10000 :: u32"
  shows "\<exists>a b. a < 1024 \<and> b < 1024 \<and> unat hi = 0xD800 + a \<and> unat lo = 0xDC00 + b \<and> unat pt = a * 1024 + b + 0x10000"
proof -
  define x :: u32 where "x = ucast hi - 0xD800"
  define y :: u32 where "y = ucast lo - 0xDC00"
  have h: "0xD800 \<le> unat hi" "unat hi < 0xDC00" and l: "0xDC00 \<le> unat lo" "unat lo < 0xE000"
    using assms by (simp_all add: is_high_surrogate_def is_low_surrogate_def word_less_nat_alt word_le_nat_alt)
  have x: "unat hi = 0xD800 + unat x" "unat x < 1024" and y: "unat lo = 0xDC00 + unat y" "unat y < 1024"
    using h l unfolding x_def y_def by (subst unat_sub; simp add: word_le_nat_alt unat_ucast_16_32)+
  have "y < 2 ^ 10" using y by (simp add: word_less_nat_alt)
  then have "push_bit 10 x OR y = push_bit 10 x + y"
    using small_bits [of y 10]
    by (intro disjunctive_add_eq_or [symmetric] bit_word_eqI) (simp only: utf_bits, fastforce)
  then have "unat pt = unat x * 1024 + unat y + 0x10000"
    using unat_push_bit_10 [of x] x(2) y(2) by (simp add: pt_def unat_word_ariths flip: x_def y_def)
  then show ?thesis using x y by blast
qed

lemma surrogate_pair_encode:
  fixes hi lo :: u16
  assumes "unat hi = 0xD800 + a" "unat lo = 0xDC00 + b" "a < 1024" "b < 1024" "unat pt = a * 1024 + b + 0x10000"
  shows "utf16_encode pt = [hi, lo]" "scalar pt"
proof -
  have r: "0x10000 \<le> unat pt" "unat pt < 0x110000" using assms by auto
  then show "scalar pt" by (simp add: scalar_def word_less_nat_alt word_le_nat_alt)
  have "unat (pt - 0x10000) = a * 1024 + b" using r assms(5) by (subst unat_sub) (simp_all add: word_le_nat_alt)
  then have "unat (drop_bit 10 (pt - 0x10000)) = a" using assms(4) by (subst unat_drop_bit) simp
  then have "unat (drop_bit 10 (pt - 0x10000) + 0xD800) = unat hi" using assms by (simp add: unat_word_ariths)
  then have hi: "ucast (drop_bit 10 (pt - 0x10000) + 0xD800) = hi"
    by (intro unat_eqI) (subst unat_ucast_32_16, use assms in simp_all)
  have "unat pt = b + (a + 64) * 1024" using assms(5) by simp
  then have "unat pt mod 1024 = b" using assms(4) by (simp only: mod_mult_self1 mod_less)
  then have "unat (pt AND 0x3FF) = b" by (simp add: mask_literals and_mask_unat)
  then have "unat ((pt AND 0x3FF) + 0xDC00) = unat lo" using assms by (simp add: unat_word_ariths)
  then have "ucast ((pt AND 0x3FF) + 0xDC00) = lo"
    by (intro unat_eqI) (subst unat_ucast_32_16, use assms in simp_all)
  with hi r show "utf16_encode pt = [hi, lo]" by (simp add: utf16_encode_def word_less_nat_alt)
qed

text \<open>The decoder accepts exactly the encodings of scalar values.\<close>

lemma utf16_decode_sound:
  assumes "utf16_decode_check str i = Some (n, pt)" and "i < length str"
  shows "take n (drop i str) = utf16_encode pt \<and> scalar pt \<and> i + n \<le> length str"
proof (cases "is_high_surrogate (str ! i) \<and> i + 1 < length str \<and> is_low_surrogate (str ! (i + 1))")
  case True
  then have n: "n = 2"
    and pt: "pt = (push_bit 10 (ucast (str ! i) - 0xD800) OR (ucast (str ! (i + 1)) - 0xDC00)) + 0x10000"
    using assms(1) by (auto simp: utf16_decode_check_def Let_def)
  obtain a b where "a < 1024" "b < 1024" "unat (str ! i) = 0xD800 + a" "unat (str ! (i + 1)) = 0xDC00 + b"
    "unat pt = a * 1024 + b + 0x10000"
    using surrogate_pair_value [of "str ! i" "str ! (i + 1)"] True pt by blast
  then have "utf16_encode pt = [str ! i, str ! (i + 1)]" "scalar pt" by (intro surrogate_pair_encode; simp)+
  moreover have "take n (drop i str) = [str ! i, str ! (i + 1)]"
    unfolding n using True by (subst take_2_3_4) auto
  ultimately show ?thesis using True n by simp
next
  case False
  then have n: "n = 1" "pt = ucast (str ! i)" "\<not> is_high_surrogate (str ! i)" "\<not> is_low_surrogate (str ! i)"
    using assms(1) by (auto simp: utf16_decode_check_def Let_def split: if_splits)
  have u: "unat pt = unat (str ! i)" by (simp add: n(2) unat_ucast_16_32)
  moreover have lt: "unat (str ! i) < 2 ^ 16" by (rule order_less_le_trans [OF unsigned_less]) simp
  ultimately have "scalar pt" "pt < 0x10000"
    using n(3,4) by (auto simp: scalar_def is_high_surrogate_def is_low_surrogate_def word_less_nat_alt word_le_nat_alt)
  moreover have "ucast pt = str ! i" by (intro unat_eqI) (subst unat_ucast_32_16, use u lt in simp_all)
  moreover have "take 1 (drop i str) = [str ! i]" using assms(2) by (simp add: take_Suc_conv_app_nth)
  ultimately show ?thesis using assms(2) n(1) by (simp add: utf16_encode_def)
qed

section \<open>Conversions\<close>

abbreviation valid_pt :: "u32 \<Rightarrow> bool" where
  "valid_pt pt \<equiv> pt < 0x110000"

lemma utf8_encode_nonempty [simp]: "utf8_encode pt \<noteq> []"
  by (simp add: utf8_encode_def)

lemma utf8_decode_check_encoded:
  assumes "valid_pt pt"
  shows "utf8_decode_check (pre @ utf8_encode pt @ rest) (length pre) = Some (length (utf8_encode pt), pt)"
  by (simp add: utf8_decode_check_append utf8_decode_encode assms)

text \<open>One step of the loops over encoded text.\<close>

lemma decode_encoded:
  assumes "valid_pt pt"
  shows "utf8_decode (pre @ utf8_encode pt @ rest) (length pre) = (pt, length (pre @ utf8_encode pt), False)"
  using assms by (simp add: utf8_decode_def decode_wrapper_def utf8_decode_check_encoded)

lemma to_utf32_encoded:
  "list_all valid_pt pts \<Longrightarrow> to_utf32_loop (pre @ to_utf8_32 pts) (length pre) = pts"
proof (induction pts arbitrary: pre)
  case (Cons pt pts)
  then show ?case
    using decode_encoded [of pt pre "to_utf8_32 pts"] Cons.IH [of "pre @ utf8_encode pt"]
    by (subst to_utf32_loop.simps) (simp add: to_utf8_32_def)
qed (simp add: to_utf8_32_def to_utf32_loop.simps)

lemma to_utf16_encoded:
  "list_all valid_pt pts \<Longrightarrow> to_utf16_loop (pre @ to_utf8_32 pts) (length pre) = concat (map utf16_encode pts)"
proof (induction pts arbitrary: pre)
  case (Cons pt pts)
  then show ?case
    using decode_encoded [of pt pre "to_utf8_32 pts"] Cons.IH [of "pre @ utf8_encode pt"]
    by (subst to_utf16_loop.simps) (simp add: to_utf8_32_def)
qed (simp add: to_utf8_32_def to_utf16_loop.simps)

lemma utf8_check_encoded:
  "list_all valid_pt pts \<Longrightarrow> check_helper utf8_decode_check (pre @ to_utf8_32 pts) (length pre)"
proof (induction pts arbitrary: pre)
  case (Cons pt pts)
  have "max 1 (length (utf8_encode pt)) = length (utf8_encode pt)" by (simp add: max_def Suc_le_eq)
  then show ?case
    using utf8_decode_check_encoded [of pt pre "to_utf8_32 pts"] Cons.IH [of "pre @ utf8_encode pt"] Cons.prems
    by (subst check_helper.simps) (simp add: to_utf8_32_def)
qed (simp add: to_utf8_32_def check_helper.simps)

lemma utf8_decode_sound_at:
  assumes "utf8_decode_check str i = Some (n, pt)" and "i < length str"
  shows "take n (drop i str) = utf8_encode pt \<and> valid_pt pt \<and> i + n \<le> length str"
proof -
  have "utf8_decode_check str i = utf8_decode_check (drop i str) 0"
    using utf8_decode_check_append [of "take i str" "drop i str"] assms(2) by simp
  then have s: "take n (drop i str) = utf8_encode pt \<and> valid_pt pt"
    using assms by (intro utf8_decode_sound) auto
  moreover have "length (utf8_encode pt) = n"
    using utf8_decode_encode [of pt "drop (i + n) str"] s \<open>utf8_decode_check str i = utf8_decode_check (drop i str) 0\<close>
      append_take_drop_id [of n "drop i str"] assms(1) by (simp add: add.commute)
  ultimately show ?thesis using assms(2) by (metis length_take length_drop min.cobounded1 le_diff_conv2
      add.commute less_imp_le)
qed

text \<open>The strings that pass the check are the encodings of code point sequences.\<close>

lemma utf8_check_sound:
  "i \<le> length str \<Longrightarrow> check_helper utf8_decode_check str i \<Longrightarrow>
     \<exists>pts. list_all valid_pt pts \<and> drop i str = to_utf8_32 pts"
proof (induction "length str - i" arbitrary: i rule: less_induct)
  case less
  show ?case
  proof (cases "i < length str")
    case True
    then obtain n pt where d: "utf8_decode_check str i = Some (n, pt)" "check_helper utf8_decode_check str (i + max 1 n)"
      using less.prems by (subst (asm) check_helper.simps) (auto split: option.splits)
    have n: "max 1 n = n" using utf8_check_offset [OF d(1)] by simp
    note s = utf8_decode_sound_at [OF d(1) True]
    obtain pts where pts: "list_all valid_pt pts" "drop (i + n) str = to_utf8_32 pts"
      using less.hyps [of "i + n"] diff_less_mono2 [of i "i + n" "length str"] d(2) n s True utf8_check_offset [OF d(1)] by auto
    have "drop i str = utf8_encode pt @ drop (i + n) str"
      using s append_take_drop_id [of n "drop i str"] by (simp add: add.commute)
    then have "drop i str = to_utf8_32 (pt # pts)" using pts by (simp add: to_utf8_32_def)
    then show ?thesis using s pts by (intro exI [of _ "pt # pts"]) simp
  next
    case False
    then show ?thesis by (intro exI [of _ "[]"]) (simp add: to_utf8_32_def)
  qed
qed

lemma scalar_valid: "scalar pt \<Longrightarrow> valid_pt pt"
  by (simp add: scalar_def)

text \<open>The UTF-16 loop: code points of the input, with the replacement character for what is malformed.\<close>

lemma to_utf8_points:
  "i \<le> length str \<Longrightarrow> \<exists>pts. list_all scalar pts \<and> to_utf8_loop str i = to_utf8_32 pts
     \<and> (check_helper utf16_decode_check str i \<longrightarrow> drop i str = concat (map utf16_encode pts))"
proof (induction "length str - i" arbitrary: i rule: less_induct)
  case less
  show ?case
  proof (cases "i < length str")
    case True
    show ?thesis
    proof (cases "utf16_decode_check str i")
      case None
      obtain pts where "list_all scalar pts" "to_utf8_loop str (i + 1) = to_utf8_32 pts"
        using less.hyps [of "i + 1"] diff_less_mono2 [of i "i + 1" "length str"] True by auto
      moreover have "scalar 0xFFFD" by (simp add: scalar_def)
      moreover have "\<not> check_helper utf16_decode_check str i" using None True by (subst check_helper.simps) simp
      moreover have "to_utf8_loop str i = utf8_encode 0xFFFD @ to_utf8_loop str (i + 1)"
        using None True by (subst to_utf8_loop.simps) (simp add: utf16_decode_def decode_wrapper_def)
      ultimately show ?thesis by (intro exI [of _ "0xFFFD # pts"]) (simp add: to_utf8_32_def)
    next
      case (Some r)
      then obtain n pt where d: "utf16_decode_check str i = Some (n, pt)" by (cases r) auto
      have n: "max 1 n = n" "0 < n" using utf16_check_offset [OF d] by simp_all
      note s = utf16_decode_sound [OF d True]
      obtain pts where pts: "list_all scalar pts" "to_utf8_loop str (i + n) = to_utf8_32 pts"
        "check_helper utf16_decode_check str (i + n) \<longrightarrow> drop (i + n) str = concat (map utf16_encode pts)"
        using less.hyps [of "i + n"] diff_less_mono2 [of i "i + n" "length str"] s True n by auto
      have "drop i str = utf16_encode pt @ drop (i + n) str"
        using s append_take_drop_id [of n "drop i str"] by (simp add: add.commute)
      moreover have "check_helper utf16_decode_check str i = check_helper utf16_decode_check str (i + n)"
        using d n(1) True by (subst check_helper.simps) simp
      moreover have "to_utf8_loop str i = utf8_encode pt @ to_utf8_loop str (i + n)"
        using d True by (subst to_utf8_loop.simps) (simp add: utf16_decode_def decode_wrapper_def)
      ultimately show ?thesis using pts s by (intro exI [of _ "pt # pts"]) (simp add: to_utf8_32_def)
    qed
  next
    case False
    then show ?thesis by (intro exI [of _ "[]"]) (simp add: to_utf8_32_def to_utf8_loop.simps)
  qed
qed

section \<open>Decimal text in UTF-16\<close>

lemma digit_16:
  fixes r :: u64
  shows "ucast (r mod 10) + 48 = (ucast (of_nat (48 + unat r mod 10) :: u8) :: u16)"
proof -
  have "unat (r mod 10) = unat r mod 10" by (simp add: unat_mod)
  then have "r mod 10 = of_nat (unat r mod 10)" by (metis of_nat_unat ucast_id)
  moreover have "unat r mod 10 < 10" by simp
  ultimately show ?thesis
    by (intro unat_eqI) (simp add: unsigned_ucast_eq unsigned_of_nat take_bit_nat_eq_self unat_word_ariths del: of_nat_add of_nat_mod)
qed

lemma digits_loop_decimal:
  "unat res < 10 ^ n \<Longrightarrow> 0 < n \<Longrightarrow> digits_loop n res out = map ucast (decimal (unat res)) @ out"
proof (induction n arbitrary: res out)
  case (Suc n)
  have div10: "unat (res div 10) = unat res div 10" by (simp add: unat_div)
  show ?case
  proof (cases "res div 10 = 0")
    case True
    then have "unat res < 10" using div10 by simp
    then show ?thesis using True digit_16 [of res] by (subst decimal.simps) (simp add: Let_def del: of_nat_add)
  next
    case False
    then have "unat res div 10 \<noteq> 0" using div10 by (metis unat_eq_zero)
    moreover have "unat res div 10 < 10 ^ n" using Suc.prems(1) by (simp add: less_mult_imp_div_less mult.commute)
    ultimately have "digits_loop n (res div 10) o' = map ucast (decimal (unat res div 10)) @ o'" for o'
      using Suc.IH [of "res div 10"] div10 by (cases n) auto
    moreover have "\<not> unat res < 10" using \<open>unat res div 10 \<noteq> 0\<close> by auto
    ultimately show ?thesis
      using False digit_16 [of res] by (subst decimal.simps) (simp add: Let_def del: of_nat_add)
  qed
qed simp

section \<open>Properties\<close>



text \<open>
  C34. Exactness of the UTF-8 decoder: a string passes \<open>utf8_check\<close> if and only if it is the shortest
  encoding of some sequence of code points below \<open>0x110000\<close>; overlong forms, stray continuation bytes
  and truncated sequences are rejected. Re-encoding what was decoded gives the string back.
\<close>

theorem utf8_check_exact:
  "utf8_check str \<longleftrightarrow> (\<exists>pts. list_all valid_pt pts \<and> str = to_utf8_32 pts)"
  using utf8_check_sound [of 0 str] utf8_check_encoded [of _ "[]"] by (auto simp: utf8_check_def)

text \<open>
  UTF-16 to UTF-8: whatever the 16-bit input, \<open>to_utf8\<close> gives well-formed UTF-8; and on
  well-formed UTF-16 (\<open>utf16_check\<close>) nothing is lost, converting back with \<open>to_utf16\<close> gives the input.
\<close>

lemma utf16_utf8_roundtrip:
  "utf8_check (to_utf8 str) \<and> (utf16_check str \<longrightarrow> to_utf16 (to_utf8 str) = str)"
proof -
  obtain pts where pts: "list_all scalar pts" "to_utf8_loop str 0 = to_utf8_32 pts"
    "check_helper utf16_decode_check str 0 \<longrightarrow> drop 0 str = concat (map utf16_encode pts)"
    using to_utf8_points [of 0 str] by auto
  have "list_all valid_pt pts" using pts(1) by (auto simp: list_all_iff scalar_valid)
  then have "utf8_check (to_utf8_32 pts)" "to_utf16 (to_utf8_32 pts) = concat (map utf16_encode pts)"
    using utf8_check_encoded [of pts "[]"] to_utf16_encoded [of pts "[]"] by (simp_all add: utf8_check_def to_utf16_def)
  then show ?thesis using pts by (simp add: to_utf8_def utf16_check_def)
qed

text \<open>
  \<open>ToWSTRING(uint64_t)\<close> gives the decimal text of its argument: the loop over the 24 characters of
  the buffer ends before the buffer is full for every 64-bit value.
\<close>

lemma ToWSTRING_u64_decimal:
  "ToWSTRING_u64 v = map ucast (decimal (unat v))"
proof -
  have "unat v < 10 ^ 24" by (rule less_trans [OF unat_u64_less]) simp
  then show ?thesis using digits_loop_decimal [of v 24 "[]"] by (simp add: ToWSTRING_u64_def)
qed

end
