(* ===== verification/RefTree.thy ===== *)
theory RefTree
  imports Utf
begin

text \<open>
  The type reference tree of the heap snapshot (\<open>TypeReferenceTree.h\<close>, \<open>ReferenceChainTypes.h\<close>): roots
  keyed by type and category, and below each root a tree in which the instances that are reached
  through the same path of types are merged. A map of the C++ code is an association list here: its
  order stands for the unspecified iteration order of \<open>std::unordered_map\<close>, and the theorems hold for
  every order. A \<open>TypeTreeNode*\<close> is the path of types that leads to the node.
\<close>

section \<open>Model\<close>

datatype RootCategory = Stack | StaticVariable | Finalizer | Handle | Pinning | ConditionalWeakTable
  | COM | Other | Unknown

fun category_byte :: "RootCategory \<Rightarrow> u8" where
  "category_byte Stack = 0"
| "category_byte StaticVariable = 1"
| "category_byte Finalizer = 2"
| "category_byte Handle = 3"
| "category_byte Pinning = 4"
| "category_byte ConditionalWeakTable = 5"
| "category_byte COM = 6"
| "category_byte Other = 7"
| "category_byte Unknown = 8"

definition MaxTreeDepth :: u32 where
  "MaxTreeDepth = 128"

datatype TypeTreeNode = TypeTreeNode (typeID: ClassID) (instanceCount: u64) (totalSize: u64)
  (children: "(ClassID \<times> TypeTreeNode) list")

definition newTypeTreeNode :: "ClassID \<Rightarrow> TypeTreeNode" where
  "newTypeTreeNode tid = TypeTreeNode tid 0 0 []"

fun AddInstance :: "u64 \<Rightarrow> TypeTreeNode \<Rightarrow> TypeTreeNode" where
  "AddInstance sz (TypeTreeNode tid ic ts ch) = TypeTreeNode tid (ic + 1) (ts + sz) ch"

fun GetOrCreateChild :: "ClassID \<Rightarrow> TypeTreeNode \<Rightarrow> TypeTreeNode" where
  "GetOrCreateChild childTypeID (TypeTreeNode tid ic ts ch) =
     (if childTypeID \<in> fst ` set ch then TypeTreeNode tid ic ts ch
      else TypeTreeNode tid ic ts (ch @ [(childTypeID, newTypeTreeNode childTypeID)]))"

definition GetChild :: "ClassID \<Rightarrow> TypeTreeNode \<Rightarrow> TypeTreeNode option" where
  "GetChild childTypeID node = map_of (children node) childTypeID"

record RootKey =
  rk_typeID :: ClassID
  rk_category :: RootCategory

record TypeRootNode =
  rn_node :: TypeTreeNode
  rn_category :: RootCategory
  rn_fieldName :: "u8 list"

definition newTypeRootNode :: "ClassID \<Rightarrow> RootCategory \<Rightarrow> TypeRootNode" where
  "newTypeRootNode tid cat = \<lparr>rn_node = newTypeTreeNode tid, rn_category = cat, rn_fieldName = []\<rparr>"

text \<open>The field name is a null-terminated UTF-16 string or the null pointer (\<open>None\<close>).\<close>

definition RootAddInstance :: "u64 \<Rightarrow> u16 list option \<Rightarrow> TypeRootNode \<Rightarrow> TypeRootNode" where
  "RootAddInstance sz field root =
     (let r = root\<lparr>rn_node := AddInstance sz (rn_node root)\<rparr>
      in if field \<noteq> None \<and> field \<noteq> Some [] \<and> rn_fieldName root = []
         then r\<lparr>rn_fieldName := ToString field\<rparr> else r)"

type_synonym TypeReferenceTree = "(RootKey \<times> TypeRootNode) list"

fun update_root :: "RootKey \<Rightarrow> (TypeRootNode \<Rightarrow> TypeRootNode) \<Rightarrow> TypeReferenceTree \<Rightarrow> TypeReferenceTree" where
  "update_root key f [] = []"
| "update_root key f ((k, r) # roots) = (if k = key then (k, f r) # roots else (k, r) # update_root key f roots)"

definition AddRoot :: "ClassID \<Rightarrow> RootCategory \<Rightarrow> u64 \<Rightarrow> u16 list option \<Rightarrow> TypeReferenceTree \<Rightarrow> TypeReferenceTree" where
  "AddRoot tid category sz fieldName roots =
     (let key = \<lparr>rk_typeID = tid, rk_category = category\<rparr>;
          roots1 = (if key \<in> fst ` set roots then roots else roots @ [(key, newTypeRootNode tid category)])
      in update_root key (RootAddInstance sz fieldName) roots1)"

definition IsEmpty :: "TypeReferenceTree \<Rightarrow> bool" where
  "IsEmpty roots \<longleftrightarrow> roots = []"

definition ClearTree :: "TypeReferenceTree \<Rightarrow> TypeReferenceTree" where
  "ClearTree roots = []"

text \<open>The node below \<open>node\<close> on a path of types, and the change of that node in place.\<close>

fun node_at :: "ClassID list \<Rightarrow> TypeTreeNode \<Rightarrow> TypeTreeNode option" where
  "node_at [] node = Some node"
| "node_at (t # path) node = (case GetChild t node of None \<Rightarrow> None | Some c \<Rightarrow> node_at path c)"

fun update_child :: "ClassID \<Rightarrow> (TypeTreeNode \<Rightarrow> TypeTreeNode) \<Rightarrow> (ClassID \<times> TypeTreeNode) list \<Rightarrow>
    (ClassID \<times> TypeTreeNode) list" where
  "update_child t f [] = []"
| "update_child t f ((k, c) # ch) = (if k = t then (k, f c) # ch else (k, c) # update_child t f ch)"

fun update_at :: "ClassID list \<Rightarrow> (TypeTreeNode \<Rightarrow> TypeTreeNode) \<Rightarrow> TypeTreeNode \<Rightarrow> TypeTreeNode" where
  "update_at [] f node = f node"
| "update_at (t # path) f (TypeTreeNode tid ic ts ch) = TypeTreeNode tid ic ts (update_child t (update_at path f) ch)"

section \<open>Well-formed trees\<close>

text \<open>A map has one entry per key, and an entry is a node of the type of its key.\<close>

fun wf_node :: "TypeTreeNode \<Rightarrow> bool" where
  "wf_node (TypeTreeNode tid ic ts ch) \<longleftrightarrow>
     distinct (map fst ch) \<and> (\<forall>(k, c) \<in> set ch. typeID c = k \<and> wf_node c)"

definition wf_root :: "RootKey \<times> TypeRootNode \<Rightarrow> bool" where
  "wf_root kr \<longleftrightarrow> typeID (rn_node (snd kr)) = rk_typeID (fst kr) \<and> rn_category (snd kr) = rk_category (fst kr)
     \<and> wf_node (rn_node (snd kr))"

definition wf_tree :: "TypeReferenceTree \<Rightarrow> bool" where
  "wf_tree roots \<longleftrightarrow> distinct (map fst roots) \<and> (\<forall>kr \<in> set roots. wf_root kr)"

lemma wf_new [simp]: "wf_node (newTypeTreeNode t)" "typeID (newTypeTreeNode t) = t"
  by (simp_all add: newTypeTreeNode_def)

lemma wf_AddInstance [simp]: "wf_node (AddInstance sz n) = wf_node n" "typeID (AddInstance sz n) = typeID n"
  "children (AddInstance sz n) = children n"
  by (cases n; simp)+

lemma wf_GetOrCreateChild: "wf_node n \<Longrightarrow> wf_node (GetOrCreateChild t n)"
  by (cases n) (auto simp: image_iff)

lemma typeID_GetOrCreateChild [simp]: "typeID (GetOrCreateChild t n) = typeID n"
  by (cases n) simp

lemma GetChild_GetOrCreateChild:
  "GetChild s (GetOrCreateChild t n) =
     (if s = t then Some (case GetChild t n of None \<Rightarrow> newTypeTreeNode t | Some c \<Rightarrow> c) else GetChild s n)"
proof (cases n)
  case (TypeTreeNode tid ic ts ch)
  show ?thesis
  proof (cases "t \<in> fst ` set ch")
    case True
    then obtain c where "map_of ch t = Some c" by (metis map_of_eq_None_iff not_None_eq)
    then show ?thesis using True TypeTreeNode by (simp add: GetChild_def)
  next
    case False
    then have "map_of ch t = None" by (simp add: map_of_eq_None_iff)
    then show ?thesis using False TypeTreeNode by (auto simp: GetChild_def map_add_def split: option.splits)
  qed
qed

lemma map_fst_update_child [simp]: "map fst (update_child t f ch) = map fst ch"
  by (induction t f ch rule: update_child.induct) auto

lemma set_update_child: "kc \<in> set (update_child t f ch) \<Longrightarrow> kc \<in> set ch \<or> (\<exists>c. (t, c) \<in> set ch \<and> kc = (t, f c))"
  by (induction t f ch rule: update_child.induct) (auto split: if_splits)

lemma map_of_update_child: "map_of (update_child t f ch) s = (if s = t then map_option f (map_of ch t) else map_of ch s)"
  by (induction t f ch rule: update_child.induct) auto

lemma typeID_update_at: "(\<And>n. typeID (f n) = typeID n) \<Longrightarrow> typeID (update_at p f n) = typeID n"
  by (induction p f n rule: update_at.induct) simp_all

lemma wf_update_at:
  assumes "\<And>n. wf_node n \<Longrightarrow> wf_node (f n)" and "\<And>n. typeID (f n) = typeID n"
  shows "wf_node n \<Longrightarrow> wf_node (update_at p f n)"
proof (induction p arbitrary: n)
  case (Cons t p)
  obtain tid ic ts ch where n: "n = TypeTreeNode tid ic ts ch" by (cases n)
  have "typeID c = k \<and> wf_node c" if "(k, c) \<in> set (update_child t (update_at p f) ch)" for k c
    using set_update_child [OF that] Cons typeID_update_at [of f p, OF assms(2)] by (auto simp: n)
  then show ?case using Cons by (auto simp: n)
qed (simp add: assms)

lemma node_at_update_at_same: "node_at p n = Some m \<Longrightarrow> node_at p (update_at p f n) = Some (f m)"
proof (induction p f n arbitrary: m rule: update_at.induct)
  case (2 t path f tid ic ts ch)
  then show ?case by (auto simp: GetChild_def map_of_update_child split: option.splits)
qed simp

text \<open>A change at one path is not seen at a path that is not above it.\<close>

lemma GetChild_update_at:
  "GetChild s (update_at (t # p) f n) = (if s = t then map_option (update_at p f) (GetChild t n) else GetChild s n)"
  by (cases n) (simp add: GetChild_def map_of_update_child)

section \<open>Counting instances\<close>

fun tree_instances :: "TypeTreeNode \<Rightarrow> u64" where
  "tree_instances (TypeTreeNode tid ic ts ch) = ic + sum_list (map (\<lambda>kc. tree_instances (snd kc)) ch)"

fun tree_bytes :: "TypeTreeNode \<Rightarrow> u64" where
  "tree_bytes (TypeTreeNode tid ic ts ch) = ts + sum_list (map (\<lambda>kc. tree_bytes (snd kc)) ch)"

lemma sums_update_child:
  fixes g :: "TypeTreeNode \<Rightarrow> u64"
  assumes "map_of ch t = Some c"
  shows "sum_list (map (\<lambda>kc. g (snd kc)) (update_child t f ch)) = sum_list (map (\<lambda>kc. g (snd kc)) ch) + (g (f c) - g c)"
  using assms by (induction t f ch rule: update_child.induct) auto

lemma tree_instances_update_at:
  assumes "node_at p n = Some m"
  shows "tree_instances (update_at p f n) = tree_instances n + (tree_instances (f m) - tree_instances m)"
  using assms
proof (induction p f n arbitrary: m rule: update_at.induct)
  case (2 t path f tid ic ts ch)
  then show ?case by (auto simp: GetChild_def sums_update_child split: option.splits)
qed simp

lemma tree_bytes_update_at:
  assumes "node_at p n = Some m"
  shows "tree_bytes (update_at p f n) = tree_bytes n + (tree_bytes (f m) - tree_bytes m)"
  using assms
proof (induction p f n arbitrary: m rule: update_at.induct)
  case (2 t path f tid ic ts ch)
  then show ?case by (auto simp: GetChild_def sums_update_child split: option.splits)
qed simp

lemma tree_sums_GetOrCreateChild [simp]:
  "tree_instances (GetOrCreateChild t n) = tree_instances n" "tree_bytes (GetOrCreateChild t n) = tree_bytes n"
  by (cases n; simp add: newTypeTreeNode_def)+

lemma tree_sums_AddInstance [simp]:
  "tree_instances (AddInstance sz n) = tree_instances n + 1" "tree_bytes (AddInstance sz n) = tree_bytes n + sz"
  by (cases n; simp add: algebra_simps)+

text \<open>What the traversal does with an object of type \<open>t\<close> that it reaches from the node at path \<open>p\<close>.\<close>

definition add_child_instance :: "ClassID list \<Rightarrow> ClassID \<Rightarrow> u64 \<Rightarrow> TypeTreeNode \<Rightarrow> TypeTreeNode" where
  "add_child_instance p t sz n =
     update_at (p @ [t]) (AddInstance sz) (update_at p (GetOrCreateChild t) n)"

lemma node_at_snoc: "node_at (p @ [t]) n = (case node_at p n of None \<Rightarrow> None | Some m \<Rightarrow> GetChild t m)"
  by (induction p arbitrary: n) (auto split: option.splits)

lemma map_of_update_root:
  "map_of (update_root key f roots) k = (if k = key then map_option f (map_of roots key) else map_of roots k)"
  by (induction key f roots rule: update_root.induct) auto

lemma map_fst_update_root [simp]: "map fst (update_root key f roots) = map fst roots"
  by (induction key f roots rule: update_root.induct) auto

lemma set_update_root:
  "kr \<in> set (update_root key f roots) \<Longrightarrow> kr \<in> set roots \<or> (\<exists>r. (key, r) \<in> set roots \<and> kr = (key, f r))"
  by (induction key f roots rule: update_root.induct) (auto split: if_splits)

lemma wf_root_RootAddInstance: "wf_root (k, r) \<Longrightarrow> wf_root (k, RootAddInstance sz fn r)"
  by (simp add: wf_root_def RootAddInstance_def Let_def)

lemma AddRoot_spec:
  fixes t :: ClassID and category :: RootCategory
  assumes "wf_tree roots"
  defines "key \<equiv> \<lparr>rk_typeID = t, rk_category = category\<rparr>"
  shows "wf_tree (AddRoot t category sz fieldName roots)
     \<and> map_of (AddRoot t category sz fieldName roots) =
         (map_of roots)(key \<mapsto> RootAddInstance sz fieldName
            (case map_of roots key of None \<Rightarrow> newTypeRootNode t category | Some r \<Rightarrow> r))"
proof -
  define roots1 where "roots1 = (if key \<in> fst ` set roots then roots else roots @ [(key, newTypeRootNode t category)])"
  have add: "AddRoot t category sz fieldName roots = update_root key (RootAddInstance sz fieldName) roots1"
    by (simp add: AddRoot_def key_def roots1_def Let_def)
  have "wf_root (key, newTypeRootNode t category)" by (simp add: wf_root_def newTypeRootNode_def key_def)
  then have wf1: "wf_tree roots1" using assms(1) by (auto simp: roots1_def wf_tree_def)
  have "wf_root kr" if "kr \<in> set (update_root key (RootAddInstance sz fieldName) roots1)" for kr
    using set_update_root [OF that] wf1 wf_root_RootAddInstance by (auto simp: wf_tree_def)
  then have "wf_tree (AddRoot t category sz fieldName roots)" using wf1 by (simp add: add wf_tree_def)
  moreover have "map_of roots1 = (map_of roots)(key \<mapsto> (case map_of roots key of None \<Rightarrow> newTypeRootNode t category | Some r \<Rightarrow> r))"
  proof (cases "map_of roots key")
    case None
    then have "key \<notin> fst ` set roots" by (simp add: map_of_eq_None_iff)
    then show ?thesis using None by (auto simp: roots1_def fun_eq_iff map_add_def split: option.splits)
  next
    case (Some r)
    then have "key \<in> fst ` set roots" by (metis map_of_eq_None_iff option.distinct(1))
    then show ?thesis using Some by (auto simp: roots1_def fun_eq_iff)
  qed
  ultimately show ?thesis by (auto simp: add map_of_update_root fun_eq_iff)
qed

section \<open>Properties\<close>

text \<open>
  \<open>AddRoot\<close> keeps one root per type and category: it adds the instance to the root of its key,
  which it creates when it is missing, keeps its children, takes the first non-empty field name, and
  changes no other root.
\<close>

lemma AddRoot_correct:
  fixes t :: ClassID and category :: RootCategory
  assumes "wf_tree roots"
  defines "key \<equiv> \<lparr>rk_typeID = t, rk_category = category\<rparr>"
  shows "wf_tree (AddRoot t category sz fieldName roots)
     \<and> map_of (AddRoot t category sz fieldName roots) =
         (map_of roots)(key \<mapsto> RootAddInstance sz fieldName
            (case map_of roots key of None \<Rightarrow> newTypeRootNode t category | Some r \<Rightarrow> r))"
  unfolding key_def by (rule AddRoot_spec [OF assms(1)])

text \<open>
  Merging by type path: recording an object of type \<open>t\<close> under the node at a path creates or reuses
  exactly the child of that type, adds one instance and its size there, keeps the tree well formed,
  and the totals over the whole tree grow by one instance and by the size of the object.
\<close>

lemma add_child_instance_correct:
  assumes "wf_node n" and "node_at p n = Some m"
  shows "wf_node (add_child_instance p t sz n)
     \<and> node_at (p @ [t]) (add_child_instance p t sz n) =
         Some (AddInstance sz (case GetChild t m of None \<Rightarrow> newTypeTreeNode t | Some c \<Rightarrow> c))
     \<and> tree_instances (add_child_instance p t sz n) = tree_instances n + 1
     \<and> tree_bytes (add_child_instance p t sz n) = tree_bytes n + sz"
proof -
  let ?n1 = "update_at p (GetOrCreateChild t) n"
  have wf1: "wf_node ?n1" using assms(1) by (intro wf_update_at) (auto intro: wf_GetOrCreateChild)
  have at1: "node_at (p @ [t]) ?n1 = Some (case GetChild t m of None \<Rightarrow> newTypeTreeNode t | Some c \<Rightarrow> c)"
    using node_at_update_at_same [OF assms(2), of "GetOrCreateChild t"]
    by (simp add: node_at_snoc GetChild_GetOrCreateChild)
  have "wf_node (add_child_instance p t sz n)"
    unfolding add_child_instance_def by (rule wf_update_at) (simp_all add: wf1)
  then show ?thesis
    using node_at_update_at_same [OF at1] tree_instances_update_at [OF at1] tree_bytes_update_at [OF at1]
      tree_instances_update_at [OF assms(2)] tree_bytes_update_at [OF assms(2)]
    by (simp add: add_child_instance_def)
qed

end
