(* ===== verification/Codec.thy ===== *)
theory Codec
  imports Bytes "HOL-Library.Monad_Syntax"
begin

text \<open>
  Encoders and decoders of byte formats. The locale states the law of one codec, that decoding takes
  exactly what was encoded and leaves the rest, and derives it for counted sequences.
\<close>

fun decode_many :: "(u8 list \<Rightarrow> ('b \<times> u8 list) option) \<Rightarrow> nat \<Rightarrow> u8 list \<Rightarrow> ('b list \<times> u8 list) option" where
  "decode_many dec 0 bs = Some ([], bs)"
| "decode_many dec (Suc n) bs =
     do { (x, bs1) \<leftarrow> dec bs; (xs, bs2) \<leftarrow> decode_many dec n bs1; Some (x # xs, bs2) }"

locale codec =
  fixes enc :: "'a \<Rightarrow> u8 list" and dec :: "u8 list \<Rightarrow> ('b \<times> u8 list) option"
    and img :: "'a \<Rightarrow> 'b" and ok :: "'a \<Rightarrow> bool"
  assumes dec_enc: "ok a \<Longrightarrow> dec (enc a @ rest) = Some (img a, rest)"
begin

lemma dec_many:
  "list_all ok xs \<Longrightarrow> decode_many dec (length xs) (concat (map enc xs) @ rest) = Some (map img xs, rest)"
  by (induction xs) (simp_all add: dec_enc)

lemma enc_inj: "ok a \<Longrightarrow> ok b \<Longrightarrow> enc a = enc b \<Longrightarrow> img a = img b"
  using dec_enc [of a "[]"] dec_enc [of b "[]"] by simp

end

end
