(* ===== verification/TreeSerial.thy ===== *)
theory TreeSerial
  imports RefTree Codec
begin

unbundle bit_operations_syntax

text \<open>
  The serializers of the reference tree. The binary one (\<open>TypeReferenceTreeBinarySerializer.cpp\<close>) walks
  the tree in depth-first order, numbers the types as it meets them and writes unsigned LEB128
  integers; the reader of this theory follows the wire layout of
  \<open>docs/reference-tree-serialization-formats.md\<close>. The JSON one (\<open>TypeReferenceTreeJsonSerializer.cpp\<close>) does
  the same walk into text. The frame store, which resolves type names, is the parameter \<open>GetTypeName\<close>;
  a null pointer is \<open>None\<close>.
\<close>

section \<open>Binary serializer\<close>

function WriteVarint :: "u64 \<Rightarrow> u8 list" where
  "WriteVarint v =
     (let byte = ucast (v AND 0x7F) :: u8; v' = drop_bit 7 v
      in if v' \<noteq> 0 then (byte OR 0x80) # WriteVarint v' else [byte])"
  by pat_completeness auto
termination
proof (relation "measure unat")
  fix v byte v' :: u64 and b :: u8
  assume "v' = drop_bit 7 v" "v' \<noteq> 0"
  moreover have "unat (drop_bit 7 v) = unat v div 128" by (simp add: unat_drop_bit)
  moreover have "unat v div 128 < unat v" if "unat v \<noteq> 0" using that by simp
  ultimately show "(v', v) \<in> measure unat" by (metis div_0 in_measure unat_0 unat_eq_zero)
qed simp

declare WriteVarint.simps [simp del]

definition WriteBytes :: "u8 list \<Rightarrow> u8 list" where
  "WriteBytes data = data"

definition WriteString :: "u8 list \<Rightarrow> u8 list" where
  "WriteString str = WriteVarint (of_nat (length str)) @ str"

record StringTable =
  st_bytes :: "u8 list"
  st_count :: u32
  st_typeToIndex :: "ClassID \<rightharpoonup> u32"

definition newStringTable :: StringTable where
  "newStringTable = \<lparr>st_bytes = [], st_count = 0, st_typeToIndex = Map.empty\<rparr>"

definition RegisterType :: "(ClassID \<Rightarrow> u8 list option) \<Rightarrow> StringTable \<Rightarrow> ClassID \<Rightarrow> u32 \<times> StringTable" where
  "RegisterType GetTypeName types tid =
     (case st_typeToIndex types tid of
        Some i \<Rightarrow> (i, types)
      | None \<Rightarrow>
          (st_count types,
           types\<lparr>st_typeToIndex := (st_typeToIndex types)(tid \<mapsto> st_count types),
                 st_bytes := st_bytes types @ (case GetTypeName tid of
                    Some name \<Rightarrow> WriteString name | None \<Rightarrow> WriteString [0x3F]),
                 st_count := st_count types + 1\<rparr>))"

fun WriteNode :: "(ClassID \<Rightarrow> u8 list option) \<Rightarrow> TypeTreeNode \<Rightarrow> StringTable \<Rightarrow> StringTable \<times> u8 list"
  and WriteNodes :: "(ClassID \<Rightarrow> u8 list option) \<Rightarrow> (ClassID \<times> TypeTreeNode) list \<Rightarrow> StringTable \<Rightarrow> StringTable \<times> u8 list"
where
  "WriteNode GetTypeName (TypeTreeNode tid ic ts ch) types =
     (let (typeIndex, types1) = RegisterType GetTypeName types tid;
          (types2, out) = WriteNodes GetTypeName ch types1
      in (types2, WriteVarint (ucast typeIndex) @ WriteVarint ic @ WriteVarint ts @
                  WriteVarint (of_nat (length ch)) @ out))"
| "WriteNodes GetTypeName [] types = (types, [])"
| "WriteNodes GetTypeName ((childTypeID, childNode) # ch) types =
     (let (types1, out1) = WriteNode GetTypeName childNode types;
          (types2, out2) = WriteNodes GetTypeName ch types1
      in (types2, out1 @ out2))"

fun WriteRoots :: "(ClassID \<Rightarrow> u8 list option) \<Rightarrow> TypeReferenceTree \<Rightarrow> StringTable \<Rightarrow> StringTable \<times> u8 list" where
  "WriteRoots GetTypeName [] types = (types, [])"
| "WriteRoots GetTypeName ((key, rootNode) # roots) types =
     (let (typeIndex, types1) = RegisterType GetTypeName types (rk_typeID key);
          node = rn_node rootNode;
          (types2, out2) = WriteNodes GetTypeName (children node) types1;
          (types3, out3) = WriteRoots GetTypeName roots types2
      in (types3, WriteVarint (ucast typeIndex) @ [category_byte (rn_category rootNode)] @
                  WriteVarint (instanceCount node) @ WriteVarint (totalSize node) @
                  WriteString (rn_fieldName rootNode) @ WriteVarint (of_nat (length (children node))) @
                  out2 @ out3))"

definition Magic :: "u8 list" where
  "Magic = [0x44, 0x44, 0x52, 0x54]"

definition FormatVersion :: u64 where
  "FormatVersion = 1"

definition Serialize :: "TypeReferenceTree \<Rightarrow> (ClassID \<Rightarrow> u8 list option) option \<Rightarrow> u8 list" where
  "Serialize tree pFrameStore =
     (case pFrameStore of
        None \<Rightarrow> []
      | Some GetTypeName \<Rightarrow>
          let (types, body) = WriteRoots GetTypeName tree newStringTable
          in WriteBytes Magic @ WriteVarint FormatVersion @ WriteVarint (ucast (st_count types)) @
             WriteVarint (of_nat (length tree)) @ st_bytes types @ body)"

section \<open>Reader of the wire format\<close>

text \<open>The integers of the format are read as natural numbers; a node is given by its type index.\<close>

datatype dnode = DNode nat nat nat "dnode list"

record droot =
  dr_type :: nat
  dr_category :: u8
  dr_instances :: nat
  dr_size :: nat
  dr_field :: "u8 list"
  dr_children :: "dnode list"

fun readVarint :: "u8 list \<Rightarrow> (nat \<times> u8 list) option" where
  "readVarint [] = None"
| "readVarint (b # bs) =
     (if b < 0x80 then Some (unat b, bs)
      else do { (v, rest) \<leftarrow> readVarint bs; Some (unat b - 128 + 128 * v, rest) })"

definition readBytes :: "nat \<Rightarrow> u8 list \<Rightarrow> (u8 list \<times> u8 list) option" where
  "readBytes n bs = (if n \<le> length bs then Some (take n bs, drop n bs) else None)"

definition readString :: "u8 list \<Rightarrow> (u8 list \<times> u8 list) option" where
  "readString bs = do { (n, bs1) \<leftarrow> readVarint bs; readBytes n bs1 }"

fun readNode :: "nat \<Rightarrow> u8 list \<Rightarrow> (dnode \<times> u8 list) option" where
  "readNode 0 bs = None"
| "readNode (Suc depth) bs =
     do { (t, bs1) \<leftarrow> readVarint bs; (ic, bs2) \<leftarrow> readVarint bs1; (ts, bs3) \<leftarrow> readVarint bs2;
          (n, bs4) \<leftarrow> readVarint bs3; (ch, bs5) \<leftarrow> decode_many (readNode depth) n bs4;
          Some (DNode t ic ts ch, bs5) }"

definition readRoot :: "nat \<Rightarrow> u8 list \<Rightarrow> (droot \<times> u8 list) option" where
  "readRoot depth bs =
     do { (t, bs1) \<leftarrow> readVarint bs; (cat, bs2) \<leftarrow> readBytes 1 bs1; (ic, bs3) \<leftarrow> readVarint bs2;
          (ts, bs4) \<leftarrow> readVarint bs3; (field, bs5) \<leftarrow> readString bs4; (n, bs6) \<leftarrow> readVarint bs5;
          (ch, bs7) \<leftarrow> decode_many (readNode depth) n bs6;
          Some (\<lparr>dr_type = t, dr_category = hd cat, dr_instances = ic, dr_size = ts, dr_field = field,
                 dr_children = ch\<rparr>, bs7) }"

definition readTree :: "u8 list \<Rightarrow> (u8 list list \<times> droot list) option" where
  "readTree bs =
     do { (magic, bs1) \<leftarrow> readBytes 4 bs; (version, bs2) \<leftarrow> readVarint bs1;
          (type_count, bs3) \<leftarrow> readVarint bs2; (root_count, bs4) \<leftarrow> readVarint bs3;
          (names, bs5) \<leftarrow> decode_many readString type_count bs4;
          (roots, bs6) \<leftarrow> decode_many (readRoot (length bs)) root_count bs5;
          if magic = Magic \<and> version = 1 \<and> bs6 = [] then Some (names, roots) else None }"

section \<open>Codecs\<close>

lemma varint_byte:
  fixes v :: u64
  defines "b \<equiv> ucast (v AND 0x7F) :: u8"
  shows "unat b = unat v mod 128" "unat (b OR 0x80) = unat v mod 128 + 128"
proof -
  have "v AND 0x7F = v AND mask 7" by (simp add: mask_eq_exp_minus_1)
  then have "unat (v AND 0x7F) = unat v mod 128" by (simp only: and_mask_unat) simp
  then show b: "unat b = unat v mod 128"
    unfolding b_def by (simp add: unsigned_ucast_eq take_bit_nat_eq_self)
  have "take_bit 7 (unat b) = unat b" using b by (intro take_bit_nat_eq_self) simp
  then have t: "take_bit 7 b = b" by (metis unsigned_take_bit_eq unsigned_word_eqI)
  have "\<not> bit b 7" by (subst t [symmetric]) (simp add: bit_take_bit_iff)
  then have "b AND 2 ^ 7 = 0" by (simp only: and_exp_eq_0_iff_not_bit not_False_eq_True)
  then have "b + 0x80 = b OR 0x80" by (intro disjunctive_add_eq_or) simp
  moreover have "unat (b + 0x80) = unat v mod 128 + 128" using b by (simp add: unat_word_ariths)
  ultimately show "unat (b OR 0x80) = unat v mod 128 + 128" by simp
qed

lemma readVarint_WriteVarint: "readVarint (WriteVarint v @ rest) = Some (unat v, rest)"
proof (induction v rule: WriteVarint.induct)
  case (1 v)
  let ?b = "ucast (v AND 0x7F) :: u8"
  note b = varint_byte [of v]
  have d: "unat (drop_bit 7 v) = unat v div 128" by (simp add: unat_drop_bit)
  show ?case
  proof (cases "drop_bit 7 v = 0")
    case True
    then have "unat v div 128 = 0" using d by simp
    then have "unat v < 128" by (rule div_eq_0_iff [THEN iffD1, THEN disjE]) simp_all
    then show ?thesis using True b by (subst WriteVarint.simps) (simp add: word_less_nat_alt)
  next
    case False
    have "\<not> ?b OR 0x80 < 0x80" using b(2) by (simp add: word_less_nat_alt)
    then show ?thesis using False b(2) 1 [OF refl refl] d by (subst WriteVarint.simps) simp
  qed
qed

lemma WriteVarint_length: "1 \<le> length (WriteVarint v)"
  by (subst WriteVarint.simps) (simp add: Let_def)

interpretation varint: codec WriteVarint readVarint unat "\<lambda>_. True"
  by unfold_locales (rule readVarint_WriteVarint)

interpretation str: codec WriteString readString "\<lambda>s. s" "\<lambda>s. length s < 2 ^ 64"
  by unfold_locales (simp add: WriteString_def readString_def readVarint_WriteVarint readBytes_def unat_of_nat_less)

text \<open>The bytes of a node when the numbering \<open>f\<close> of the types is known, and what the reader makes of it.\<close>

fun node_bytes :: "(ClassID \<Rightarrow> nat) \<Rightarrow> TypeTreeNode \<Rightarrow> u8 list" where
  "node_bytes f (TypeTreeNode tid ic ts ch) =
     WriteVarint (ucast (of_nat (f tid) :: u32)) @ WriteVarint ic @ WriteVarint ts @
     WriteVarint (of_nat (length ch)) @ concat (map (\<lambda>kc. node_bytes f (snd kc)) ch)"

fun node_image :: "(ClassID \<Rightarrow> nat) \<Rightarrow> TypeTreeNode \<Rightarrow> dnode" where
  "node_image f (TypeTreeNode tid ic ts ch) =
     DNode (f tid) (unat ic) (unat ts) (map (\<lambda>kc. node_image f (snd kc)) ch)"

fun node_depth :: "TypeTreeNode \<Rightarrow> nat" where
  "node_depth (TypeTreeNode tid ic ts ch) = Suc (foldr max (map (\<lambda>kc. node_depth (snd kc)) ch) 0)"

text \<open>The type identifiers of a node in the order of the walk.\<close>

fun node_types :: "TypeTreeNode \<Rightarrow> ClassID list" where
  "node_types (TypeTreeNode tid ic ts ch) = tid # concat (map (\<lambda>kc. node_types (snd kc)) ch)"

fun node_fits :: "TypeTreeNode \<Rightarrow> bool" where
  "node_fits (TypeTreeNode tid ic ts ch) \<longleftrightarrow> length ch < 2 ^ 64 \<and> list_all (\<lambda>kc. node_fits (snd kc)) ch"

lemma foldr_max_le: "foldr max xs 0 \<le> (n :: nat) \<longleftrightarrow> list_all (\<lambda>x. x \<le> n) xs"
  by (induction xs) auto

lemma unat_index: "n < 2 ^ 32 \<Longrightarrow> unat (ucast (of_nat n :: u32) :: u64) = n"
  by (simp add: unsigned_ucast_eq unsigned_of_nat take_bit_nat_eq_self)

lemma readNode_node_bytes:
  assumes f: "\<And>t. f t < 2 ^ 32"
  shows "node_fits n \<Longrightarrow> node_depth n \<le> d \<Longrightarrow> readNode d (node_bytes f n @ rest) = Some (node_image f n, rest)"
proof (induction d arbitrary: n rest)
  case 0
  then show ?case by (cases n) simp
next
  case (Suc d)
  obtain tid ic ts ch where n: "n = TypeTreeNode tid ic ts ch" by (cases n)
  have "codec (node_bytes f) (readNode d) (node_image f) (\<lambda>m. node_fits m \<and> node_depth m \<le> d)"
    by unfold_locales (use Suc.IH in blast)
  moreover have "list_all (\<lambda>m. node_fits m \<and> node_depth m \<le> d) (map snd ch)"
    using Suc.prems by (auto simp: n foldr_max_le list_all_iff)
  ultimately have "decode_many (readNode d) (length ch) (concat (map (\<lambda>kc. node_bytes f (snd kc)) ch) @ rest)
      = Some (map (\<lambda>kc. node_image f (snd kc)) ch, rest)"
    using codec.dec_many [of "node_bytes f" "readNode d" "node_image f" _ "map snd ch" rest] by (simp add: comp_def)
  moreover have "unat (of_nat (length ch) :: u64) = length ch" using Suc.prems by (simp add: n unat_of_nat_less)
  ultimately show ?case
    by (simp add: n readVarint_WriteVarint unat_index [OF f, simplified])
qed

lemma node_depth_le: "node_depth n \<le> length (node_bytes f n)"
proof (induction n rule: node_depth.induct)
  case (1 tid ic ts ch)
  have "node_depth (snd kc) \<le> length (concat (map (\<lambda>kc. node_bytes f (snd kc)) ch))" if "kc \<in> set ch" for kc
    using 1 [OF that] member_le_sum_list [of "length (node_bytes f (snd kc))" "map (\<lambda>kc. length (node_bytes f (snd kc))) ch"] that
    by (fastforce simp: length_concat comp_def)
  then have "foldr max (map (\<lambda>kc. node_depth (snd kc)) ch) 0 \<le> length (concat (map (\<lambda>kc. node_bytes f (snd kc)) ch))"
    by (simp add: foldr_max_le list_all_iff)
  then show ?case using WriteVarint_length [of ic] by simp
qed

section \<open>Numbering of the types\<close>

text \<open>The types in the order of their first occurrence, and the position of a type in such a list.\<close>

definition register :: "ClassID list \<Rightarrow> ClassID \<Rightarrow> ClassID list" where
  "register tys t = (if t \<in> set tys then tys else tys @ [t])"

definition index_of :: "ClassID list \<Rightarrow> ClassID \<Rightarrow> nat" where
  "index_of tys t = length (takeWhile (\<lambda>x. x \<noteq> t) tys)"

definition index_map :: "ClassID list \<Rightarrow> ClassID \<rightharpoonup> u32" where
  "index_map tys t = (if t \<in> set tys then Some (of_nat (index_of tys t)) else None)"

definition type_name :: "(ClassID \<Rightarrow> u8 list option) \<Rightarrow> ClassID \<Rightarrow> u8 list" where
  "type_name GetTypeName t = (case GetTypeName t of Some name \<Rightarrow> name | None \<Rightarrow> [0x3F])"

definition registered :: "(ClassID \<Rightarrow> u8 list option) \<Rightarrow> ClassID list \<Rightarrow> StringTable \<Rightarrow> bool" where
  "registered gn tys st \<longleftrightarrow> distinct tys \<and> st_count st = of_nat (length tys)
     \<and> st_bytes st = concat (map (\<lambda>t. WriteString (type_name gn t)) tys)
     \<and> st_typeToIndex st = index_map tys"

lemma index_of_nth: "t \<in> set tys \<Longrightarrow> index_of tys t < length tys \<and> tys ! index_of tys t = t"
proof (induction tys)
  case (Cons a tys)
  then show ?case by (cases "a = t") (simp_all add: index_of_def)
qed simp

lemma index_of_inj: "s \<in> set tys \<Longrightarrow> t \<in> set tys \<Longrightarrow> index_of tys s = index_of tys t \<Longrightarrow> s = t"
  using index_of_nth by metis

lemma index_of_prefix:
  assumes "t \<in> set tys" "prefix tys fin"
  shows "index_of fin t = index_of tys t"
proof -
  obtain ext where "fin = tys @ ext" using assms(2) by (auto elim: prefixE)
  moreover have "takeWhile (\<lambda>x. x \<noteq> t) (tys @ ext) = takeWhile (\<lambda>x. x \<noteq> t) tys"
    using assms(1) by (intro takeWhile_append1) auto
  ultimately show ?thesis by (simp add: index_of_def)
qed

lemma index_of_new: "t \<notin> set tys \<Longrightarrow> index_of (tys @ [t]) t = length tys"
  unfolding index_of_def by (subst takeWhile_append2) auto

lemma index_map_new:
  assumes "t \<notin> set tys"
  shows "(index_map tys)(t \<mapsto> of_nat (length tys)) = index_map (tys @ [t])"
proof -
  have "index_of (tys @ [t]) s = index_of tys s" if "s \<in> set tys" for s
    using that by (intro index_of_prefix) auto
  then show ?thesis using index_of_new [OF assms] by (auto simp: index_map_def fun_eq_iff)
qed

lemma register_prefix: "prefix tys (register tys t)"
  by (simp add: register_def)

lemma foldl_register_prefix: "prefix tys (foldl register tys ts)"
proof (induction ts arbitrary: tys)
  case (Cons t ts)
  then show ?case using register_prefix prefix_order.trans by fastforce
qed simp

lemma set_register [simp]: "set (register tys t) = insert t (set tys)"
  by (auto simp: register_def)

lemma set_foldl_register [simp]: "set (foldl register tys ts) = set tys \<union> set ts"
  by (induction ts arbitrary: tys) auto

lemma RegisterType_registered:
  assumes st: "registered gn tys st" and len: "length tys < 2 ^ 32"
  shows "\<exists>st'. RegisterType gn st t = (of_nat (index_of (register tys t) t), st') \<and> registered gn (register tys t) st'"
proof (cases "t \<in> set tys")
  case True
  then show ?thesis using st by (simp add: RegisterType_def registered_def register_def index_map_def)
next
  case False
  have new: "index_map tys t = None" using False by (simp add: index_map_def)
  have "registered gn (tys @ [t]) (snd (RegisterType gn st t))"
    using st False new index_map_new [OF False] by (auto simp: registered_def RegisterType_def type_name_def split: option.splits)
  moreover have "fst (RegisterType gn st t) = of_nat (index_of (tys @ [t]) t)"
    using st new index_of_new [OF False] by (simp add: RegisterType_def registered_def)
  ultimately show ?thesis using False by (metis prod.collapse register_def)
qed

lemma length_register: "length (register tys t) \<le> Suc (length tys)"
  by (simp add: register_def)

lemma length_foldl_register: "length (foldl register tys ts) \<le> length tys + length ts"
proof (induction ts arbitrary: tys)
  case (Cons t ts)
  have "length (foldl register (register tys t) ts) \<le> length (register tys t) + length ts" by (rule Cons)
  then show ?case using length_register [of tys t] by simp
qed simp

lemma node_bytes_cong: "(\<And>t. t \<in> set (node_types n) \<Longrightarrow> f t = g t) \<Longrightarrow> node_bytes f n = node_bytes g n"
proof (induction n rule: node_types.induct)
  case (1 tid ic ts ch)
  have "map (\<lambda>kc. node_bytes f (snd kc)) ch = map (\<lambda>kc. node_bytes g (snd kc)) ch"
    using 1 by (intro map_cong) auto
  then have "concat (map (\<lambda>kc. node_bytes f (snd kc)) ch) = concat (map (\<lambda>kc. node_bytes g (snd kc)) ch)"
    by (rule arg_cong)
  then show ?case using 1(2) by simp
qed

text \<open>
  The walk over a node writes the bytes of the final numbering, whatever is registered later, and
  leaves the types of the node registered.
\<close>

abbreviation nodes_types :: "(ClassID \<times> TypeTreeNode) list \<Rightarrow> ClassID list" where
  "nodes_types ch \<equiv> concat (map (\<lambda>kc. node_types (snd kc)) ch)"

abbreviation nodes_bytes :: "(ClassID \<Rightarrow> nat) \<Rightarrow> (ClassID \<times> TypeTreeNode) list \<Rightarrow> u8 list" where
  "nodes_bytes f ch \<equiv> concat (map (\<lambda>kc. node_bytes f (snd kc)) ch)"

lemma node_bytes_stable:
  assumes "set (node_types n) \<subseteq> set tys" "prefix tys fin"
  shows "node_bytes (index_of fin) n = node_bytes (index_of tys) n"
  using assms by (intro node_bytes_cong index_of_prefix) auto

lemma WriteNode_registered:
  "registered gn tys st \<Longrightarrow> length tys + length (node_types n) < 2 ^ 32 \<Longrightarrow>
     \<exists>st'. WriteNode gn n st = (st', node_bytes (index_of (foldl register tys (node_types n))) n)
       \<and> registered gn (foldl register tys (node_types n)) st'"
  "registered gn tys st \<Longrightarrow> length tys + length (nodes_types ch) < 2 ^ 32 \<Longrightarrow>
     \<exists>st'. WriteNodes gn ch st = (st', nodes_bytes (index_of (foldl register tys (nodes_types ch))) ch)
       \<and> registered gn (foldl register tys (nodes_types ch)) st'"
proof (induction gn n st and gn ch st arbitrary: tys and tys rule: WriteNode_WriteNodes.induct)
  case (1 gn tid ic ts ch st)
  let ?tys1 = "register tys tid" and ?fin = "foldl register (register tys tid) (nodes_types ch)"
  obtain st1 where st1: "RegisterType gn st tid = (of_nat (index_of ?tys1 tid), st1)" "registered gn ?tys1 st1"
    using RegisterType_registered [OF 1(2), of tid] 1(3) by auto
  obtain st2 where st2: "WriteNodes gn ch st1 = (st2, nodes_bytes (index_of ?fin) ch)" "registered gn ?fin st2"
    using 1(1) [OF st1(1) [symmetric] refl st1(2)] 1(3) length_register [of tys tid] by auto
  have "index_of ?fin tid = index_of ?tys1 tid"
    by (rule index_of_prefix) (simp_all add: foldl_register_prefix)
  then show ?case using st1(1) st2 by simp
next
  case (2 gn st)
  then show ?case by simp
next
  case (3 gn k c ch st)
  let ?tys1 = "foldl register tys (node_types c)" and ?fin = "foldl register tys (node_types c @ nodes_types ch)"
  obtain st1 where st1: "WriteNode gn c st = (st1, node_bytes (index_of ?tys1) c)" "registered gn ?tys1 st1"
    using 3(1) [OF 3(3)] 3(4) by auto
  have "length ?tys1 + length (nodes_types ch) < 2 ^ 32"
    using 3(4) length_foldl_register [of tys "node_types c"] by simp
  then obtain st2 where st2: "WriteNodes gn ch st1 = (st2, nodes_bytes (index_of ?fin) ch)" "registered gn ?fin st2"
    using 3(2) [OF st1(1) [symmetric] refl st1(2)] by auto
  have "node_bytes (index_of ?fin) c = node_bytes (index_of ?tys1) c"
    by (rule node_bytes_stable) (simp_all add: foldl_register_prefix)
  then show ?case using st1(1) st2 by simp
qed

section \<open>Roots\<close>

definition root_bytes :: "(ClassID \<Rightarrow> nat) \<Rightarrow> RootKey \<times> TypeRootNode \<Rightarrow> u8 list" where
  "root_bytes f kr =
     (let node = rn_node (snd kr)
      in WriteVarint (ucast (of_nat (f (rk_typeID (fst kr))) :: u32)) @ [category_byte (rn_category (snd kr))] @
         WriteVarint (instanceCount node) @ WriteVarint (totalSize node) @ WriteString (rn_fieldName (snd kr)) @
         WriteVarint (of_nat (length (children node))) @ nodes_bytes f (children node))"

definition root_image :: "(ClassID \<Rightarrow> nat) \<Rightarrow> RootKey \<times> TypeRootNode \<Rightarrow> droot" where
  "root_image f kr =
     (let node = rn_node (snd kr)
      in \<lparr>dr_type = f (rk_typeID (fst kr)), dr_category = category_byte (rn_category (snd kr)),
          dr_instances = unat (instanceCount node), dr_size = unat (totalSize node),
          dr_field = rn_fieldName (snd kr), dr_children = map (\<lambda>kc. node_image f (snd kc)) (children node)\<rparr>)"

definition root_types :: "RootKey \<times> TypeRootNode \<Rightarrow> ClassID list" where
  "root_types kr = rk_typeID (fst kr) # nodes_types (children (rn_node (snd kr)))"

definition root_fits :: "RootKey \<times> TypeRootNode \<Rightarrow> bool" where
  "root_fits kr \<longleftrightarrow> node_fits (rn_node (snd kr)) \<and> length (rn_fieldName (snd kr)) < 2 ^ 64"

abbreviation tree_types :: "TypeReferenceTree \<Rightarrow> ClassID list" where
  "tree_types tree \<equiv> concat (map root_types tree)"

text \<open>What fits the format: fewer than \<open>2 ^ 32\<close> occurrences of types, and sizes below \<open>2 ^ 64\<close>.\<close>

definition tree_fits :: "(ClassID \<Rightarrow> u8 list option) \<Rightarrow> TypeReferenceTree \<Rightarrow> bool" where
  "tree_fits gn tree \<longleftrightarrow> list_all root_fits tree \<and> length (tree_types tree) < 2 ^ 32 \<and> length tree < 2 ^ 64
     \<and> list_all (\<lambda>t. length (type_name gn t) < 2 ^ 64) (tree_types tree)"

lemma root_bytes_stable:
  assumes "set (root_types kr) \<subseteq> set tys" "prefix tys fin"
  shows "root_bytes (index_of fin) kr = root_bytes (index_of tys) kr"
proof -
  have "map (\<lambda>kc. node_bytes (index_of fin) (snd kc)) (children (rn_node (snd kr)))
      = map (\<lambda>kc. node_bytes (index_of tys) (snd kc)) (children (rn_node (snd kr)))"
    using assms by (intro map_cong refl node_bytes_stable) (auto simp: root_types_def)
  then have "nodes_bytes (index_of fin) (children (rn_node (snd kr))) = nodes_bytes (index_of tys) (children (rn_node (snd kr)))"
    by (rule arg_cong)
  moreover have "index_of fin (rk_typeID (fst kr)) = index_of tys (rk_typeID (fst kr))"
    using assms by (intro index_of_prefix) (auto simp: root_types_def)
  ultimately show ?thesis by (simp add: root_bytes_def)
qed

lemma WriteRoots_registered:
  "registered gn tys st \<Longrightarrow> length tys + length (tree_types tree) < 2 ^ 32 \<Longrightarrow>
     \<exists>st'. WriteRoots gn tree st = (st', concat (map (root_bytes (index_of (foldl register tys (tree_types tree)))) tree))
       \<and> registered gn (foldl register tys (tree_types tree)) st'"
proof (induction gn tree st arbitrary: tys rule: WriteRoots.induct)
  case (2 gn key root roots st)
  let ?t = "rk_typeID key" and ?ch = "children (rn_node root)"
  let ?tys1 = "register tys ?t" and ?tys2 = "foldl register tys (root_types (key, root))"
  let ?fin = "foldl register tys (tree_types ((key, root) # roots))"
  obtain st1 where st1: "RegisterType gn st ?t = (of_nat (index_of ?tys1 ?t), st1)" "registered gn ?tys1 st1"
    using RegisterType_registered [OF 2(2), of ?t] 2(3) by auto
  have tys2: "?tys2 = foldl register ?tys1 (nodes_types ?ch)" by (simp add: root_types_def)
  have "length ?tys1 + length (nodes_types ?ch) < 2 ^ 32"
    using 2(3) length_register [of tys ?t] by (simp add: root_types_def)
  then obtain st2 where st2: "WriteNodes gn ?ch st1 = (st2, nodes_bytes (index_of ?tys2) ?ch)" "registered gn ?tys2 st2"
    using WriteNode_registered(2) [OF st1(2), of ?ch] unfolding tys2 by auto
  have "length ?tys2 + length (tree_types roots) < 2 ^ 32"
    using 2(3) length_foldl_register [of tys "root_types (key, root)"] by simp
  then obtain st3 where st3: "WriteRoots gn roots st2 = (st3, concat (map (root_bytes (index_of ?fin)) roots))"
      "registered gn ?fin st3"
    using 2(1) [OF st1(1) [symmetric] refl refl st2(1) [symmetric] refl st2(2)] by auto
  have "index_of ?tys2 ?t = index_of ?tys1 ?t"
    unfolding tys2 by (rule index_of_prefix) (simp_all add: foldl_register_prefix)
  moreover have "root_bytes (index_of ?fin) (key, root) = root_bytes (index_of ?tys2) (key, root)"
    by (rule root_bytes_stable) (simp_all add: foldl_register_prefix)
  ultimately show ?case using st1(1) st2(1) st3 by (simp add: root_bytes_def [of _ "(key, root)"] Let_def)
qed simp

lemma readRoot_root_bytes:
  assumes f: "\<And>t. f t < 2 ^ 32" and fits: "root_fits kr" and depth: "length (root_bytes f kr) \<le> d"
  shows "readRoot d (root_bytes f kr @ rest) = Some (root_image f kr, rest)"
proof -
  obtain tid ic ts ch where n: "rn_node (snd kr) = TypeTreeNode tid ic ts ch" by (cases "rn_node (snd kr)")
  have "codec (node_bytes f) (readNode d) (node_image f) (\<lambda>m. node_fits m \<and> node_depth m \<le> d)"
    by unfold_locales (use readNode_node_bytes [of f] f in blast)
  moreover have "list_all (\<lambda>m. node_fits m \<and> node_depth m \<le> d) (map snd ch)"
  proof -
    have "node_depth (snd kc) \<le> d" if "kc \<in> set ch" for kc
    proof -
      have "length (node_bytes f (snd kc)) \<le> length (nodes_bytes f ch)"
        using that member_le_sum_list [of "length (node_bytes f (snd kc))" "map (\<lambda>kc. length (node_bytes f (snd kc))) ch"]
        by (fastforce simp: length_concat comp_def)
      also have "\<dots> \<le> d" using depth by (simp add: root_bytes_def n)
      finally show ?thesis using node_depth_le order_trans by blast
    qed
    then show ?thesis using fits by (auto simp: root_fits_def n list_all_iff)
  qed
  ultimately have "decode_many (readNode d) (length ch) (nodes_bytes f ch @ rest)
      = Some (map (\<lambda>kc. node_image f (snd kc)) ch, rest)"
    using codec.dec_many [of "node_bytes f" "readNode d" "node_image f" _ "map snd ch" rest] by (simp add: comp_def)
  moreover have "unat (of_nat (length ch) :: u64) = length ch" using fits by (simp add: root_fits_def n unat_of_nat_less)
  moreover have "readString (WriteString (rn_fieldName (snd kr)) @ r) = Some (rn_fieldName (snd kr), r)" for r
    using fits by (intro str.dec_enc) (simp add: root_fits_def)
  ultimately show ?thesis
    by (simp add: readRoot_def root_bytes_def root_image_def n Let_def readVarint_WriteVarint readBytes_def
        unat_index [OF f, simplified])
qed

text \<open>The layout of the output, and reading the concatenated roots.\<close>

lemma Serialize_layout:
  assumes "tree_fits gn tree"
  defines "tys \<equiv> foldl register [] (tree_types tree)"
  shows "Serialize tree (Some gn) = Magic @ WriteVarint 1 @ WriteVarint (ucast (of_nat (length tys) :: u32)) @
      WriteVarint (of_nat (length tree)) @ concat (map WriteString (map (type_name gn) tys)) @
      concat (map (root_bytes (index_of tys)) tree)"
proof -
  have "registered gn [] newStringTable" by (simp add: registered_def newStringTable_def fun_eq_iff index_map_def)
  then obtain st where "WriteRoots gn tree newStringTable = (st, concat (map (root_bytes (index_of tys)) tree))"
    and "registered gn tys st"
    using WriteRoots_registered [of gn "[]" newStringTable tree] assms(1) by (auto simp: tys_def tree_fits_def)
  then show ?thesis
    by (simp add: Serialize_def WriteBytes_def FormatVersion_def registered_def comp_def)
qed

lemma readRoots:
  assumes f: "\<And>t. f t < 2 ^ 32" and "list_all root_fits tree" and "length (concat (map (root_bytes f) tree)) \<le> d"
  shows "decode_many (readRoot d) (length tree) (concat (map (root_bytes f) tree)) = Some (map (root_image f) tree, [])"
proof -
  have "length (root_bytes f kr) \<le> length (concat (map (root_bytes f) tree))" if "kr \<in> set tree" for kr
    using that member_le_sum_list [of "length (root_bytes f kr)" "map (\<lambda>kr. length (root_bytes f kr)) tree"]
    by (fastforce simp: length_concat comp_def)
  then have all: "list_all (\<lambda>kr. root_fits kr \<and> length (root_bytes f kr) \<le> d) tree"
    using assms(2,3) by (auto simp: list_all_iff intro: order_trans)
  have "codec (root_bytes f) (readRoot d) (root_image f) (\<lambda>kr. root_fits kr \<and> length (root_bytes f kr) \<le> d)"
    by unfold_locales (use readRoot_root_bytes [of f] f in blast)
  from codec.dec_many [OF this all, of "[]"] show ?thesis by simp
qed

section \<open>Properties of the binary format\<close>

text \<open>
  C13. Round trip of the binary reference tree: a reader of the documented wire format recovers from
  \<open>Serialize\<close> the string table, which is the name of each type in the order of the walk, and every
  root with its category, counts, sizes, field name and children; two nodes have the same type index
  exactly when they have the same type.
\<close>

theorem binary_roundtrip:
  assumes "tree_fits gn tree"
  defines "tys \<equiv> foldl register [] (tree_types tree)"
  shows "readTree (Serialize tree (Some gn)) = Some (map (type_name gn) tys, map (root_image (index_of tys)) tree)
     \<and> (\<forall>s \<in> set (tree_types tree). \<forall>t \<in> set (tree_types tree). index_of tys s = index_of tys t \<longrightarrow> s = t)
     \<and> (\<forall>t \<in> set (tree_types tree). map (type_name gn) tys ! index_of tys t = type_name gn t)"
proof -
  have len: "length tys < 2 ^ 32"
    using length_foldl_register [of "[]" "tree_types tree"] assms(1) unfolding tys_def tree_fits_def by simp
  have bound: "index_of tys t < 2 ^ 32" for t
    using len length_takeWhile_le [of "\<lambda>x. x \<noteq> t" tys] by (simp add: index_of_def)
  define body where "body = concat (map (root_bytes (index_of tys)) tree)"
  define bs where "bs = Serialize tree (Some gn)"
  have bs: "bs = Magic @ WriteVarint 1 @ WriteVarint (ucast (of_nat (length tys) :: u32)) @
      WriteVarint (of_nat (length tree)) @ concat (map WriteString (map (type_name gn) tys)) @ body"
    using Serialize_layout [OF assms(1)] by (simp add: bs_def body_def tys_def)
  have names: "decode_many readString (length tys) (concat (map WriteString (map (type_name gn) tys)) @ body)
      = Some (map (type_name gn) tys, body)"
    using str.dec_many [of "map (type_name gn) tys" body] assms(1) by (simp add: tys_def tree_fits_def list_all_iff)
  have roots: "decode_many (readRoot (length bs)) (length tree) body = Some (map (root_image (index_of tys)) tree, [])"
    unfolding body_def by (rule readRoots) (use bound assms(1) in \<open>simp_all add: tree_fits_def bs body_def\<close>)
  have "unat (ucast (of_nat (length tys) :: u32) :: u64) = length tys" using len by (rule unat_index)
  moreover have "unat (of_nat (length tree) :: u64) = length tree"
    using assms(1) by (intro unat_of_nat_less) (simp add: tree_fits_def)
  moreover have "readBytes 4 (Magic @ r) = Some (Magic, r)" for r by (simp add: readBytes_def Magic_def)
  ultimately have "readTree bs = Some (map (type_name gn) tys, map (root_image (index_of tys)) tree)"
    unfolding readTree_def using names roots by (subst bs) (simp add: readVarint_WriteVarint)
  moreover have "set (tree_types tree) = set tys" by (simp add: tys_def)
  ultimately show ?thesis
    using index_of_nth [of _ tys] index_of_inj [of _ tys] by (auto simp: bs_def)
qed

theorem binary_roundtrip_witness:
  "readTree (Serialize (AddRoot 7 Stack 24 None []) (Some (\<lambda>_. Some [0x41]))) =
     Some ([[0x41]], [\<lparr>dr_type = 0, dr_category = 0, dr_instances = 1, dr_size = 24, dr_field = [], dr_children = []\<rparr>])"
proof -
  have tree: "AddRoot 7 Stack 24 None [] = [(\<lparr>rk_typeID = 7, rk_category = Stack\<rparr>,
      \<lparr>rn_node = TypeTreeNode 7 1 24 [], rn_category = Stack, rn_fieldName = []\<rparr>)]"
    by (simp add: AddRoot_def newTypeRootNode_def newTypeTreeNode_def RootAddInstance_def Let_def)
  have "tree_fits (\<lambda>_. Some [0x41]) (AddRoot 7 Stack 24 None [])"
    by (simp add: tree tree_fits_def root_fits_def root_types_def type_name_def)
  from binary_roundtrip [OF this] show ?thesis
    by (simp add: tree root_types_def register_def index_of_def type_name_def root_image_def)
qed

end
