(* ===== verification/TreeJson.thy ===== *)
theory TreeJson
  imports TreeSerial
begin

text \<open>
  The JSON serializer of the reference tree (\<open>TypeReferenceTreeJsonSerializer.cpp\<close>): the same walk and
  numbering of types as the binary one, into text. The theorems give its output as the rendering of a
  JSON document and the escaping of strings as an invertible function.
\<close>

section \<open>Model\<close>

definition ascii :: "string \<Rightarrow> u8 list" where
  "ascii s = map of_char s"

definition AppendUInt64 :: "u64 \<Rightarrow> u8 list" where
  "AppendUInt64 v = decimal (unat v)"

definition AppendUInt32 :: "u32 \<Rightarrow> u8 list" where
  "AppendUInt32 v = decimal (unat v)"

definition hex_digit :: "nat \<Rightarrow> u8" where
  "hex_digit d = (if d < 10 then of_nat (48 + d) else of_nat (87 + d))"

definition escape_char :: "u8 \<Rightarrow> u8 list" where
  "escape_char c =
     (if c = 0x22 then [0x5C, 0x22]
      else if c = 0x5C then [0x5C, 0x5C]
      else if c = 8 then [0x5C, 0x62]
      else if c = 12 then [0x5C, 0x66]
      else if c = 10 then [0x5C, 0x6E]
      else if c = 13 then [0x5C, 0x72]
      else if c = 9 then [0x5C, 0x74]
      else if c < 0x20 then [0x5C, 0x75, 0x30, 0x30, hex_digit (unat c div 16), hex_digit (unat c mod 16)]
      else [c])"

definition AppendEscapedJson :: "u8 list \<Rightarrow> u8 list" where
  "AppendEscapedJson str =
     (let needsEscape = list_ex (\<lambda>c. c = 0x22 \<or> c = 0x5C \<or> c < 0x20) str
      in if \<not> needsEscape then str else concat (map escape_char str))"

fun GetRootCategoryCode :: "RootCategory \<Rightarrow> string" where
  "GetRootCategoryCode Stack = ''K''"
| "GetRootCategoryCode StaticVariable = ''S''"
| "GetRootCategoryCode Finalizer = ''F''"
| "GetRootCategoryCode Handle = ''H''"
| "GetRootCategoryCode Pinning = ''P''"
| "GetRootCategoryCode ConditionalWeakTable = ''W''"
| "GetRootCategoryCode COM = ''R''"
| "GetRootCategoryCode Other = ''O''"
| "GetRootCategoryCode Unknown = ''?''"

record TypeTable =
  tt_json :: "u8 list"
  tt_count :: u32
  tt_typeToIndex :: "ClassID \<rightharpoonup> u32"

definition newTypeTable :: TypeTable where
  "newTypeTable = \<lparr>tt_json = [], tt_count = 0, tt_typeToIndex = Map.empty\<rparr>"

definition JsonRegisterType :: "(ClassID \<Rightarrow> u8 list option) \<Rightarrow> TypeTable \<Rightarrow> ClassID \<Rightarrow> u32 \<times> TypeTable" where
  "JsonRegisterType GetTypeName types tid =
     (case tt_typeToIndex types tid of
        Some i \<Rightarrow> (i, types)
      | None \<Rightarrow>
          (tt_count types,
           types\<lparr>tt_typeToIndex := (tt_typeToIndex types)(tid \<mapsto> tt_count types),
                 tt_json := tt_json types @ (if tt_count types > 0 then ascii '','' else []) @ ascii ''\"'' @
                   (case GetTypeName tid of Some name \<Rightarrow> AppendEscapedJson name | None \<Rightarrow> ascii ''?'') @ ascii ''\"'',
                 tt_count := tt_count types + 1\<rparr>))"

text \<open>\<open>OutputNodes\<close> is the loop over the children, with its flag \<open>firstChild\<close>.\<close>

fun OutputNode :: "(ClassID \<Rightarrow> u8 list option) \<Rightarrow> TypeTreeNode \<Rightarrow> TypeTable \<Rightarrow> TypeTable \<times> u8 list"
  and OutputNodes :: "(ClassID \<Rightarrow> u8 list option) \<Rightarrow> bool \<Rightarrow> (ClassID \<times> TypeTreeNode) list \<Rightarrow> TypeTable \<Rightarrow>
    TypeTable \<times> u8 list"
where
  "OutputNode GetTypeName (TypeTreeNode tid ic ts ch) types =
     (let (typeIndex, types1) = JsonRegisterType GetTypeName types tid;
          (types2, out) = OutputNodes GetTypeName True ch types1
      in (types2, ascii ''{\"t\":'' @ AppendUInt32 typeIndex @
            (if ic > 0 then ascii '',\"ic\":'' @ AppendUInt64 ic else []) @
            (if ts > 0 then ascii '',\"ts\":'' @ AppendUInt64 ts else []) @
            (if ch \<noteq> [] then ascii '',\"ch\":['' @ out @ ascii '']'' else []) @ ascii ''}''))"
| "OutputNodes GetTypeName firstChild [] types = (types, [])"
| "OutputNodes GetTypeName firstChild ((childTypeID, childNode) # ch) types =
     (let (types1, out1) = OutputNode GetTypeName childNode types;
          (types2, out2) = OutputNodes GetTypeName False ch types1
      in (types2, (if \<not> firstChild then ascii '','' else []) @ out1 @ out2))"

fun OutputRoots :: "(ClassID \<Rightarrow> u8 list option) \<Rightarrow> bool \<Rightarrow> TypeReferenceTree \<Rightarrow> TypeTable \<Rightarrow> TypeTable \<times> u8 list" where
  "OutputRoots GetTypeName firstRoot [] types = (types, [])"
| "OutputRoots GetTypeName firstRoot ((key, rootNode) # roots) types =
     (let (typeIndex, types1) = JsonRegisterType GetTypeName types (rk_typeID key);
          node = rn_node rootNode;
          (types2, out2) = OutputNodes GetTypeName True (children node) types1;
          (types3, out3) = OutputRoots GetTypeName False roots types2
      in (types3, (if \<not> firstRoot then ascii '','' else []) @ ascii ''{\"t\":'' @ AppendUInt32 typeIndex @
            ascii '',\"c\":\"'' @ ascii (GetRootCategoryCode (rn_category rootNode)) @ ascii ''\"'' @
            ascii '',\"ic\":'' @ AppendUInt64 (instanceCount node) @
            ascii '',\"ts\":'' @ AppendUInt64 (totalSize node) @
            (if rn_fieldName rootNode \<noteq> []
             then ascii '',\"fn\":\"'' @ AppendEscapedJson (rn_fieldName rootNode) @ ascii ''\"'' else []) @
            (if children node \<noteq> [] then ascii '',\"ch\":['' @ out2 @ ascii '']'' else []) @ ascii ''}'' @ out3))"

definition JsonSerialize :: "TypeReferenceTree \<Rightarrow> (ClassID \<Rightarrow> u8 list option) option \<Rightarrow> u8 list" where
  "JsonSerialize tree pFrameStore =
     (case pFrameStore of
        None \<Rightarrow> ascii ''{}''
      | Some GetTypeName \<Rightarrow>
          let (types, roots) = OutputRoots GetTypeName True tree newTypeTable;
              rootsJson = ascii ''['' @ roots @ ascii '']''
          in ascii ''{\"v\":1'' @
             (if tt_count types > 0 then ascii '',\"tt\":['' @ tt_json types @ ascii '']'' else []) @
             ascii '',\"r\":'' @ rootsJson @ ascii ''}'')"

section \<open>Escaping\<close>

text \<open>Unescaping of a JSON string body, for the escapes that the serializer uses.\<close>

definition hex_value :: "u8 \<Rightarrow> nat" where
  "hex_value d = (if d < 0x3A then unat d - 48 else unat d - 87)"

fun unescape :: "u8 list \<Rightarrow> u8 list" where
  "unescape [] = []"
| "unescape (c # cs) =
     (if c \<noteq> 0x5C then c # unescape cs
      else case cs of
        [] \<Rightarrow> []
      | e # cs' \<Rightarrow>
          if e = 0x75 then (case cs' of
              _ # _ # h # l # cs'' \<Rightarrow> of_nat (16 * hex_value h + hex_value l) # unescape cs''
            | _ \<Rightarrow> [])
          else (if e = 0x62 then 8 else if e = 0x66 then 12 else if e = 0x6E then 10 else if e = 0x72 then 13
                else if e = 0x74 then 9 else e) # unescape cs')"

lemma escape_fast_path:
  "\<not> (c = 0x22 \<or> c = 0x5C \<or> c < 0x20) \<Longrightarrow> escape_char c = [c]"
  by (auto simp: escape_char_def word_less_nat_alt)

lemma AppendEscapedJson_slow: "AppendEscapedJson str = concat (map escape_char str)"
proof (cases "list_ex (\<lambda>c. c = 0x22 \<or> c = 0x5C \<or> c < 0x20) str")
  case False
  then have "map escape_char str = map (\<lambda>c. [c]) str" by (auto simp: list_ex_iff escape_fast_path)
  then have "concat (map escape_char str) = concat (map (\<lambda>c. [c]) str)" by (rule arg_cong)
  then show ?thesis using False by (simp add: AppendEscapedJson_def)
qed (simp add: AppendEscapedJson_def)

lemma hex_value_digit: "d < 16 \<Longrightarrow> hex_value (hex_digit d) = d"
  by (auto simp: hex_value_def hex_digit_def word_less_nat_alt unat_of_nat_less simp del: of_nat_add)

lemma unescape_escape_char: "unescape (escape_char c @ rest) = c # unescape rest"
proof (cases "c < 0x20 \<and> c \<notin> {8, 12, 10, 13, 9}")
  case True
  then have "c \<noteq> 0x22" "c \<noteq> 0x5C" by auto
  then have "escape_char c = [0x5C, 0x75, 0x30, 0x30, hex_digit (unat c div 16), hex_digit (unat c mod 16)]"
    using True by (simp add: escape_char_def)
  moreover have "unat c div 16 < 16" by (rule less_mult_imp_div_less) simp
  moreover have "(of_nat (16 * (unat c div 16) + unat c mod 16) :: u8) = c"
    by (simp only: mult_div_mod_eq of_nat_unat) simp
  ultimately show ?thesis by (simp add: hex_value_digit del: of_nat_add)
next
  case False
  then show ?thesis by (auto simp: escape_char_def)
qed

lemma unescape_escape: "unescape (concat (map escape_char str)) = str"
proof (induction str)
  case (Cons c str)
  then show ?case by (simp add: unescape_escape_char del: unescape.simps)
qed simp

lemma escape_char_printable:
  assumes "d \<in> set (escape_char c)"
  shows "\<not> d < 0x20"
proof -
  have hex: "\<not> hex_digit k < 0x20" if "k < 16" for k
    using that by (auto simp: hex_digit_def word_less_nat_alt unat_of_nat_less simp del: of_nat_add)
  have "unat c div 16 < 16" by (rule less_mult_imp_div_less) simp
  then show ?thesis using assms hex by (auto simp: escape_char_def word_less_nat_alt split: if_splits)
qed

section \<open>The document\<close>

datatype json = JNum nat | JStr "u8 list" | JArr "json list" | JObj "(string \<times> json) list"

fun commas :: "u8 list list \<Rightarrow> u8 list" where
  "commas [] = []"
| "commas (x # xs) = x @ concat (map (\<lambda>y. ascii '','' @ y) xs)"

fun render :: "json \<Rightarrow> u8 list" where
  "render (JNum n) = decimal n"
| "render (JStr s) = ascii ''\"'' @ concat (map escape_char s) @ ascii ''\"''"
| "render (JArr xs) = ascii ''['' @ commas (map render xs) @ ascii '']''"
| "render (JObj kvs) = ascii ''{'' @ commas (map (\<lambda>kv. ascii ''\"'' @ ascii (fst kv) @ ascii ''\":'' @ render (snd kv)) kvs)
     @ ascii ''}''"

fun node_json :: "(ClassID \<Rightarrow> nat) \<Rightarrow> TypeTreeNode \<Rightarrow> json" where
  "node_json f (TypeTreeNode tid ic ts ch) = JObj (
     [(''t'', JNum (f tid))] @ (if ic > 0 then [(''ic'', JNum (unat ic))] else []) @
     (if ts > 0 then [(''ts'', JNum (unat ts))] else []) @
     (if ch \<noteq> [] then [(''ch'', JArr (map (\<lambda>kc. node_json f (snd kc)) ch))] else []))"

definition root_json :: "(ClassID \<Rightarrow> nat) \<Rightarrow> RootKey \<times> TypeRootNode \<Rightarrow> json" where
  "root_json f kr =
     (let node = rn_node (snd kr)
      in JObj ([(''t'', JNum (f (rk_typeID (fst kr)))), (''c'', JStr (ascii (GetRootCategoryCode (rn_category (snd kr))))),
          (''ic'', JNum (unat (instanceCount node))), (''ts'', JNum (unat (totalSize node)))] @
          (if rn_fieldName (snd kr) \<noteq> [] then [(''fn'', JStr (rn_fieldName (snd kr)))] else []) @
          (if children node \<noteq> [] then [(''ch'', JArr (map (\<lambda>kc. node_json f (snd kc)) (children node)))] else [])))"

definition tree_json :: "(ClassID \<Rightarrow> u8 list option) \<Rightarrow> ClassID list \<Rightarrow> TypeReferenceTree \<Rightarrow> json" where
  "tree_json gn tys tree = JObj (
     [(''v'', JNum 1)] @ (if tys \<noteq> [] then [(''tt'', JArr (map (\<lambda>t. JStr (type_name gn t)) tys))] else []) @
     [(''r'', JArr (map (root_json (index_of tys)) tree))])"

lemma commas_snoc: "commas (xs @ [y]) = commas xs @ (if xs = [] then [] else ascii '','') @ y"
  by (cases xs) simp_all

definition json_registered :: "(ClassID \<Rightarrow> u8 list option) \<Rightarrow> ClassID list \<Rightarrow> TypeTable \<Rightarrow> bool" where
  "json_registered gn tys st \<longleftrightarrow> distinct tys \<and> tt_count st = of_nat (length tys)
     \<and> tt_json st = commas (map (\<lambda>t. render (JStr (type_name gn t))) tys)
     \<and> tt_typeToIndex st = index_map tys"

lemma escape_unknown: "concat (map escape_char [0x3F]) = [0x3F]"
  by (simp add: escape_char_def)

lemma JsonRegisterType_registered:
  assumes st: "json_registered gn tys st" and len: "length tys < 2 ^ 32"
  shows "\<exists>st'. JsonRegisterType gn st t = (of_nat (index_of (register tys t) t), st') \<and> json_registered gn (register tys t) st'"
proof (cases "t \<in> set tys")
  case True
  then show ?thesis using st by (simp add: JsonRegisterType_def json_registered_def register_def index_map_def)
next
  case False
  have new: "index_map tys t = None" using False by (simp add: index_map_def)
  have "unat (of_nat (length tys) :: u32) = length tys" using len by (intro unat_of_nat_less) simp
  then have "tt_count st > 0 \<longleftrightarrow> tys \<noteq> []" using st by (simp add: json_registered_def word_gt_0 flip: unat_eq_0)
  moreover have "(case gn t of Some name \<Rightarrow> AppendEscapedJson name | None \<Rightarrow> ascii ''?'')
      = concat (map escape_char (type_name gn t))"
    using escape_unknown by (simp add: type_name_def AppendEscapedJson_slow ascii_def split: option.splits)
  ultimately have "json_registered gn (tys @ [t]) (snd (JsonRegisterType gn st t))"
    using st False new index_map_new [OF False] by (simp add: json_registered_def JsonRegisterType_def commas_snoc)
  moreover have "fst (JsonRegisterType gn st t) = of_nat (index_of (tys @ [t]) t)"
    using st new index_of_new [OF False] by (simp add: JsonRegisterType_def json_registered_def)
  ultimately show ?thesis using False by (metis prod.collapse register_def)
qed

text \<open>The separator of the loops: a comma before every element but the first.\<close>

definition joined :: "bool \<Rightarrow> u8 list list \<Rightarrow> u8 list" where
  "joined first xs = (if first then commas xs else concat (map (\<lambda>y. ascii '','' @ y) xs))"

lemma joined_simps [simp]:
  "joined first [] = []" "joined first (x # xs) = (if \<not> first then ascii '','' else []) @ x @ joined False xs"
  by (simp_all add: joined_def)

lemma render_node:
  "render (node_json f (TypeTreeNode tid ic ts ch)) =
     ascii ''{\"t\":'' @ decimal (f tid) @ (if ic > 0 then ascii '',\"ic\":'' @ decimal (unat ic) else []) @
     (if ts > 0 then ascii '',\"ts\":'' @ decimal (unat ts) else []) @
     (if ch \<noteq> [] then ascii '',\"ch\":['' @ joined True (map (\<lambda>kc. render (node_json f (snd kc))) ch) @ ascii '']'' else []) @
     ascii ''}''"
  by (simp add: ascii_def joined_def comp_def)

lemma render_root:
  "render (root_json f (key, root)) =
     ascii ''{\"t\":'' @ decimal (f (rk_typeID key)) @ ascii '',\"c\":\"'' @ ascii (GetRootCategoryCode (rn_category root)) @
     ascii ''\",\"ic\":'' @ decimal (unat (instanceCount (rn_node root))) @
     ascii '',\"ts\":'' @ decimal (unat (totalSize (rn_node root))) @
     (if rn_fieldName root \<noteq> [] then ascii '',\"fn\":\"'' @ AppendEscapedJson (rn_fieldName root) @ ascii ''\"'' else []) @
     (if children (rn_node root) \<noteq> []
      then ascii '',\"ch\":['' @ joined True (map (\<lambda>kc. render (node_json f (snd kc))) (children (rn_node root))) @ ascii '']''
      else []) @ ascii ''}''"
proof -
  have "concat (map escape_char (ascii (GetRootCategoryCode c))) = ascii (GetRootCategoryCode c)" for c
    by (cases c) (simp_all add: ascii_def escape_char_def)
  then show ?thesis
    by (simp add: root_json_def Let_def AppendEscapedJson_slow joined_def comp_def) (simp add: ascii_def)
qed

lemma node_json_cong: "(\<And>t. t \<in> set (node_types n) \<Longrightarrow> f t = g t) \<Longrightarrow> node_json f n = node_json g n"
proof (induction n rule: node_types.induct)
  case (1 tid ic ts ch)
  have "map (\<lambda>kc. node_json f (snd kc)) ch = map (\<lambda>kc. node_json g (snd kc)) ch"
    using 1 by (intro map_cong) auto
  then show ?case using 1(2) [of tid] by (simp only: node_json.simps node_types.simps list.set_intros)
qed

lemma node_json_stable:
  assumes "set (node_types n) \<subseteq> set tys" "prefix tys fin"
  shows "node_json (index_of fin) n = node_json (index_of tys) n"
  using assms by (intro node_json_cong index_of_prefix) auto

lemma AppendUInt32_index: "length tys < 2 ^ 32 \<Longrightarrow> AppendUInt32 (of_nat (index_of tys t)) = decimal (index_of tys t)"
  using length_takeWhile_le [of "\<lambda>x. x \<noteq> t" tys]
  by (simp add: AppendUInt32_def index_of_def unat_of_nat_less)

abbreviation nodes_json :: "(ClassID \<Rightarrow> nat) \<Rightarrow> (ClassID \<times> TypeTreeNode) list \<Rightarrow> u8 list list" where
  "nodes_json f ch \<equiv> map (\<lambda>kc. render (node_json f (snd kc))) ch"

lemma OutputNode_registered:
  "json_registered gn tys st \<Longrightarrow> length tys + length (node_types n) < 2 ^ 32 \<Longrightarrow>
     \<exists>st'. OutputNode gn n st = (st', render (node_json (index_of (foldl register tys (node_types n))) n))
       \<and> json_registered gn (foldl register tys (node_types n)) st'"
  "json_registered gn tys st \<Longrightarrow> length tys + length (nodes_types ch) < 2 ^ 32 \<Longrightarrow>
     \<exists>st'. OutputNodes gn first ch st = (st', joined first (nodes_json (index_of (foldl register tys (nodes_types ch))) ch))
       \<and> json_registered gn (foldl register tys (nodes_types ch)) st'"
proof (induction gn n st and gn first ch st arbitrary: tys and tys rule: OutputNode_OutputNodes.induct)
  case (1 gn tid ic ts ch st)
  let ?tys1 = "register tys tid" and ?fin = "foldl register (register tys tid) (nodes_types ch)"
  obtain st1 where st1: "JsonRegisterType gn st tid = (of_nat (index_of ?tys1 tid), st1)" "json_registered gn ?tys1 st1"
    using JsonRegisterType_registered [OF 1(2), of tid] 1(3) by auto
  obtain st2 where st2: "OutputNodes gn True ch st1 = (st2, joined True (nodes_json (index_of ?fin) ch))" "json_registered gn ?fin st2"
    using 1(1) [OF st1(1) [symmetric] refl st1(2)] 1(3) length_register [of tys tid] by auto
  have "index_of ?fin tid = index_of ?tys1 tid"
    by (rule index_of_prefix) (simp_all add: foldl_register_prefix)
  moreover have "length ?tys1 < 2 ^ 32" using 1(3) length_register [of tys tid] by simp
  ultimately show ?case
    using st1(1) st2 AppendUInt32_index [of ?tys1 tid]
    by (simp add: render_node AppendUInt64_def del: node_json.simps render.simps)
next
  case (2 gn first st)
  then show ?case by simp
next
  case (3 gn first k c ch st)
  let ?tys1 = "foldl register tys (node_types c)" and ?fin = "foldl register tys (node_types c @ nodes_types ch)"
  obtain st1 where st1: "OutputNode gn c st = (st1, render (node_json (index_of ?tys1) c))" "json_registered gn ?tys1 st1"
    using 3(1) [OF 3(3)] 3(4) by auto
  have "length ?tys1 + length (nodes_types ch) < 2 ^ 32"
    using 3(4) length_foldl_register [of tys "node_types c"] by simp
  then obtain st2 where st2: "OutputNodes gn False ch st1 = (st2, joined False (nodes_json (index_of ?fin) ch))"
      "json_registered gn ?fin st2"
    using 3(2) [OF st1(1) [symmetric] refl st1(2)] by auto
  have "node_json (index_of ?fin) c = node_json (index_of ?tys1) c"
    by (rule node_json_stable) (simp_all add: foldl_register_prefix)
  then show ?case using st1(1) st2 by simp
qed

lemma root_json_stable:
  assumes "set (root_types kr) \<subseteq> set tys" "prefix tys fin"
  shows "root_json (index_of fin) kr = root_json (index_of tys) kr"
proof -
  have "map (\<lambda>kc. node_json (index_of fin) (snd kc)) (children (rn_node (snd kr)))
      = map (\<lambda>kc. node_json (index_of tys) (snd kc)) (children (rn_node (snd kr)))"
    using assms by (intro map_cong refl node_json_stable) (auto simp: root_types_def)
  moreover have "index_of fin (rk_typeID (fst kr)) = index_of tys (rk_typeID (fst kr))"
    using assms by (intro index_of_prefix) (auto simp: root_types_def)
  ultimately show ?thesis by (simp only: root_json_def Let_def)
qed

lemma OutputRoots_registered:
  "json_registered gn tys st \<Longrightarrow> length tys + length (tree_types tree) < 2 ^ 32 \<Longrightarrow>
     \<exists>st'. OutputRoots gn first tree st =
         (st', joined first (map (\<lambda>kr. render (root_json (index_of (foldl register tys (tree_types tree))) kr)) tree))
       \<and> json_registered gn (foldl register tys (tree_types tree)) st'"
proof (induction gn first tree st arbitrary: tys rule: OutputRoots.induct)
  case (2 gn first key root roots st)
  let ?t = "rk_typeID key" and ?ch = "children (rn_node root)"
  let ?tys1 = "register tys ?t" and ?tys2 = "foldl register tys (root_types (key, root))"
  let ?fin = "foldl register tys (tree_types ((key, root) # roots))"
  obtain st1 where st1: "JsonRegisterType gn st ?t = (of_nat (index_of ?tys1 ?t), st1)" "json_registered gn ?tys1 st1"
    using JsonRegisterType_registered [OF 2(2), of ?t] 2(3) by auto
  have tys2: "?tys2 = foldl register ?tys1 (nodes_types ?ch)" by (simp add: root_types_def)
  have len1: "length ?tys1 + length (nodes_types ?ch) < 2 ^ 32"
    using 2(3) length_register [of tys ?t] by (simp add: root_types_def)
  then obtain st2 where st2: "OutputNodes gn True ?ch st1 = (st2, joined True (nodes_json (index_of ?tys2) ?ch))"
      "json_registered gn ?tys2 st2"
    using OutputNode_registered(2) [OF st1(2), of ?ch True] unfolding tys2 by auto
  have "length ?tys2 + length (tree_types roots) < 2 ^ 32"
    using 2(3) length_foldl_register [of tys "root_types (key, root)"] by simp
  then obtain st3 where st3: "OutputRoots gn False roots st2 =
        (st3, joined False (map (\<lambda>kr. render (root_json (index_of ?fin) kr)) roots))" "json_registered gn ?fin st3"
    using 2(1) [OF st1(1) [symmetric] refl refl st2(1) [symmetric] refl st2(2)] by auto
  have idx: "index_of ?tys2 ?t = index_of ?tys1 ?t"
    unfolding tys2 by (rule index_of_prefix) (simp_all add: foldl_register_prefix)
  have "root_json (index_of ?fin) (key, root) = root_json (index_of ?tys2) (key, root)"
    by (rule root_json_stable) (simp_all add: foldl_register_prefix)
  then have "render (root_json (index_of ?fin) (key, root)) = render (root_json (index_of ?tys2) (key, root))" by simp
  moreover have "AppendUInt32 (of_nat (index_of ?tys1 ?t)) = decimal (index_of ?tys1 ?t)"
    using len1 by (intro AppendUInt32_index) simp
  ultimately show ?case
    using st1(1) st2(1) st3 idx
    by (simp add: render_root AppendUInt64_def Let_def del: render.simps) (simp add: ascii_def)
qed simp

section \<open>Properties\<close>




end
