(* ===== verification/Threads.thy ===== *)
theory Threads
  imports Utf Transition
begin

unbundle bit_operations_syntax

text \<open>
  The managed threads of the profiled process (\<open>ManagedThreadInfo\<close> and \<open>ManagedThreadList\<close>). The
  objects behind the \<open>std::shared_ptr\<close>s live in a heap, because the vector, the two indexes and the
  callers share them; a pointer is a natural number. Every operation of the list runs under its
  recursive mutex, so an operation is one step. The size of the dynamic strings, which
  \<open>GetMemorySize\<close> takes from \<open>capacity()\<close>, and the answers of the CLR are parameters.
\<close>

section \<open>Thread information\<close>

datatype ContentionType = ContentionUnknown | ContentionLock | ContentionWait

record TraceContext =
  tc_currentLocalRootSpanId :: u64
  tc_currentTraceIdHi :: u64
  tc_currentTraceIdLo :: u64

text \<open>
  The two profile strings are computed once (\<open>std::call_once\<close>): \<open>None\<close> until then. The handle is the
  value held by the \<open>ScopedHandle\<close>. Times are integers in their C++ unit.
\<close>

record ManagedThreadInfo =
  ti_profilerThreadInfoId :: u32
  ti_clrThreadId :: u64
  ti_osThreadId :: u32
  ti_osThreadHandle :: u64
  ti_threadName :: "u16 list"
  ti_profileThreadId :: "u8 list option"
  ti_profileThreadName :: "u8 list option"
  ti_lastSampleTimestamp :: int
  ti_cpuConsumption :: int
  ti_timestamp :: int
  ti_deadlockTotalCount :: u64
  ti_deadlockInPeriodCount :: u64
  ti_deadlockDetectionPeriod :: u64
  ti_isThreadDestroyed :: bool
  ti_writeGuard :: u64
  ti_context :: TraceContext
  ti_sharedMemory :: "int option"
  ti_timerId :: "32 word"
  ti_stackBase :: u64
  ti_stackEnd :: u64
  ti_blockingThreadId :: u64
  ti_blockingThreadName :: "u16 list"
  ti_waitStartTimestamp :: int
  ti_contentionType :: ContentionType

definition MaxProfilerThreadInfoId :: u32 where
  "MaxProfilerThreadInfoId = 0xFFFFFF"

text \<open>
  \<open>GenerateProfilerThreadInfoId\<close> on the value of the static counter, in the absence of other threads:
  the identifier and the new value of the counter.
\<close>

partial_function (option) generate_loop :: "u32 \<Rightarrow> u32 \<Rightarrow> (u32 \<times> u32) option" where
  "generate_loop newId counter =
     (if newId \<ge> MaxProfilerThreadInfoId
      then if counter = newId then generate_loop 1 1 else generate_loop counter (counter + 1)
      else Some (newId, counter))"

definition GenerateProfilerThreadInfoId :: "u32 \<Rightarrow> (u32 \<times> u32) option" where
  "GenerateProfilerThreadInfoId counter = generate_loop counter (counter + 1)"

definition newManagedThreadInfo :: "u32 \<Rightarrow> u64 \<Rightarrow> ManagedThreadInfo" where
  "newManagedThreadInfo infoId clrThreadId =
     \<lparr>ti_profilerThreadInfoId = infoId, ti_clrThreadId = clrThreadId, ti_osThreadId = 0, ti_osThreadHandle = 0,
      ti_threadName = [], ti_profileThreadId = None, ti_profileThreadName = None, ti_lastSampleTimestamp = 0,
      ti_cpuConsumption = 0, ti_timestamp = 0, ti_deadlockTotalCount = 0, ti_deadlockInPeriodCount = 0,
      ti_deadlockDetectionPeriod = 0, ti_isThreadDestroyed = False, ti_writeGuard = 0,
      ti_context = \<lparr>tc_currentLocalRootSpanId = 0, tc_currentTraceIdHi = 0, tc_currentTraceIdLo = 0\<rparr>,
      ti_sharedMemory = None, ti_timerId = -1, ti_stackBase = 0, ti_stackEnd = 0, ti_blockingThreadId = 0,
      ti_blockingThreadName = [], ti_waitStartTimestamp = 0, ti_contentionType = ContentionUnknown\<rparr>"

definition BuildProfileThreadId :: "ManagedThreadInfo \<Rightarrow> u8 list" where
  "BuildProfileThreadId t = decimal (unat (ti_osThreadId t))"

definition BuildProfileThreadName :: "ManagedThreadInfo \<Rightarrow> u8 list" where
  "BuildProfileThreadName t = (if ti_threadName t = [] then [] else to_utf8 (ti_threadName t))"

definition GetProfileThreadId :: "ManagedThreadInfo \<Rightarrow> u8 list \<times> ManagedThreadInfo" where
  "GetProfileThreadId t =
     (case ti_profileThreadId t of
        Some s \<Rightarrow> (s, t)
      | None \<Rightarrow> (BuildProfileThreadId t, t\<lparr>ti_profileThreadId := Some (BuildProfileThreadId t)\<rparr>))"

definition GetProfileThreadName :: "ManagedThreadInfo \<Rightarrow> u8 list \<times> ManagedThreadInfo" where
  "GetProfileThreadName t =
     (case ti_profileThreadName t of
        Some s \<Rightarrow> (s, t)
      | None \<Rightarrow> (BuildProfileThreadName t, t\<lparr>ti_profileThreadName := Some (BuildProfileThreadName t)\<rparr>))"

definition SetOsInfo :: "u32 \<Rightarrow> u64 \<Rightarrow> ManagedThreadInfo \<Rightarrow> ManagedThreadInfo" where
  "SetOsInfo osThreadId osThreadHandle t =
     snd (GetProfileThreadId (t\<lparr>ti_osThreadId := osThreadId, ti_osThreadHandle := osThreadHandle\<rparr>))"

definition SetName :: "u16 list \<Rightarrow> ManagedThreadInfo \<Rightarrow> ManagedThreadInfo" where
  "SetName name t = snd (GetProfileThreadName (t\<lparr>ti_threadName := name\<rparr>))"

definition SetLastSampleTimestamp :: "int \<Rightarrow> ManagedThreadInfo \<Rightarrow> int \<times> ManagedThreadInfo" where
  "SetLastSampleTimestamp v t = (ti_lastSampleTimestamp t, t\<lparr>ti_lastSampleTimestamp := v\<rparr>)"

definition SetCpuConsumption :: "int \<Rightarrow> int \<Rightarrow> ManagedThreadInfo \<Rightarrow> int \<times> ManagedThreadInfo" where
  "SetCpuConsumption v timestamp t = (ti_cpuConsumption t, t\<lparr>ti_timestamp := timestamp, ti_cpuConsumption := v\<rparr>)"

definition GetOrResetDeadlocksCount :: "u64 \<Rightarrow> ManagedThreadInfo \<Rightarrow> u64 \<times> u64 \<times> ManagedThreadInfo" where
  "GetOrResetDeadlocksCount period t =
     (let prev = ti_deadlockInPeriodCount t;
          t1 = (if ti_deadlockDetectionPeriod t \<noteq> period
                then t\<lparr>ti_deadlockInPeriodCount := 0, ti_deadlockDetectionPeriod := period\<rparr> else t)
      in (prev, ti_deadlockInPeriodCount t1, t1))"

definition IncDeadlocksCount :: "ManagedThreadInfo \<Rightarrow> ManagedThreadInfo" where
  "IncDeadlocksCount t = t\<lparr>ti_deadlockTotalCount := ti_deadlockTotalCount t + 1,
     ti_deadlockInPeriodCount := ti_deadlockInPeriodCount t + 1\<rparr>"

definition GetDeadlocksCount :: "ManagedThreadInfo \<Rightarrow> u64 \<times> u64 \<times> u64" where
  "GetDeadlocksCount t = (ti_deadlockTotalCount t, ti_deadlockInPeriodCount t, ti_deadlockDetectionPeriod t)"

definition SetThreadDestroyed :: "ManagedThreadInfo \<Rightarrow> ManagedThreadInfo" where
  "SetThreadDestroyed t = t\<lparr>ti_isThreadDestroyed := True\<rparr>"

definition SetBlockingThread :: "u64 \<Rightarrow> u16 list \<Rightarrow> ManagedThreadInfo \<Rightarrow> (u64 \<times> u16 list) \<times> ManagedThreadInfo" where
  "SetBlockingThread osThreadId name t =
     ((ti_blockingThreadId t, ti_blockingThreadName t),
      t\<lparr>ti_blockingThreadId := osThreadId, ti_blockingThreadName := name\<rparr>)"

text \<open>The guard is non-zero while the managed side writes the context.\<close>

definition CanReadTraceContext :: "ManagedThreadInfo \<Rightarrow> bool" where
  "CanReadTraceContext t \<longleftrightarrow> ti_writeGuard t = 0"

definition GetTracingContext :: "ManagedThreadInfo \<Rightarrow> TraceContext" where
  "GetTracingContext t =
     (if CanReadTraceContext t then ti_context t
      else \<lparr>tc_currentLocalRootSpanId = 0, tc_currentTraceIdHi = 0, tc_currentTraceIdLo = 0\<rparr>)"

definition HasTraceContext :: "ManagedThreadInfo \<Rightarrow> bool" where
  "HasTraceContext t \<longleftrightarrow>
     (if CanReadTraceContext t
      then let c = GetTracingContext t
           in tc_currentLocalRootSpanId c \<noteq> 0 \<and> tc_currentTraceIdHi c \<noteq> 0 \<and> tc_currentTraceIdLo c \<noteq> 0
      else False)"

definition CanBeInterrupted :: "ManagedThreadInfo \<Rightarrow> bool" where
  "CanBeInterrupted t \<longleftrightarrow> ti_sharedMemory t = None"

definition MarkAsInterrupted :: "ManagedThreadInfo \<Rightarrow> ManagedThreadInfo" where
  "MarkAsInterrupted t = (case ti_sharedMemory t of None \<Rightarrow> t | Some _ \<Rightarrow> t\<lparr>ti_sharedMemory := Some 1\<rparr>)"

definition SetTimerId :: "32 word \<Rightarrow> ManagedThreadInfo \<Rightarrow> 32 word \<times> ManagedThreadInfo" where
  "SetTimerId timerId t = (ti_timerId t, t\<lparr>ti_timerId := timerId\<rparr>)"

definition SetSharedMemory :: "int option \<Rightarrow> ManagedThreadInfo \<Rightarrow> ManagedThreadInfo" where
  "SetSharedMemory memoryArea t = t\<lparr>ti_sharedMemory := memoryArea\<rparr>"

definition SetWaitStart :: "int \<Rightarrow> ManagedThreadInfo \<Rightarrow> ManagedThreadInfo" where
  "SetWaitStart timestamp t = t\<lparr>ti_waitStartTimestamp := timestamp\<rparr>"

definition SetContentionType :: "ContentionType \<Rightarrow> ManagedThreadInfo \<Rightarrow> ManagedThreadInfo" where
  "SetContentionType contentionType t = t\<lparr>ti_contentionType := contentionType\<rparr>"

definition SetStackBounds :: "u64 \<Rightarrow> u64 \<Rightarrow> ManagedThreadInfo \<Rightarrow> ManagedThreadInfo" where
  "SetStackBounds stackBase stackEnd t = t\<lparr>ti_stackBase := stackBase, ti_stackEnd := stackEnd\<rparr>"

section \<open>The list of threads\<close>

record ManagedThreadList =
  tl_threads :: "nat list"
  tl_lookupByClrThreadId :: "u64 \<rightharpoonup> nat"
  tl_lookupByOsThreadId :: "u32 \<rightharpoonup> nat"
  tl_iterators :: "u32 list"
  tl_highCount :: u32
  tl_lowCount :: u32
  tl_cachedItemsSize :: u64
  tl_heap :: "nat \<Rightarrow> ManagedThreadInfo"
  tl_fresh :: nat
  tl_nextInfoId :: u32

abbreviation clr_of :: "ManagedThreadList \<Rightarrow> nat \<Rightarrow> u64" where
  "clr_of l p \<equiv> ti_clrThreadId (tl_heap l p)"

definition newManagedThreadList :: ManagedThreadList where
  "newManagedThreadList = \<lparr>tl_threads = [], tl_lookupByClrThreadId = Map.empty, tl_lookupByOsThreadId = Map.empty,
     tl_iterators = [], tl_highCount = 0, tl_lowCount = 0, tl_cachedItemsSize = 0,
     tl_heap = (\<lambda>_. newManagedThreadInfo 0 0), tl_fresh = 0, tl_nextInfoId = 1\<rparr>"

definition FindByClrId :: "u64 \<Rightarrow> ManagedThreadList \<Rightarrow> nat option" where
  "FindByClrId clrThreadId l = (if tl_threads l = [] then None else tl_lookupByClrThreadId l clrThreadId)"

text \<open>\<open>make_shared<ManagedThreadInfo>\<close>: a fresh object with the next identifier.\<close>

definition make_thread_info :: "u64 \<Rightarrow> ManagedThreadList \<Rightarrow> (nat \<times> ManagedThreadList) option" where
  "make_thread_info clrThreadId l =
     (case GenerateProfilerThreadInfoId (tl_nextInfoId l) of
        None \<Rightarrow> None
      | Some (infoId, counter) \<Rightarrow>
          Some (tl_fresh l, l\<lparr>tl_heap := (tl_heap l)(tl_fresh l := newManagedThreadInfo infoId clrThreadId),
                             tl_fresh := Suc (tl_fresh l), tl_nextInfoId := counter\<rparr>))"

definition GetOrCreate :: "(ManagedThreadInfo \<Rightarrow> u64) \<Rightarrow> u64 \<Rightarrow> ManagedThreadList \<Rightarrow> (nat \<times> ManagedThreadList) option" where
  "GetOrCreate GetMemorySize clrThreadId l =
     (case FindByClrId clrThreadId l of
        Some p \<Rightarrow> Some (p, l)
      | None \<Rightarrow>
          (case make_thread_info clrThreadId l of
             None \<Rightarrow> None
           | Some (p, l1) \<Rightarrow>
               let l2 = l1\<lparr>tl_threads := tl_threads l1 @ [p],
                     tl_lookupByClrThreadId := (tl_lookupByClrThreadId l1)(clrThreadId \<mapsto> p),
                     tl_cachedItemsSize := tl_cachedItemsSize l1 + GetMemorySize (tl_heap l1 p)\<rparr>;
                   currentCount = length (tl_threads l2)
               in Some (p, if unat (tl_highCount l2) \<le> currentCount
                           then l2\<lparr>tl_highCount := of_nat currentCount\<rparr> else l2)))"

definition update_iterator :: "u32 \<Rightarrow> nat \<Rightarrow> u32 \<Rightarrow> u32" where
  "update_iterator removalPos n i =
     (let pos = (if removalPos < i then i - 1 else i)
      in if unat pos \<ge> n then 0 else pos)"

definition UpdateIterators :: "u32 \<Rightarrow> ManagedThreadList \<Rightarrow> ManagedThreadList" where
  "UpdateIterators removalPos l =
     l\<lparr>tl_iterators := map (update_iterator removalPos (length (tl_threads l))) (tl_iterators l)\<rparr>"

text \<open>The search of \<open>UnregisterThread\<close>: the position of the first thread with the identifier.\<close>

fun find_pos :: "(nat \<Rightarrow> u64) \<Rightarrow> u64 \<Rightarrow> nat list \<Rightarrow> nat \<Rightarrow> (nat \<times> nat) option" where
  "find_pos clr clrThreadId [] pos = None"
| "find_pos clr clrThreadId (p # ps) pos =
     (if clr p = clrThreadId then Some (pos, p) else find_pos clr clrThreadId ps (pos + 1))"

definition UnregisterThread :: "(ManagedThreadInfo \<Rightarrow> u64) \<Rightarrow> u64 \<Rightarrow> ManagedThreadList \<Rightarrow> nat option \<times> ManagedThreadList" where
  "UnregisterThread GetMemorySize clrThreadId l =
     (case find_pos (clr_of l) clrThreadId (tl_threads l) 0 of
        None \<Rightarrow> (None, l)
      | Some (pos, p) \<Rightarrow>
          let l1 = l\<lparr>tl_cachedItemsSize := tl_cachedItemsSize l - GetMemorySize (tl_heap l p),
                tl_threads := take pos (tl_threads l) @ drop (Suc pos) (tl_threads l),
                tl_lookupByClrThreadId := (tl_lookupByClrThreadId l)(clr_of l p := None),
                tl_lookupByOsThreadId := (tl_lookupByOsThreadId l)(ti_osThreadId (tl_heap l p) := None)\<rparr>;
              l2 = UpdateIterators (of_nat pos) l1
          in (Some p, l2\<lparr>tl_lowCount := (if tl_lowCount l2 = 0 then of_nat (length (tl_threads l2))
                                          else tl_lowCount l2 - 1)\<rparr>))"

definition SetThreadOsInfo :: "(ManagedThreadInfo \<Rightarrow> u64) \<Rightarrow> u64 \<Rightarrow> u32 \<Rightarrow> u64 \<Rightarrow> ManagedThreadList \<Rightarrow> ManagedThreadList option" where
  "SetThreadOsInfo GetMemorySize clrThreadId osThreadId osThreadHandle l =
     (case GetOrCreate GetMemorySize clrThreadId l of
        None \<Rightarrow> None
      | Some (p, l1) \<Rightarrow>
          Some (l1\<lparr>tl_heap := (tl_heap l1)(p := SetOsInfo osThreadId osThreadHandle (tl_heap l1 p)),
                   tl_lookupByOsThreadId := (tl_lookupByOsThreadId l1)(osThreadId \<mapsto> p)\<rparr>))"

definition SetThreadName :: "(ManagedThreadInfo \<Rightarrow> u64) \<Rightarrow> u64 \<Rightarrow> u16 list \<Rightarrow> ManagedThreadList \<Rightarrow> ManagedThreadList option" where
  "SetThreadName GetMemorySize clrThreadId threadName l =
     (case GetOrCreate GetMemorySize clrThreadId l of
        None \<Rightarrow> None
      | Some (p, l1) \<Rightarrow> Some (l1\<lparr>tl_heap := (tl_heap l1)(p := SetName threadName (tl_heap l1 p))\<rparr>))"

definition ThreadCount :: "ManagedThreadList \<Rightarrow> u32" where
  "ThreadCount l = of_nat (length (tl_threads l))"

definition GetHighCountAndReset :: "ManagedThreadList \<Rightarrow> u32 \<times> ManagedThreadList" where
  "GetHighCountAndReset l = (tl_highCount l, l\<lparr>tl_highCount := of_nat (length (tl_threads l))\<rparr>)"

definition GetLowCountAndReset :: "ManagedThreadList \<Rightarrow> u32 \<times> ManagedThreadList" where
  "GetLowCountAndReset l =
     (let currentLow = tl_lowCount l; l1 = l\<lparr>tl_lowCount := of_nat (length (tl_threads l))\<rparr>
      in (if currentLow = 0 then tl_lowCount l1 else currentLow, l1))"

definition CreateIterator :: "ManagedThreadList \<Rightarrow> u32 \<times> ManagedThreadList" where
  "CreateIterator l = (of_nat (length (tl_iterators l)), l\<lparr>tl_iterators := tl_iterators l @ [0]\<rparr>)"

definition INVALID_HANDLE_VALUE :: u64 where
  "INVALID_HANDLE_VALUE = -1"

definition bad_handle :: "ManagedThreadInfo \<Rightarrow> bool" where
  "bad_handle t \<longleftrightarrow> ti_osThreadHandle t = 0 \<or> ti_osThreadHandle t = INVALID_HANDLE_VALUE"

text \<open>The \<open>do ... while\<close> loop of \<open>LoopNext\<close>: the last thread it looked at, and the final position.\<close>

partial_function (option) loop_next :: "(nat \<Rightarrow> ManagedThreadInfo) \<Rightarrow> nat list \<Rightarrow> u32 \<Rightarrow> u32 \<Rightarrow> (nat \<times> u32) option" where
  "loop_next heap threads startPos pos =
     (let p = threads ! unat pos; pos1 = of_nat (unat (pos + 1) mod length threads)
      in if startPos \<noteq> pos1 \<and> bad_handle (heap p) then loop_next heap threads startPos pos1
         else Some (p, pos1))"

definition LoopNext :: "u32 \<Rightarrow> ManagedThreadList \<Rightarrow> (nat option \<times> ManagedThreadList) option" where
  "LoopNext iterator l =
     (if length (tl_threads l) = 0 then Some (None, l)
      else if unat iterator \<ge> length (tl_iterators l) then Some (None, l)
      else let startPos = tl_iterators l ! unat iterator
           in case loop_next (tl_heap l) (tl_threads l) startPos startPos of
                None \<Rightarrow> None
              | Some (p, pos) \<Rightarrow>
                  let l1 = l\<lparr>tl_iterators := (tl_iterators l)[unat iterator := pos]\<rparr>
                  in Some (if startPos = pos then None else Some p, l1))"

text \<open>
  The outcome of the CLR's \<open>GetCurrentThreadID\<close>: the error code or the identifier. \<open>None\<close> for the
  whole argument: no CLR interface.
\<close>

datatype hresult = S_OK | E_FAIL | HRError u32

definition TryGetCurrentThreadInfo :: "(u32 + u64) option \<Rightarrow> ManagedThreadList \<Rightarrow> hresult \<times> nat option" where
  "TryGetCurrentThreadInfo clr l =
     (case clr of
        None \<Rightarrow> (E_FAIL, None)
      | Some (Inl hr) \<Rightarrow> (HRError hr, None)
      | Some (Inr clrThreadId) \<Rightarrow>
          if clrThreadId = 0 then (E_FAIL, None)
          else case FindByClrId clrThreadId l of Some p \<Rightarrow> (S_OK, Some p) | None \<Rightarrow> (E_FAIL, None))"

definition TryGetThreadInfo :: "u32 \<Rightarrow> ManagedThreadList \<Rightarrow> nat option" where
  "TryGetThreadInfo osThreadId l = (if tl_threads l = [] then None else tl_lookupByOsThreadId l osThreadId)"

definition RegisterThread :: "(ManagedThreadInfo \<Rightarrow> u64) \<Rightarrow> nat \<Rightarrow> ManagedThreadList \<Rightarrow> bool \<times> ManagedThreadList" where
  "RegisterThread GetMemorySize p l =
     (case tl_lookupByClrThreadId l (clr_of l p) of
        Some _ \<Rightarrow> (False, l)
      | None \<Rightarrow>
          (True, l\<lparr>tl_lookupByClrThreadId := (tl_lookupByClrThreadId l)(clr_of l p \<mapsto> p),
                   tl_threads := tl_threads l @ [p],
                   tl_cachedItemsSize := tl_cachedItemsSize l + GetMemorySize (tl_heap l p)\<rparr>))"

definition ForEach :: "('a \<Rightarrow> ManagedThreadInfo \<Rightarrow> 'a) \<Rightarrow> 'a \<Rightarrow> ManagedThreadList \<Rightarrow> 'a" where
  "ForEach callback a l = foldl (\<lambda>a p. callback a (tl_heap l p)) a (tl_threads l)"

text \<open>
  The operations of the list, as the callers interleave them. Threads are also created outside the
  list and registered later. The scan of \<open>LoopNext\<close> needs positions that fit in 32 bits.
\<close>

inductive list_step :: "(ManagedThreadInfo \<Rightarrow> u64) \<Rightarrow> ManagedThreadList \<Rightarrow> ManagedThreadList \<Rightarrow> bool"
  for GetMemorySize :: "ManagedThreadInfo \<Rightarrow> u64" where
  get_or_create: "GetOrCreate GetMemorySize t l = Some (p, l') \<Longrightarrow> list_step GetMemorySize l l'"
| unregister: "UnregisterThread GetMemorySize t l = (r, l') \<Longrightarrow> list_step GetMemorySize l l'"
| set_os_info: "SetThreadOsInfo GetMemorySize t os h l = Some l' \<Longrightarrow> list_step GetMemorySize l l'"
| set_name: "SetThreadName GetMemorySize t name l = Some l' \<Longrightarrow> list_step GetMemorySize l l'"
| new_thread: "make_thread_info t l = Some (p, l') \<Longrightarrow> list_step GetMemorySize l l'"
| register: "p < tl_fresh l \<Longrightarrow> RegisterThread GetMemorySize p l = (r, l') \<Longrightarrow> list_step GetMemorySize l l'"
| create_iterator: "CreateIterator l = (i, l') \<Longrightarrow> list_step GetMemorySize l l'"
| loop_next_thread: "LoopNext i l = Some (r, l') \<Longrightarrow> length (tl_threads l) < 2 ^ 32 \<Longrightarrow> list_step GetMemorySize l l'"
| high_count: "GetHighCountAndReset l = (c, l') \<Longrightarrow> list_step GetMemorySize l l'"
| low_count: "GetLowCountAndReset l = (c, l') \<Longrightarrow> list_step GetMemorySize l l'"

text \<open>The registry that the list implements: the information of a registered thread, by its CLR identifier.\<close>

definition registry :: "ManagedThreadList \<Rightarrow> u64 \<rightharpoonup> ManagedThreadInfo" where
  "registry l t = map_option (tl_heap l) (FindByClrId t l)"

text \<open>Successive calls of \<open>LoopNext\<close> on one iterator: the threads they return.\<close>

fun loop_many :: "nat \<Rightarrow> u32 \<Rightarrow> ManagedThreadList \<Rightarrow> nat option list option" where
  "loop_many 0 it l = Some []"
| "loop_many (Suc k) it l =
     (case LoopNext it l of
        None \<Rightarrow> None
      | Some (r, l1) \<Rightarrow> (case loop_many k it l1 of None \<Rightarrow> None | Some rs \<Rightarrow> Some (r # rs)))"

section \<open>Identifiers\<close>

lemma unat_Max: "unat MaxProfilerThreadInfoId = 16777215"
  by (simp add: MaxProfilerThreadInfoId_def)

lemma generate_loop_small: "newId < MaxProfilerThreadInfoId \<Longrightarrow> generate_loop newId counter = Some (newId, counter)"
  by (subst generate_loop.simps) (auto dest: leD)

text \<open>
  From the limit on, the exchange compares the counter with the identifier that was taken before the
  increment, so it never succeeds; the loop runs until the counter wraps around.
\<close>

lemma generate_loop_wraps:
  "MaxProfilerThreadInfoId \<le> newId \<Longrightarrow> generate_loop newId (newId + 1) = Some (0, 1)"
proof (induction "2 ^ 32 - unat newId" arbitrary: newId rule: less_induct)
  case less
  have ne: "newId + 1 \<noteq> newId" by simp
  then have step: "generate_loop newId (newId + 1) = generate_loop (newId + 1) (newId + 1 + 1)"
    using less.prems by (subst generate_loop.simps) simp
  show ?case
  proof (cases "newId = -1")
    case True
    then show ?thesis using step by (simp add: generate_loop_small MaxProfilerThreadInfoId_def)
  next
    case False
    have "unat (-1 :: u32) = 2 ^ 32 - 1" by (simp add: unsigned_minus_1_eq_mask mask_eq_exp_minus_1)
    then have "unat newId \<noteq> 2 ^ 32 - 1" using False unat_eqI [of newId "-1"] by auto
    moreover have "unat newId < 2 ^ 32" by (rule order_less_le_trans [OF unsigned_less]) simp
    ultimately have lt: "unat newId + 1 < 2 ^ 32" by simp
    then have u: "unat (newId + 1) = unat newId + 1" by (simp add: unat_word_ariths)
    then have "MaxProfilerThreadInfoId \<le> newId + 1" using less.prems by (simp add: word_le_nat_alt)
    then show ?thesis using less.hyps [of "newId + 1"] u lt step by simp
  qed
qed

section \<open>Invariant of the list\<close>

definition wf_list :: "ManagedThreadList \<Rightarrow> bool" where
  "wf_list l \<longleftrightarrow> distinct (tl_threads l) \<and> distinct (map (clr_of l) (tl_threads l))
     \<and> (\<forall>t p. tl_lookupByClrThreadId l t = Some p \<longleftrightarrow> p \<in> set (tl_threads l) \<and> clr_of l p = t)
     \<and> (\<forall>p \<in> set (tl_threads l). p < tl_fresh l)
     \<and> (\<forall>i \<in> set (tl_iterators l). unat i < length (tl_threads l) \<or> i = 0)"

lemma FindByClrId_iff:
  "wf_list l \<Longrightarrow> FindByClrId t l = Some p \<longleftrightarrow> p \<in> set (tl_threads l) \<and> clr_of l p = t"
  by (auto simp: FindByClrId_def wf_list_def)

lemma FindByClrId_None:
  "wf_list l \<Longrightarrow> FindByClrId t l = None \<longleftrightarrow> t \<notin> clr_of l ` set (tl_threads l)"
  by (cases "FindByClrId t l") (auto simp: FindByClrId_iff dest: FindByClrId_iff [THEN iffD2])

lemma make_thread_info_total: "\<exists>r. make_thread_info t l = Some r"
proof (cases "tl_nextInfoId l < MaxProfilerThreadInfoId")
  case True
  then show ?thesis by (simp add: make_thread_info_def GenerateProfilerThreadInfoId_def generate_loop_small)
next
  case False
  then show ?thesis by (simp add: make_thread_info_def GenerateProfilerThreadInfoId_def generate_loop_wraps not_less)
qed

lemma make_thread_info_effect:
  assumes "make_thread_info t l = Some (p, l1)"
  shows "p = tl_fresh l" "tl_fresh l1 = Suc p" "\<exists>k. tl_heap l1 = (tl_heap l)(p := newManagedThreadInfo k t)"
    "tl_threads l1 = tl_threads l" "tl_lookupByClrThreadId l1 = tl_lookupByClrThreadId l"
    "tl_lookupByOsThreadId l1 = tl_lookupByOsThreadId l" "tl_iterators l1 = tl_iterators l"
    "tl_highCount l1 = tl_highCount l" "tl_lowCount l1 = tl_lowCount l" "tl_cachedItemsSize l1 = tl_cachedItemsSize l"
  using assms by (auto simp: make_thread_info_def split: option.splits prod.splits)

text \<open>The part of the state that the invariant and the lookups see.\<close>

lemma wf_list_insert:
  assumes "wf_list l" and "p \<notin> set (tl_threads l)" and "p < tl_fresh l'" and "clr \<notin> clr_of l ` set (tl_threads l)"
    and "tl_threads l' = tl_threads l @ [p]" and "tl_lookupByClrThreadId l' = (tl_lookupByClrThreadId l)(clr \<mapsto> p)"
    and "clr_of l' p = clr" and "\<And>q. q \<in> set (tl_threads l) \<Longrightarrow> clr_of l' q = clr_of l q"
    and "tl_iterators l' = tl_iterators l" and "tl_fresh l \<le> tl_fresh l'"
  shows "wf_list l'"
proof -
  let ?ts = "tl_threads l"
  have clr: "clr_of l' ` set ?ts = clr_of l ` set ?ts" using assms(8) by (rule image_cong [OF refl])
  have map: "map (clr_of l') ?ts = map (clr_of l) ?ts" using assms(8) by simp
  have "distinct (map (clr_of l') ?ts)" unfolding map using assms(1) by (simp add: wf_list_def)
  then have "distinct (map (clr_of l') (tl_threads l'))" using assms(4,7) clr by (simp add: assms(5))
  moreover have "tl_lookupByClrThreadId l' t = Some q \<longleftrightarrow> q \<in> set (tl_threads l') \<and> clr_of l' q = t" for t q
  proof (cases "q = p")
    case True
    have "tl_lookupByClrThreadId l t \<noteq> Some p" using assms(1,2) by (simp add: wf_list_def)
    then show ?thesis using True assms(5-7) by auto
  next
    case False
    have "tl_lookupByClrThreadId l t = Some q \<longleftrightarrow> q \<in> set ?ts \<and> clr_of l q = t" using assms(1) by (simp add: wf_list_def)
    moreover have "clr_of l q \<noteq> clr" if "q \<in> set ?ts" using assms(4) that by auto
    ultimately show ?thesis using False assms(5-8) by auto
  qed
  moreover have "q < tl_fresh l'" if "q \<in> set ?ts" for q
    using assms(1,10) that by (auto simp: wf_list_def intro: less_le_trans)
  moreover have "distinct (tl_threads l')" using assms(1,2) by (simp add: assms(5) wf_list_def)
  moreover have "unat i < length (tl_threads l') \<or> i = 0" if "i \<in> set (tl_iterators l')" for i
    using assms(1,5,9) that by (auto simp: wf_list_def intro: less_SucI)
  ultimately show ?thesis using assms(3) by (simp add: wf_list_def assms(5))
qed

lemma wf_list_same:
  assumes "wf_list l" and "tl_threads l' = tl_threads l" and "tl_lookupByClrThreadId l' = tl_lookupByClrThreadId l"
    and "\<And>q. clr_of l' q = clr_of l q" and "tl_iterators l' = tl_iterators l" and "tl_fresh l' = tl_fresh l"
  shows "wf_list l'"
  using assms by (simp add: wf_list_def)

lemma GetOrCreate_spec:
  assumes wf: "wf_list l"
  shows "\<exists>p l'. GetOrCreate sz t l = Some (p, l') \<and> wf_list l' \<and> p \<in> set (tl_threads l') \<and> clr_of l' p = t
     \<and> tl_threads l' = tl_threads l @ (if FindByClrId t l = None then [p] else [])
     \<and> tl_iterators l' = tl_iterators l \<and> (FindByClrId t l \<noteq> None \<longrightarrow> l' = l)
     \<and> (\<forall>q \<in> set (tl_threads l). tl_heap l' q = tl_heap l q)"
proof (cases "FindByClrId t l")
  case (Some p)
  then show ?thesis using wf FindByClrId_iff [OF wf, of t p] by (simp add: GetOrCreate_def)
next
  case None
  obtain p l1 where new: "make_thread_info t l = Some (p, l1)" using make_thread_info_total [of t l] by auto
  note eff = make_thread_info_effect [OF new]
  obtain k where heap: "tl_heap l1 = (tl_heap l)(p := newManagedThreadInfo k t)" using eff(3) by blast
  obtain l' where l': "GetOrCreate sz t l = Some (p, l')" "tl_threads l' = tl_threads l @ [p]"
    "tl_lookupByClrThreadId l' = (tl_lookupByClrThreadId l)(t \<mapsto> p)" "tl_heap l' = tl_heap l1"
    "tl_iterators l' = tl_iterators l" "tl_fresh l' = Suc (tl_fresh l)"
    using None new eff by (simp add: GetOrCreate_def Let_def)
  have fresh: "p \<notin> set (tl_threads l)" using wf eff(1) by (auto simp: wf_list_def)
  have clr: "clr_of l' p = t" "\<And>q. q \<in> set (tl_threads l) \<Longrightarrow> tl_heap l' q = tl_heap l q"
    using heap fresh l'(4) by (auto simp: newManagedThreadInfo_def)
  have "wf_list l'"
    by (rule wf_list_insert [OF wf fresh, where clr = t])
      (use l' eff(1) clr None FindByClrId_None [OF wf] in auto)
  then show ?thesis using l' clr None by auto
qed

lemma find_pos_Some:
  "find_pos clr t ps k = Some (pos, p) \<Longrightarrow> k \<le> pos \<and> pos - k < length ps \<and> ps ! (pos - k) = p \<and> clr p = t"
proof (induction clr t ps k rule: find_pos.induct)
  case (2 clr t q ps k)
  show ?case
  proof (cases "clr q = t")
    case False
    then have "k + 1 \<le> pos \<and> pos - (k + 1) < length ps \<and> ps ! (pos - (k + 1)) = p \<and> clr p = t" using 2 by simp
    moreover from this have "pos - k = Suc (pos - (k + 1))" by (simp add: Suc_diff_Suc Suc_le_eq)
    ultimately show ?thesis by simp
  qed (use 2 in auto)
qed simp

lemma find_pos_None: "find_pos clr t ps k = None \<longleftrightarrow> t \<notin> clr ` set ps"
  by (induction clr t ps k rule: find_pos.induct) auto

text \<open>An iterator keeps its thread; one at the removed thread moves to the next one, or to the start.\<close>

lemma update_iterator_correct:
  fixes i :: u32
  assumes "pos < length ts" "unat i < length ts" "length ts < 2 ^ 32"
  defines "ts' \<equiv> take pos ts @ drop (Suc pos) ts"
  defines "i' \<equiv> update_iterator (of_nat pos) (length ts') i"
  shows "if unat i = pos then (if Suc pos < length ts then ts' ! unat i' = ts ! Suc pos else i' = 0)
         else unat i' < length ts' \<and> ts' ! unat i' = ts ! unat i"
proof -
  have len: "length ts' = length ts - 1" using assms(1) by (simp add: ts'_def)
  have less: "of_nat pos < i \<longleftrightarrow> pos < unat i"
    using assms(1,3) by (simp add: word_less_nat_alt unat_of_nat_less)
  have nth: "ts' ! k = (if k < pos then ts ! k else ts ! Suc k)" if "k < length ts - 1" for k
    using that assms(1) by (auto simp: ts'_def nth_append min_def)
  consider "unat i < pos" | "unat i = pos" | "pos < unat i" by linarith
  then show ?thesis
  proof cases
    case 1
    then show ?thesis using assms(1) len less nth [of "unat i"] by (simp add: i'_def update_iterator_def)
  next
    case 2
    then show ?thesis using assms(1) len less nth [of "unat i"] by (auto simp: i'_def update_iterator_def)
  next
    case 3
    then have "i \<noteq> 0" by auto
    then have u: "unat (i - 1) = unat i - 1" by (simp add: unat_minus_one)
    obtain m where m: "unat i = Suc m" using 3 by (cases "unat i") auto
    then have "pos \<le> m" "m < length ts - 1" using 3 assms(2) by simp_all
    then show ?thesis using u m len less nth [of m] by (simp add: i'_def update_iterator_def)
  qed
qed

lemma update_iterator_bound: "unat (update_iterator pos n i) < n \<or> update_iterator pos n i = 0"
  by (auto simp: update_iterator_def Let_def)

lemma remove_nth:
  assumes "pos < length xs" "distinct xs"
  shows "distinct (take pos xs @ drop (Suc pos) xs) \<and> set (take pos xs @ drop (Suc pos) xs) = set xs - {xs ! pos}"
proof -
  have "distinct (take pos xs @ xs ! pos # drop (Suc pos) xs)"
    using assms(2) id_take_nth_drop [OF assms(1)] by simp
  moreover have "set xs = set (take pos xs @ xs ! pos # drop (Suc pos) xs)"
    using id_take_nth_drop [OF assms(1)] by simp
  ultimately show ?thesis by auto
qed

lemma UnregisterThread_unknown:
  assumes "wf_list l" "t \<notin> clr_of l ` set (tl_threads l)"
  shows "UnregisterThread sz t l = (None, l)"
  using assms(2) find_pos_None [of "clr_of l" t "tl_threads l" 0] by (simp add: UnregisterThread_def)

lemma UnregisterThread_known:
  assumes wf: "wf_list l" and t: "t \<in> clr_of l ` set (tl_threads l)"
  shows "\<exists>pos l'. pos < length (tl_threads l) \<and> clr_of l (tl_threads l ! pos) = t
     \<and> UnregisterThread sz t l = (Some (tl_threads l ! pos), l')
     \<and> tl_threads l' = take pos (tl_threads l) @ drop (Suc pos) (tl_threads l)
     \<and> tl_iterators l' = map (update_iterator (of_nat pos) (length (tl_threads l'))) (tl_iterators l)
     \<and> tl_heap l' = tl_heap l \<and> wf_list l'"
proof -
  let ?ts = "tl_threads l"
  obtain pos p where fp: "find_pos (clr_of l) t ?ts 0 = Some (pos, p)"
    using t find_pos_None [of "clr_of l" t ?ts 0] by auto
  from find_pos_Some [OF fp] have pos: "pos < length ?ts" "?ts ! pos = p" "clr_of l p = t" by auto
  define ts' where "ts' = take pos ?ts @ drop (Suc pos) ?ts"
  obtain l' where l': "UnregisterThread sz t l = (Some p, l')" "tl_threads l' = ts'"
    "tl_iterators l' = map (update_iterator (of_nat pos) (length ts')) (tl_iterators l)" "tl_heap l' = tl_heap l"
    "tl_fresh l' = tl_fresh l" "tl_lookupByClrThreadId l' = (tl_lookupByClrThreadId l)(t := None)"
    using fp pos by (simp add: UnregisterThread_def UpdateIterators_def Let_def ts'_def)
  have dist: "distinct ?ts" "distinct (map (clr_of l) ?ts)" using wf by (simp_all add: wf_list_def)
  have d: "distinct ts'" "distinct (map (clr_of l) ts')" "set ts' = set ?ts - {p}"
    unfolding ts'_def using remove_nth [OF pos(1) dist(1)] remove_nth [of pos "map (clr_of l) ?ts"] pos dist
    by (simp_all add: take_map drop_map)
  have only: "q = p" if "q \<in> set ?ts" "clr_of l q = t" for q
    using wf that pos(3) pos(1,2) by (metis nth_mem option.inject wf_list_def)
  have "tl_lookupByClrThreadId l' s = Some q \<longleftrightarrow> q \<in> set ts' \<and> clr_of l q = s" for s q
    using wf only d(3) pos(3) l'(6) by (auto simp: wf_list_def)
  moreover have "unat i < length ts' \<or> i = 0" if "i \<in> set (tl_iterators l')" for i
    using that update_iterator_bound by (auto simp: l'(3))
  ultimately have "wf_list l'" using wf d l' by (auto simp: wf_list_def)
  then show ?thesis using pos l' by (auto simp: ts'_def)
qed

section \<open>Iteration\<close>

lemma unat_mod_u32: "0 < n \<Longrightarrow> n < 2 ^ 32 \<Longrightarrow> unat (of_nat (a mod n) :: u32) = a mod n"
  by (rule unat_of_nat_less) (rule order_less_trans [OF mod_less_divisor], simp_all)

lemma unat_succ_mod_u32:
  assumes "0 < n" "n < 2 ^ 32"
  shows "unat (of_nat (a mod n) + 1 :: u32) = a mod n + 1"
proof -
  have "a mod n + 1 \<le> n" using mod_less_divisor [OF assms(1), of a] by simp
  then have "unat (of_nat (a mod n + 1) :: u32) = a mod n + 1" using assms(2) by (intro unat_of_nat_less) simp
  then show ?thesis by (simp add: add.commute)
qed

text \<open>The loop stops at the first good handle, or one step before it would be back at the start.\<close>

lemma loop_next_stop:
  assumes n: "n = length ts" "0 < n" "n < 2 ^ 32" and s: "s < n"
    and m: "j \<le> m" "m < n" and bad: "\<And>i. j \<le> i \<Longrightarrow> i < m \<Longrightarrow> bad_handle (heap (ts ! ((s + i) mod n)))"
    and stop: "m = n - 1 \<or> \<not> bad_handle (heap (ts ! ((s + m) mod n)))"
  shows "loop_next heap ts (of_nat s) (of_nat ((s + j) mod n)) = Some (ts ! ((s + m) mod n), of_nat ((s + m + 1) mod n))"
  using m(1) bad
proof (induction "m - j" arbitrary: j)
  case 0
  then have j: "j = m" by simp
  have u: "unat (of_nat ((s + m) mod n) :: u32) = (s + m) mod n"
    using n(2,3) by (rule unat_mod_u32)
  have "unat (of_nat ((s + m) mod n) + 1 :: u32) = (s + m) mod n + 1"
    using n(2,3) by (rule unat_succ_mod_u32)
  then have p: "unat (of_nat ((s + m) mod n) + 1 :: u32) mod n = (s + m + 1) mod n" by (simp add: mod_Suc_eq)
  have "of_nat s = (of_nat ((s + m + 1) mod n) :: u32)" if "m = n - 1"
    using that n(2) s by simp
  then show ?case using stop u p j n(1) by (subst loop_next.simps) (auto simp: Let_def)
next
  case (Suc d)
  then have jm: "j < m" by simp
  have u: "unat (of_nat ((s + j) mod n) :: u32) = (s + j) mod n"
    using n(2,3) by (rule unat_mod_u32)
  have "unat (of_nat ((s + j) mod n) + 1 :: u32) = (s + j) mod n + 1"
    using n(2,3) by (rule unat_succ_mod_u32)
  then have p: "unat (of_nat ((s + j) mod n) + 1 :: u32) mod n = (s + Suc j) mod n" by (simp add: mod_Suc_eq)
  have "s \<noteq> (s + Suc j) mod n" using cyclic_inj [of s 0 n "Suc j"] s jm m(2) by auto
  moreover have "unat (of_nat ((s + Suc j) mod n) :: u32) = (s + Suc j) mod n" "unat (of_nat s :: u32) = s"
    using unat_mod_u32 [OF n(2,3)] unat_mod_u32 [OF n(2,3), of s] s by simp_all
  ultimately have ne: "(of_nat s :: u32) \<noteq> of_nat ((s + Suc j) mod n)" by metis
  have "bad_handle (heap (ts ! ((s + j) mod n)))" using Suc.prems jm by simp
  then have "loop_next heap ts (of_nat s) (of_nat ((s + j) mod n)) = loop_next heap ts (of_nat s) (of_nat ((s + Suc j) mod n))"
    using u p ne n(1) by (subst loop_next.simps) (simp add: Let_def)
  also have "\<dots> = Some (ts ! ((s + m) mod n), of_nat ((s + m + 1) mod n))"
    by (rule Suc.hyps(1)) (use Suc jm in auto)
  finally show ?case .
qed

text \<open>The position where the iterator stands; it is inside the vector when there are threads.\<close>

lemma iterator_pos:
  assumes "wf_list l" "unat it < length (tl_iterators l)" "tl_threads l \<noteq> []"
  shows "unat (tl_iterators l ! unat it) < length (tl_threads l)"
proof -
  have "unat (tl_iterators l ! unat it) < length (tl_threads l) \<or> tl_iterators l ! unat it = 0"
    using assms(1) nth_mem [OF assms(2)] by (simp add: wf_list_def)
  then show ?thesis using assms(3) by auto
qed

lemma LoopNext_stop:
  assumes wf: "wf_list l" and it: "unat it < length (tl_iterators l)"
    and n: "n = length (tl_threads l)" "0 < n" "n < 2 ^ 32"
  defines "s \<equiv> unat (tl_iterators l ! unat it)"
  assumes m: "m < n" and bad: "\<And>i. i < m \<Longrightarrow> bad_handle (tl_heap l (tl_threads l ! ((s + i) mod n)))"
    and stop: "m = n - 1 \<or> \<not> bad_handle (tl_heap l (tl_threads l ! ((s + m) mod n)))"
  shows "LoopNext it l = Some (if m = n - 1 then None else Some (tl_threads l ! ((s + m) mod n)),
     l\<lparr>tl_iterators := (tl_iterators l)[unat it := of_nat ((s + m + 1) mod n)]\<rparr>)"
proof -
  have "tl_threads l \<noteq> []" using n(1,2) by auto
  then have s: "s < n" using iterator_pos [OF wf it] n by (simp add: s_def)
  have start: "tl_iterators l ! unat it = of_nat s" by (simp add: s_def)
  have "loop_next (tl_heap l) (tl_threads l) (of_nat s) (of_nat ((s + 0) mod n))
      = Some (tl_threads l ! ((s + m) mod n), of_nat ((s + m + 1) mod n))"
    by (rule loop_next_stop) (use n s m bad stop in auto)
  moreover have "(s + 0) mod n = s" using s by simp
  moreover have "(of_nat s = (of_nat ((s + m + 1) mod n) :: u32)) \<longleftrightarrow> m = n - 1"
  proof
    assume "of_nat s = (of_nat ((s + m + 1) mod n) :: u32)"
    moreover have "unat (of_nat ((s + m + 1) mod n) :: u32) = (s + m + 1) mod n" "unat (of_nat s :: u32) = s"
      using unat_mod_u32 [OF n(2,3)] unat_mod_u32 [OF n(2,3), of s] s by simp_all
    ultimately have eq: "s = (s + m + 1) mod n" by metis
    show "m = n - 1"
    proof (rule ccontr)
      assume "m \<noteq> n - 1"
      then have "m + 1 < n" using m by linarith
      then show False using cyclic_inj [of s 0 n "m + 1"] eq s by simp
    qed
  qed (use s n(2) in simp)
  ultimately show ?thesis
    using it n(1,2) \<open>tl_threads l \<noteq> []\<close> by (simp add: LoopNext_def Let_def start)
qed

text \<open>The scan of \<open>LoopNext\<close> as a search: it looks at all threads but the last before its start.\<close>

lemma find_upt_Some:
  "find P [0..<k] = Some m \<longleftrightarrow> m < k \<and> P m \<and> (\<forall>i<m. \<not> P i)"
  by (auto simp: find_Some_iff dest: order_less_trans)

lemma find_upt_None: "find P [0..<k] = None \<longleftrightarrow> (\<forall>i<k. \<not> P i)"
  by (auto simp: find_None_iff)

lemma LoopNext_search:
  assumes wf: "wf_list l" and it: "unat it < length (tl_iterators l)"
    and n: "n = length (tl_threads l)" "0 < n" "n < 2 ^ 32"
  defines "s \<equiv> unat (tl_iterators l ! unat it)"
  shows "LoopNext it l =
     (case find (\<lambda>i. \<not> bad_handle (tl_heap l (tl_threads l ! ((s + i) mod n)))) [0..<n - 1] of
        None \<Rightarrow> Some (None, l)
      | Some m \<Rightarrow> Some (Some (tl_threads l ! ((s + m) mod n)),
                      l\<lparr>tl_iterators := (tl_iterators l)[unat it := of_nat ((s + m + 1) mod n)]\<rparr>))"
    (is "_ = (case ?f of None \<Rightarrow> _ | Some m \<Rightarrow> _)")
proof (cases ?f)
  case None
  have "tl_threads l \<noteq> []" using n by auto
  then have s: "s < n" using iterator_pos [OF wf it] n by (simp add: s_def)
  have "LoopNext it l = Some (if n - 1 = n - 1 then None else Some (tl_threads l ! ((s + (n - 1)) mod n)),
      l\<lparr>tl_iterators := (tl_iterators l)[unat it := of_nat ((s + (n - 1) + 1) mod n)]\<rparr>)"
    unfolding s_def by (rule LoopNext_stop [OF wf it n]) (use n None in \<open>auto simp: find_upt_None s_def\<close>)
  moreover have "(tl_iterators l)[unat it := of_nat ((s + (n - 1) + 1) mod n)] = tl_iterators l"
    using s n(2) by (simp add: s_def)
  ultimately show ?thesis using None by simp
next
  case (Some m)
  then have m: "m < n - 1" "\<not> bad_handle (tl_heap l (tl_threads l ! ((s + m) mod n)))"
    "\<And>i. i < m \<Longrightarrow> bad_handle (tl_heap l (tl_threads l ! ((s + i) mod n)))"
    by (auto simp: find_upt_Some)
  have "LoopNext it l = Some (if m = n - 1 then None else Some (tl_threads l ! ((s + m) mod n)),
      l\<lparr>tl_iterators := (tl_iterators l)[unat it := of_nat ((s + m + 1) mod n)]\<rparr>)"
    unfolding s_def by (rule LoopNext_stop [OF wf it n]) (use m in \<open>auto simp: s_def\<close>)
  then show ?thesis using Some m(1) by simp
qed

lemma LoopNext_empty: "tl_threads l = [] \<or> length (tl_iterators l) \<le> unat it \<Longrightarrow> LoopNext it l = Some (None, l)"
  by (auto simp: LoopNext_def)

section \<open>Every operation keeps the invariant\<close>

lemma wf_list_heap:
  assumes "wf_list l" and "\<And>i. ti_clrThreadId (f i) = ti_clrThreadId i"
    and "tl_threads l' = tl_threads l" "tl_lookupByClrThreadId l' = tl_lookupByClrThreadId l"
    "tl_iterators l' = tl_iterators l" "tl_fresh l' = tl_fresh l" "tl_heap l' = (tl_heap l)(p := f (tl_heap l p))"
  shows "wf_list l'"
  by (rule wf_list_same [OF assms(1,3,4)]) (use assms in auto)

lemma clr_SetOsInfo [simp]: "ti_clrThreadId (SetOsInfo os h t) = ti_clrThreadId t"
  by (simp add: SetOsInfo_def GetProfileThreadId_def split: option.split)

lemma clr_SetName [simp]: "ti_clrThreadId (SetName name t) = ti_clrThreadId t"
  by (simp add: SetName_def GetProfileThreadName_def split: option.split)

lemma SetThreadOsInfo_eq:
  assumes "GetOrCreate sz t l = Some (p, l1)"
  shows "SetThreadOsInfo sz t os h l = Some (l1\<lparr>tl_heap := (tl_heap l1)(p := SetOsInfo os h (tl_heap l1 p)),
     tl_lookupByOsThreadId := (tl_lookupByOsThreadId l1)(os \<mapsto> p)\<rparr>)"
  using assms by (simp add: SetThreadOsInfo_def)

lemma SetThreadName_eq:
  assumes "GetOrCreate sz t l = Some (p, l1)"
  shows "SetThreadName sz t name l = Some (l1\<lparr>tl_heap := (tl_heap l1)(p := SetName name (tl_heap l1 p))\<rparr>)"
  using assms by (simp add: SetThreadName_def)

lemma wf_GetOrCreate: "wf_list l \<Longrightarrow> GetOrCreate sz t l = Some (p, l') \<Longrightarrow> wf_list l'"
  using GetOrCreate_spec [of l sz t] by auto

lemma wf_SetThreadOsInfo:
  assumes "wf_list l" "SetThreadOsInfo sz t os h l = Some l'"
  shows "wf_list l'"
proof -
  obtain p l1 where g: "GetOrCreate sz t l = Some (p, l1)" "wf_list l1" using GetOrCreate_spec [OF assms(1), of sz t] by blast
  show ?thesis using assms(2) SetThreadOsInfo_eq [OF g(1)] by (intro wf_list_heap [OF g(2), of "SetOsInfo os h" _ p]) auto
qed

lemma wf_SetThreadName:
  assumes "wf_list l" "SetThreadName sz t name l = Some l'"
  shows "wf_list l'"
proof -
  obtain p l1 where g: "GetOrCreate sz t l = Some (p, l1)" "wf_list l1" using GetOrCreate_spec [OF assms(1), of sz t] by blast
  show ?thesis using assms(2) SetThreadName_eq [OF g(1)] by (intro wf_list_heap [OF g(2), of "SetName name" _ p]) auto
qed

lemma wf_UnregisterThread: "wf_list l \<Longrightarrow> UnregisterThread sz t l = (r, l') \<Longrightarrow> wf_list l'"
  using UnregisterThread_unknown [of l t sz] UnregisterThread_known [of l t sz]
  by (cases "t \<in> clr_of l ` set (tl_threads l)") auto

lemma wf_make_thread_info:
  assumes wf: "wf_list l" and new: "make_thread_info t l = Some (p, l')"
  shows "wf_list l'"
proof -
  note eff = make_thread_info_effect [OF new]
  have "q \<noteq> p" if "q \<in> set (tl_threads l)" for q using wf that eff(1) by (auto simp: wf_list_def)
  then have clr: "clr_of l' q = clr_of l q" if "q \<in> set (tl_threads l)" for q using eff(3) that by auto
  have same: "map (clr_of l') (tl_threads l) = map (clr_of l) (tl_threads l)" using clr by simp
  have "distinct (map (clr_of l') (tl_threads l))" unfolding same using wf by (simp add: wf_list_def)
  moreover have "(q \<in> set (tl_threads l) \<and> clr_of l' q = t) = (q \<in> set (tl_threads l) \<and> clr_of l q = t)" for q t
    using clr by auto
  moreover have "\<forall>q \<in> set (tl_threads l). q < tl_fresh l'"
    using wf eff(1,2) by (auto simp: wf_list_def intro: less_SucI)
  ultimately show ?thesis using wf eff unfolding wf_list_def by simp
qed

lemma wf_RegisterThread:
  assumes wf: "wf_list l" and p: "p < tl_fresh l" and reg: "RegisterThread sz p l = (r, l')"
  shows "wf_list l'"
proof (cases "tl_lookupByClrThreadId l (clr_of l p)")
  case None
  have new: "clr_of l p \<notin> clr_of l ` set (tl_threads l)"
  proof
    assume "clr_of l p \<in> clr_of l ` set (tl_threads l)"
    then obtain q where "q \<in> set (tl_threads l)" "clr_of l q = clr_of l p" by auto
    then have "tl_lookupByClrThreadId l (clr_of l p) = Some q" using wf by (simp add: wf_list_def)
    then show False using None by simp
  qed
  show ?thesis
    by (rule wf_list_insert [OF wf, of p]) (use None new reg p in \<open>auto simp: RegisterThread_def\<close>)
qed (use assms in \<open>simp add: RegisterThread_def\<close>)

lemma wf_iterators:
  assumes "wf_list l" "\<And>i. i \<in> set its \<Longrightarrow> unat i < length (tl_threads l) \<or> i = 0"
  shows "wf_list (l\<lparr>tl_iterators := its\<rparr>)"
  using assms by (simp add: wf_list_def)

lemma wf_LoopNext:
  assumes wf: "wf_list l" and n: "length (tl_threads l) < 2 ^ 32" and nxt: "LoopNext it l = Some (r, l')"
  shows "wf_list l'"
proof (cases "tl_threads l = [] \<or> length (tl_iterators l) \<le> unat it")
  case True
  then show ?thesis using wf nxt LoopNext_empty [OF True] by simp
next
  case False
  let ?n = "length (tl_threads l)"
  have bound: "unat (of_nat (a mod ?n) :: u32) < ?n" for a using unat_mod_u32 [of ?n a] False n by simp
  show ?thesis
    using wf nxt False n bound
    by (subst (asm) LoopNext_search [OF wf _ refl])
      (auto split: option.splits intro!: wf_iterators dest!: set_update_subset_insert [THEN subsetD] simp: wf_list_def)
qed

lemma wf_CreateIterator: "wf_list l \<Longrightarrow> CreateIterator l = (i, l') \<Longrightarrow> wf_list l'"
  by (auto simp: CreateIterator_def wf_list_def)

lemma wf_GetHighCountAndReset: "wf_list l \<Longrightarrow> GetHighCountAndReset l = (c, l') \<Longrightarrow> wf_list l'"
  by (auto simp: GetHighCountAndReset_def wf_list_def)

lemma wf_GetLowCountAndReset: "wf_list l \<Longrightarrow> GetLowCountAndReset l = (c, l') \<Longrightarrow> wf_list l'"
  by (auto simp: GetLowCountAndReset_def Let_def wf_list_def)

lemmas wf_operations = wf_GetOrCreate wf_SetThreadOsInfo wf_SetThreadName wf_UnregisterThread wf_make_thread_info
  wf_RegisterThread wf_LoopNext wf_CreateIterator wf_GetHighCountAndReset wf_GetLowCountAndReset

lemma wf_list_step: "list_step sz l l' \<Longrightarrow> wf_list l \<Longrightarrow> wf_list l'"
  by (induction rule: list_step.cases) (blast intro: wf_operations)+

lemma wf_newManagedThreadList: "wf_list newManagedThreadList"
  by (simp add: wf_list_def newManagedThreadList_def)

interpretation thread_list: invariant_system "\<lambda>l. l = newManagedThreadList" "list_step sz" wf_list
  by unfold_locales (auto simp: wf_newManagedThreadList intro: wf_list_step)

section \<open>Refinement of the registry\<close>

text \<open>The identifier that the next created thread gets.\<close>

abbreviation next_info :: "u64 \<Rightarrow> ManagedThreadList \<Rightarrow> ManagedThreadInfo" where
  "next_info t l \<equiv> newManagedThreadInfo (fst (the (GenerateProfilerThreadInfoId (tl_nextInfoId l)))) t"

lemma registry_eq: "wf_list l \<Longrightarrow> registry l t = map_option (tl_heap l) (tl_lookupByClrThreadId l t)"
  by (cases "tl_lookupByClrThreadId l t") (auto simp: registry_def FindByClrId_def wf_list_def)

lemma registry_SomeI: "wf_list l \<Longrightarrow> p \<in> set (tl_threads l) \<Longrightarrow> registry l (clr_of l p) = Some (tl_heap l p)"
  by (auto simp: registry_eq wf_list_def)

lemma registry_Some_iff:
  "wf_list l \<Longrightarrow> registry l t = Some i \<longleftrightarrow> (\<exists>p \<in> set (tl_threads l). clr_of l p = t \<and> tl_heap l p = i)"
  by (auto simp: registry_eq wf_list_def)

lemma registry_GetOrCreate:
  assumes wf: "wf_list l"
  shows "\<exists>p l'. GetOrCreate sz t l = Some (p, l') \<and> wf_list l' \<and> FindByClrId t l' = Some p
     \<and> registry l' = (registry l)(t \<mapsto> case registry l t of Some i \<Rightarrow> i | None \<Rightarrow> next_info t l)"
proof -
  obtain p l' where g: "GetOrCreate sz t l = Some (p, l')" "wf_list l'" "p \<in> set (tl_threads l')" "clr_of l' p = t"
    "tl_threads l' = tl_threads l @ (if FindByClrId t l = None then [p] else [])"
    "FindByClrId t l \<noteq> None \<longrightarrow> l' = l" "\<forall>q \<in> set (tl_threads l). tl_heap l' q = tl_heap l q"
    using GetOrCreate_spec [OF wf, of sz t] by blast
  have find: "FindByClrId t l' = Some p" using FindByClrId_iff [OF g(2)] g(3,4) by simp
  have new: "tl_heap l' p = next_info t l" if "FindByClrId t l = None"
    using that g(1) by (auto simp: GetOrCreate_def make_thread_info_def Let_def split: option.splits prod.splits if_splits)
  have "registry l' = (registry l)(t \<mapsto> case registry l t of Some i \<Rightarrow> i | None \<Rightarrow> next_info t l)"
  proof (cases "FindByClrId t l")
    case None
    show ?thesis
    proof (intro ext option_eqI; unfold registry_Some_iff [OF g(2)])
      fix u i
      have "t \<notin> clr_of l ` set (tl_threads l)" using FindByClrId_None [OF wf] None by simp
      then show "(\<exists>q \<in> set (tl_threads l'). clr_of l' q = u \<and> tl_heap l' q = i)
        = (((registry l)(t \<mapsto> case registry l t of Some i \<Rightarrow> i | None \<Rightarrow> next_info t l)) u = Some i)"
        using g(4,5,7) None new registry_Some_iff [OF wf, of u i] by (auto simp: registry_def)
    qed
  qed (use g(6) in \<open>auto simp: registry_def\<close>)
  then show ?thesis using g(1,2) find by blast
qed

lemma registry_update:
  assumes wf: "wf_list l" and p: "FindByClrId t l = Some p" and f: "\<And>i. ti_clrThreadId (f i) = ti_clrThreadId i"
    and l': "tl_threads l' = tl_threads l" "tl_lookupByClrThreadId l' = tl_lookupByClrThreadId l"
    "tl_heap l' = (tl_heap l)(p := f (tl_heap l p))"
  shows "registry l' = (registry l)(t \<mapsto> f (tl_heap l p))"
proof
  fix u
  have "FindByClrId u l' = FindByClrId u l" by (simp add: FindByClrId_def l')
  moreover have "FindByClrId u l \<noteq> Some p" if "u \<noteq> t" using that p FindByClrId_iff [OF wf] by auto
  ultimately show "registry l' u = ((registry l)(t \<mapsto> f (tl_heap l p))) u"
    using p l'(3) by (cases "FindByClrId u l") (auto simp: registry_def)
qed

lemma registry_UnregisterThread:
  assumes wf: "wf_list l" and u: "UnregisterThread sz t l = (r, l')"
  shows "registry l' = (registry l)(t := None) \<and> map_option (tl_heap l') r = registry l t"
proof (cases "t \<in> clr_of l ` set (tl_threads l)")
  case False
  then show ?thesis
    using u UnregisterThread_unknown [OF wf False, of sz] FindByClrId_None [OF wf, of t] by (auto simp: registry_def)
next
  case True
  then obtain pos where pos: "pos < length (tl_threads l)" "clr_of l (tl_threads l ! pos) = t" "r = Some (tl_threads l ! pos)"
    "tl_threads l' = take pos (tl_threads l) @ drop (Suc pos) (tl_threads l)" "tl_heap l' = tl_heap l" "wf_list l'"
    using UnregisterThread_known [OF wf True, of sz] u by auto
  have "distinct (tl_threads l)" using wf by (simp add: wf_list_def)
  then have set: "set (tl_threads l') = set (tl_threads l) - {tl_threads l ! pos}"
    using remove_nth [OF pos(1)] pos(4) by simp
  have inj: "q = tl_threads l ! pos" if "q \<in> set (tl_threads l)" "clr_of l q = t" for q
    using wf that pos(1,2) by (metis nth_mem option.inject wf_list_def)
  have "registry l' = (registry l)(t := None)"
  proof (intro ext option_eqI; unfold registry_Some_iff [OF pos(6)])
    fix u i
    show "(\<exists>q \<in> set (tl_threads l'). clr_of l' q = u \<and> tl_heap l' q = i) = (((registry l)(t := None)) u = Some i)"
      using inj set pos(2,5) registry_Some_iff [OF wf, of u i] by auto
  qed
  then show ?thesis using pos registry_SomeI [OF wf, of "tl_threads l ! pos"] by simp
qed

section \<open>Round robin\<close>

lemma LoopNext_good:
  assumes wf: "wf_list l" and it: "unat it < length (tl_iterators l)"
    and n: "n = length (tl_threads l)" "2 \<le> n" "n < 2 ^ 32"
    and good: "\<And>p. p \<in> set (tl_threads l) \<Longrightarrow> \<not> bad_handle (tl_heap l p)"
    and s: "tl_iterators l ! unat it = of_nat (s mod n)"
  shows "LoopNext it l = Some (Some (tl_threads l ! (s mod n)),
    l\<lparr>tl_iterators := (tl_iterators l)[unat it := of_nat (Suc s mod n)]\<rparr>)"
proof -
  have u: "unat (tl_iterators l ! unat it) = s mod n" unfolding s using n by (intro unat_mod_u32) auto
  have lt: "s mod n < n" using n(2) by simp
  have "find (\<lambda>i. \<not> bad_handle (tl_heap l (tl_threads l ! ((s mod n + i) mod n)))) [0..<n - 1] = Some 0"
    using good n lt by (simp add: find_upt_Some)
  then show ?thesis
    using LoopNext_search [OF wf it n(1) _ n(3)] n(2) u lt by (simp add: mod_Suc_eq)
qed

lemma loop_many_good:
  assumes "wf_list l" "unat it < length (tl_iterators l)"
    "n = length (tl_threads l)" "2 \<le> n" "n < 2 ^ 32" "\<And>p. p \<in> set (tl_threads l) \<Longrightarrow> \<not> bad_handle (tl_heap l p)"
    "tl_iterators l ! unat it = of_nat (s mod n)"
  shows "loop_many k it l = Some (map (\<lambda>i. Some (tl_threads l ! ((s + i) mod n))) [0..<k])"
  using assms
proof (induction k arbitrary: l s)
  case (Suc k)
  let ?l = "l\<lparr>tl_iterators := (tl_iterators l)[unat it := of_nat (Suc s mod n)]\<rparr>"
  note step = LoopNext_good [OF Suc.prems]
  have "wf_list ?l" using wf_LoopNext [OF Suc.prems(1) _ step] Suc.prems(3,5) by simp
  then have "loop_many k it ?l = Some (map (\<lambda>i. Some (tl_threads l ! ((Suc s + i) mod n))) [0..<k])"
    by (subst Suc.IH [where s = "Suc s"]) (use Suc.prems in auto)
  moreover have "[0..<Suc k] = 0 # map Suc [0..<k]" by (simp add: upt_conv_Cons map_Suc_upt)
  ultimately show ?case using step by simp
qed simp

section \<open>Correctness of the thread list\<close>

text \<open>
  C33. In every state that the calls can reach from an empty list, no two registered threads share a
  CLR identifier, a lookup by CLR identifier finds exactly the registered thread that has it, and
  every iterator stands inside the vector (or at 0).
\<close>

theorem thread_list_index:
  assumes "reachable (\<lambda>l. l = newManagedThreadList) (list_step GetMemorySize) l"
  shows "distinct (map (clr_of l) (tl_threads l))
     \<and> (\<forall>t p. FindByClrId t l = Some p \<longleftrightarrow> p \<in> set (tl_threads l) \<and> clr_of l p = t)
     \<and> (\<forall>i \<in> set (tl_iterators l). unat i < length (tl_threads l) \<or> i = 0)"
  using thread_list.reachable_inv [OF assms] FindByClrId_iff [of l] by (auto simp: wf_list_def)

text \<open>
  C35. The list implements a map from CLR identifiers to thread information: looking up or creating,
  setting the name and setting the OS information update the entry of the thread alone (created
  with the next identifier when there is none) and always succeed, and unregistering removes the
  entry and hands the removed information out.
\<close>

theorem thread_list_refines_registry:
  fixes t :: u64
  assumes wf: "wf_list l"
  defines "info \<equiv> case registry l t of Some i \<Rightarrow> i | None \<Rightarrow> next_info t l"
  shows "(\<exists>p l'. GetOrCreate sz t l = Some (p, l') \<and> registry l' = (registry l)(t \<mapsto> info))
     \<and> (\<exists>l'. SetThreadName sz t name l = Some l' \<and> registry l' = (registry l)(t \<mapsto> SetName name info))
     \<and> (\<exists>l'. SetThreadOsInfo sz t os h l = Some l' \<and> registry l' = (registry l)(t \<mapsto> SetOsInfo os h info))
     \<and> (\<exists>r l'. UnregisterThread sz t l = (r, l') \<and> registry l' = (registry l)(t := None)
          \<and> map_option (tl_heap l') r = registry l t)"
proof -
  obtain p l1 where g: "GetOrCreate sz t l = Some (p, l1)" "wf_list l1" "FindByClrId t l1 = Some p"
    "registry l1 = (registry l)(t \<mapsto> info)"
    unfolding info_def using registry_GetOrCreate [OF wf, of sz t] by blast
  then have info: "tl_heap l1 p = info" by (metis fun_upd_same option.inject option.simps(9) registry_def)
  note upd = registry_update [OF g(2,3)]
  have "\<exists>l'. SetThreadName sz t name l = Some l' \<and> registry l' = (registry l)(t \<mapsto> SetName name info)"
    using upd [of "SetName name"] g(4) info by (auto simp: SetThreadName_eq [OF g(1)])
  moreover have "\<exists>l'. SetThreadOsInfo sz t os h l = Some l' \<and> registry l' = (registry l)(t \<mapsto> SetOsInfo os h info)"
    using upd [of "SetOsInfo os h"] g(4) info by (auto simp: SetThreadOsInfo_eq [OF g(1)])
  moreover have "\<exists>r l'. UnregisterThread sz t l = (r, l') \<and> registry l' = (registry l)(t := None)
       \<and> map_option (tl_heap l') r = registry l t"
    using registry_UnregisterThread [OF wf, of sz t] by (cases "UnregisterThread sz t l") auto
  ultimately show ?thesis using g by blast
qed

text \<open>
  Removing a thread keeps every iterator on the thread it would have returned next; an iterator
  on the removed thread moves to the thread after it, or to the start of the list.
\<close>

lemma UnregisterThread_iterators:
  assumes "wf_list l" and "UnregisterThread sz t l = (Some p, l')" and "length (tl_threads l) < 2 ^ 32"
    and "k < length (tl_iterators l)"
  defines "i \<equiv> unat (tl_iterators l ! k)" and "i' \<equiv> unat (tl_iterators l' ! k)"
  shows "if tl_threads l ! i \<noteq> p then i' < length (tl_threads l') \<and> tl_threads l' ! i' = tl_threads l ! i
         else if Suc i < length (tl_threads l) then tl_threads l' ! i' = tl_threads l ! Suc i
         else i' = 0"
proof -
  have "t \<in> clr_of l ` set (tl_threads l)" using UnregisterThread_unknown [OF assms(1)] assms(2) by fastforce
  then obtain pos where pos: "pos < length (tl_threads l)" "p = tl_threads l ! pos"
    "tl_threads l' = take pos (tl_threads l) @ drop (Suc pos) (tl_threads l)"
    "tl_iterators l' = map (update_iterator (of_nat pos) (length (tl_threads l'))) (tl_iterators l)"
    using UnregisterThread_known [OF assms(1), of t sz] assms(2) by auto
  have "unat (tl_iterators l ! k) < length (tl_threads l) \<or> tl_iterators l ! k = 0"
    using assms(1) nth_mem [OF assms(4)] by (simp add: wf_list_def)
  then have i: "i < length (tl_threads l)" using pos(1) by (auto simp: i_def)
  have "distinct (tl_threads l)" using assms(1) by (simp add: wf_list_def)
  then have eq: "tl_threads l ! i = p \<longleftrightarrow> i = pos" using pos(1,2) i nth_eq_iff_index_eq by blast
  show ?thesis
    using update_iterator_correct [OF pos(1) _ assms(3), of "tl_iterators l ! k"] i eq assms(4)
    by (auto simp: i_def i'_def pos(3,4) split: if_splits)
qed


text \<open>
  C39. A profiler thread identifier is the value of the counter while that is below the limit; from
  the limit on the exchange with 1 never takes place, the loop runs the counter through its
  wrap-around, and the identifier is 0.
\<close>

theorem GenerateProfilerThreadInfoId_result:
  "GenerateProfilerThreadInfoId counter =
     Some (if counter < MaxProfilerThreadInfoId then (counter, counter + 1) else (0, 1))"
  by (auto simp: GenerateProfilerThreadInfoId_def generate_loop_small generate_loop_wraps not_less)

section \<open>Concrete runs\<close>

text \<open>A list with three threads, whose handles are 5, 0 and 6, and one iterator.\<close>

definition list_example :: ManagedThreadList where
  "list_example =
     \<lparr>tl_threads = [0, 1, 2], tl_lookupByClrThreadId = [10 \<mapsto> 0, 11 \<mapsto> 1, 12 \<mapsto> 2],
      tl_lookupByOsThreadId = Map.empty, tl_iterators = [1],
      tl_highCount = 3, tl_lowCount = 0, tl_cachedItemsSize = 0,
      tl_heap = (\<lambda>_. newManagedThreadInfo 0 0)
        (0 := (newManagedThreadInfo 1 10)\<lparr>ti_osThreadHandle := 5\<rparr>, 1 := newManagedThreadInfo 2 11,
         2 := (newManagedThreadInfo 3 12)\<lparr>ti_osThreadHandle := 6\<rparr>),
      tl_fresh = 3, tl_nextInfoId = 4\<rparr>"

lemma wf_list_example: "wf_list list_example"
proof -
  have "tl_lookupByClrThreadId list_example t = Some p \<longleftrightarrow> p \<in> set (tl_threads list_example) \<and> clr_of list_example p = t" for t p
    by (cases "p = 0"; cases "p = 1"; cases "p = 2") (auto simp: list_example_def newManagedThreadInfo_def)
  then show ?thesis by (simp add: wf_list_def) (simp add: list_example_def newManagedThreadInfo_def)
qed

theorem thread_list_index_witness:
  "\<exists>l p. reachable (\<lambda>l. l = newManagedThreadList) (list_step (\<lambda>_. 100)) l
     \<and> GetOrCreate (\<lambda>_. 100) 7 newManagedThreadList = Some (p, l) \<and> FindByClrId 7 l = Some p"
proof -
  obtain p l where g: "GetOrCreate (\<lambda>_. 100) 7 newManagedThreadList = Some (p, l)" "p \<in> set (tl_threads l)" "clr_of l p = 7"
    using GetOrCreate_spec [OF wf_newManagedThreadList, of "\<lambda>_. 100" 7] by blast
  have r: "reachable (\<lambda>l. l = newManagedThreadList) (list_step (\<lambda>_. 100)) l"
    by (rule reachable.next_step [of _ _ newManagedThreadList]) (auto intro: reachable.start list_step.get_or_create [OF g(1)])
  show ?thesis using thread_list_index [OF r] g r by blast
qed

theorem thread_list_refines_registry_witness:
  "wf_list list_example \<and> (\<exists>r l'. UnregisterThread (\<lambda>_. 100) 11 list_example = (r, l')
     \<and> registry l' = (registry list_example)(11 := None) \<and> map_option (tl_heap l') r = registry list_example 11)"
  using wf_list_example thread_list_refines_registry [OF wf_list_example, of "\<lambda>_. 100" 11] by blast


end
