(* ===== verification/Outcome.thy ===== *)
theory Outcome
  imports Bytes
begin

unbundle bit_operations_syntax

text \<open>
  Code that reads memory it does not own: the byte memory of the process with unmapped addresses,
  actions that end by returning, by a memory access fault or by a C++ exception and keep what they
  changed until then, and \<open>MemoryFaultGuard::Run\<close>, which turns a fault into a value. The triples
  \<open>hoare P m Q E\<close> are total: they also say that the action ends.
\<close>

section \<open>Memory\<close>

type_synonym memory = "u64 \<Rightarrow> u8 option"

definition load_bytes :: "memory \<Rightarrow> u64 \<Rightarrow> nat \<Rightarrow> u8 list option" where
  "load_bytes mem a n = those (map (\<lambda>i. mem (a + of_nat i)) [0..<n])"

definition load32 :: "memory \<Rightarrow> u64 \<Rightarrow> u32 option" where
  "load32 mem a = map_option (\<lambda>bs. of_nat (le_nat bs)) (load_bytes mem a 4)"

definition load64 :: "memory \<Rightarrow> u64 \<Rightarrow> u64 option" where
  "load64 mem a = map_option (\<lambda>bs. of_nat (le_nat bs)) (load_bytes mem a 8)"

section \<open>Actions\<close>

text \<open>
  An action does not return (\<open>None\<close>), or ends in a new state with an interruption (\<open>Inl\<close>) or a value
  (\<open>Inr\<close>).
\<close>

datatype abort = Fault | Thrown

type_synonym ('s, 'a) act = "'s \<Rightarrow> ((abort + 'a) \<times> 's) option"

definition ret :: "'a \<Rightarrow> ('s, 'a) act" where
  "ret a s = Some (Inr a, s)"

definition bnd :: "('s, 'a) act \<Rightarrow> ('a \<Rightarrow> ('s, 'b) act) \<Rightarrow> ('s, 'b) act" where
  "bnd m f s = (case m s of
     None \<Rightarrow> None
   | Some (Inl e, s') \<Rightarrow> Some (Inl e, s')
   | Some (Inr a, s') \<Rightarrow> f a s')"

definition call :: "abort + 'a \<Rightarrow> ('s, 'a) act" where
  "call r s = Some (r, s)"

definition get :: "('s \<Rightarrow> 'a) \<Rightarrow> ('s, 'a) act" where
  "get f s = Some (Inr (f s), s)"

definition upd :: "('s \<Rightarrow> 's) \<Rightarrow> ('s, unit) act" where
  "upd f s = Some (Inr (), f s)"

definition read64 :: "memory \<Rightarrow> u64 \<Rightarrow> abort + u64" where
  "read64 mem a = (case load64 mem a of None \<Rightarrow> Inl Fault | Some v \<Rightarrow> Inr v)"

section \<open>The memory fault guard\<close>

datatype RunResult = Completed | Faulted | Unavailable

record GuardState =
  g_installed :: bool
  g_inGuardedRegion :: bool

text \<open>
  The arguments say whether the registrations of the two signal handlers succeed when they are
  tried.
\<close>

definition EnsureInstalled :: "bool \<Rightarrow> bool \<Rightarrow> GuardState \<Rightarrow> bool \<times> GuardState" where
  "EnsureInstalled segvInstalled busInstalled g =
     (if g_installed g then (True, g)
      else let success = segvInstalled \<and> busInstalled in (success, g\<lparr>g_installed := success\<rparr>))"

definition FaultHandler :: "GuardState \<Rightarrow> bool" where
  "FaultHandler g \<longleftrightarrow> g_inGuardedRegion g"

text \<open>
  \<open>Run\<close>: a fault inside the body jumps back to \<open>sigsetjmp\<close> exactly when the handler finds the flag
  set; the flag is cleared on every way out. A fault the handler does not take stays a fault.
\<close>

definition Run :: "bool \<Rightarrow> bool \<Rightarrow> ('s, unit) act \<Rightarrow> (GuardState \<times> 's, RunResult) act" where
  "Run segvInstalled busInstalled body gs =
     (let (ok, g) = EnsureInstalled segvInstalled busInstalled (fst gs)
      in if \<not> ok then Some (Inr Unavailable, (g, snd gs))
         else
           let g1 = g\<lparr>g_inGuardedRegion := True\<rparr>; g2 = g\<lparr>g_inGuardedRegion := False\<rparr>
           in case body (snd gs) of
                None \<Rightarrow> None
              | Some (Inr _, s) \<Rightarrow> Some (Inr Completed, (g2, s))
              | Some (Inl Thrown, s) \<Rightarrow> Some (Inl Thrown, (g2, s))
              | Some (Inl Fault, s) \<Rightarrow>
                  if FaultHandler g1 then Some (Inr Faulted, (g2, s)) else Some (Inl Fault, (g1, s)))"

section \<open>Total triples\<close>

definition hoare :: "('s \<Rightarrow> bool) \<Rightarrow> ('s, 'a) act \<Rightarrow> ('a \<Rightarrow> 's \<Rightarrow> bool) \<Rightarrow> (abort \<Rightarrow> 's \<Rightarrow> bool) \<Rightarrow> bool" where
  "hoare P m Q E \<longleftrightarrow>
     (\<forall>s. P s \<longrightarrow> (\<exists>r s'. m s = Some (r, s') \<and> (case r of Inl e \<Rightarrow> E e s' | Inr a \<Rightarrow> Q a s')))"

named_theorems hoare_intros \<open>rules of the total triples\<close>

lemma hoareI:
  "(\<And>s. P s \<Longrightarrow> \<exists>r s'. m s = Some (r, s') \<and> (case r of Inl e \<Rightarrow> E e s' | Inr a \<Rightarrow> Q a s')) \<Longrightarrow> hoare P m Q E"
  by (simp add: hoare_def)

lemma hoareD:
  "hoare P m Q E \<Longrightarrow> P s \<Longrightarrow> \<exists>r s'. m s = Some (r, s') \<and> (case r of Inl e \<Rightarrow> E e s' | Inr a \<Rightarrow> Q a s')"
  by (simp add: hoare_def)

lemma hoare_weaken:
  assumes "hoare P' m Q' E'" and "\<And>s. P s \<Longrightarrow> P' s" and "\<And>a s. Q' a s \<Longrightarrow> Q a s" and "\<And>e s. E' e s \<Longrightarrow> E e s"
  shows "hoare P m Q E"
proof (rule hoareI)
  fix s assume "P s"
  then obtain r s' where "m s = Some (r, s')" "case r of Inl e \<Rightarrow> E' e s' | Inr a \<Rightarrow> Q' a s'"
    using hoareD [OF assms(1)] assms(2) by blast
  then show "\<exists>r s'. m s = Some (r, s') \<and> (case r of Inl e \<Rightarrow> E e s' | Inr a \<Rightarrow> Q a s')"
    using assms(3,4) by (cases r) auto
qed

lemma hoare_pre: "hoare P' m Q E \<Longrightarrow> (\<And>s. P s \<Longrightarrow> P' s) \<Longrightarrow> hoare P m Q E"
  by (rule hoare_weaken)

lemma hoare_ret [hoare_intros]: "(\<And>s. P s \<Longrightarrow> Q a s) \<Longrightarrow> hoare P (ret a) Q E"
  by (simp add: hoare_def ret_def)

lemma hoare_bnd [hoare_intros]:
  assumes "hoare P m Q E" and "\<And>a. hoare (Q a) (f a) R E"
  shows "hoare P (bnd m f) R E"
proof (rule hoareI)
  fix s assume "P s"
  then obtain r s' where m: "m s = Some (r, s')" and r: "case r of Inl e \<Rightarrow> E e s' | Inr a \<Rightarrow> Q a s'"
    using hoareD [OF assms(1)] by blast
  show "\<exists>r s'. bnd m f s = Some (r, s') \<and> (case r of Inl e \<Rightarrow> E e s' | Inr a \<Rightarrow> R a s')"
  proof (cases r)
    case (Inr a)
    then show ?thesis using hoareD [OF assms(2), of a s'] r m by (simp add: bnd_def)
  qed (use r m in \<open>simp add: bnd_def\<close>)
qed

lemma hoare_call [hoare_intros]:
  assumes "\<And>s e. r = Inl e \<Longrightarrow> P s \<Longrightarrow> E e s" and "\<And>s a. r = Inr a \<Longrightarrow> P s \<Longrightarrow> Q a s"
  shows "hoare P (call r) Q E"
  using assms by (cases r) (auto simp: hoare_def call_def)

lemma hoare_get [hoare_intros]: "(\<And>s. P s \<Longrightarrow> Q (f s) s) \<Longrightarrow> hoare P (get f) Q E"
  by (simp add: hoare_def get_def)

lemma hoare_upd [hoare_intros]: "(\<And>s. P s \<Longrightarrow> Q () (f s)) \<Longrightarrow> hoare P (upd f) Q E"
  by (simp add: hoare_def upd_def)

lemma hoare_if [hoare_intros]:
  "(b \<Longrightarrow> hoare P m Q E) \<Longrightarrow> (\<not> b \<Longrightarrow> hoare P m' Q E) \<Longrightarrow> hoare P (if b then m else m') Q E"
  by simp

lemma hoare_fact: "(F \<Longrightarrow> hoare P m Q E) \<Longrightarrow> hoare (\<lambda>s. F \<and> P s) m Q E"
  by (auto simp: hoare_def)

text \<open>
  The guard: the body's faults become the value \<open>Faulted\<close>, the flag is down afterwards, and the body
  does not run only when a handler cannot be registered.
\<close>

lemma hoare_Run:
  fixes P :: "'s \<Rightarrow> bool"
  assumes "hoare P body (\<lambda>_. Q) (\<lambda>_. L)"
  shows "hoare (\<lambda>gs. \<not> g_inGuardedRegion (fst gs) \<and> P (snd gs)) (Run segv bus body)
    (\<lambda>r gs. \<not> g_inGuardedRegion (fst gs) \<and>
       (case r of Completed \<Rightarrow> Q (snd gs) | Faulted \<Rightarrow> L (snd gs) | Unavailable \<Rightarrow> \<not> (segv \<and> bus) \<and> P (snd gs)))
    (\<lambda>e gs. e = Thrown \<and> \<not> g_inGuardedRegion (fst gs) \<and> L (snd gs))"
proof (rule hoareI)
  fix gs :: "GuardState \<times> 's"
  assume p: "\<not> g_inGuardedRegion (fst gs) \<and> P (snd gs)"
  then obtain r s where b: "body (snd gs) = Some (r, s)" and r: "case r of Inl _ \<Rightarrow> L s | Inr _ \<Rightarrow> Q s"
    using hoareD [OF assms, of "snd gs"] by auto
  show "\<exists>r s'. Run segv bus body gs = Some (r, s') \<and>
     (case r of Inl e \<Rightarrow> e = Thrown \<and> \<not> g_inGuardedRegion (fst s') \<and> L (snd s')
      | Inr r \<Rightarrow> \<not> g_inGuardedRegion (fst s') \<and>
          (case r of Completed \<Rightarrow> Q (snd s') | Faulted \<Rightarrow> L (snd s') | Unavailable \<Rightarrow> \<not> (segv \<and> bus) \<and> P (snd s')))"
  proof (cases r)
    case (Inl e)
    then show ?thesis using b r p
      by (cases e) (auto simp: Run_def EnsureInstalled_def FaultHandler_def Let_def)
  next
    case (Inr u)
    then show ?thesis using b r p by (auto simp: Run_def EnsureInstalled_def Let_def)
  qed
qed

end
