(* ===== verification/GCDesc.thy ===== *)
theory GCDesc
  imports Outcome
begin

unbundle bit_operations_syntax

text \<open>
  The reader of the CLR's GC descriptors (\<open>GCDescReader.h\<close>): the words below a MethodTable that say
  where an object holds references. Everything is read from the byte memory of the process and can
  fault. \<open>ptrdiff_t\<close> values are 64-bit words compared as signed integers. The callback of the
  enumerations is an action on the caller's state.
\<close>

section \<open>Model\<close>

definition Flag_ContainsPointers :: u32 where
  "Flag_ContainsPointers = 0x01000000"

definition MaxValSerieItems :: u64 where
  "MaxValSerieItems = 0xFFFF"

definition GetNptrs :: "u64 \<Rightarrow> u32" where
  "GetNptrs v = ucast (v AND 0xFFFFFFFF)"

definition GetSkip :: "u64 \<Rightarrow> u32" where
  "GetSkip v = ucast (drop_bit 32 v AND 0xFFFFFFFF)"

definition ContainsGCPointers :: "memory \<Rightarrow> ClassID \<Rightarrow> abort + bool" where
  "ContainsGCPointers mem cls =
     (if cls = 0 then Inr False
      else case load32 mem cls of
             None \<Rightarrow> Inl Fault
           | Some flags \<Rightarrow> Inr (flags AND Flag_ContainsPointers \<noteq> 0))"

definition GetSeriesCount :: "memory \<Rightarrow> ClassID \<Rightarrow> abort + u64" where
  "GetSeriesCount mem cls = read64 mem (cls - 8)"

definition LooksLikeValidSeriesCount :: "u64 \<Rightarrow> u64 \<Rightarrow> bool" where
  "LooksLikeValidSeriesCount count objectSize \<longleftrightarrow>
     (if count = 0 then False
      else let maxSeries = objectSize div 8 + 1;
               magnitude = (if sint count < 0 then - count else count)
           in sint magnitude \<le> sint maxSeries)"

type_synonym 's ref_callback = "u64 \<Rightarrow> u64 \<Rightarrow> u32 \<Rightarrow> ('s, unit) act"

text \<open>The inner loop: the slots of one range, from the \<open>j\<close>-th on.\<close>

fun slot_loop :: "memory \<Rightarrow> 's ref_callback \<Rightarrow> u64 \<Rightarrow> u64 \<Rightarrow> nat \<Rightarrow> nat \<Rightarrow> ('s, unit) act" where
  "slot_loop mem callback rangeStart offset j 0 = ret ()"
| "slot_loop mem callback rangeStart offset j (Suc n) =
     bnd (call (read64 mem (rangeStart + of_nat j * 8))) (\<lambda>refValue.
     bnd (if refValue \<noteq> 0
          then callback (rangeStart + of_nat j * 8) refValue (ucast (offset + of_nat j * 8)) else ret ()) (\<lambda>_.
     slot_loop mem callback rangeStart offset (Suc j) n))"

definition enumerate_series :: "memory \<Rightarrow> 's ref_callback \<Rightarrow> ClassID \<Rightarrow> u64 \<Rightarrow> u64 \<Rightarrow> nat \<Rightarrow> ('s, unit) act" where
  "enumerate_series mem callback cls objectAddress objectSize i =
     bnd (call (read64 mem (cls - 8 - 16 * of_nat i))) (\<lambda>encodedSize.
     let rangeSize = encodedSize + objectSize
     in if sint rangeSize \<le> 0 then ret ()
        else bnd (call (read64 mem (cls - 16 * of_nat i))) (\<lambda>offset.
          if sint offset < 0 \<or> offset > objectSize \<or> offset + rangeSize > objectSize then ret ()
          else slot_loop mem callback (objectAddress + offset) offset 0 (unat (rangeSize div 8))))"

fun series_loop :: "memory \<Rightarrow> 's ref_callback \<Rightarrow> ClassID \<Rightarrow> u64 \<Rightarrow> u64 \<Rightarrow> nat \<Rightarrow> nat \<Rightarrow> ('s, unit) act" where
  "series_loop mem callback cls objectAddress objectSize i 0 = ret ()"
| "series_loop mem callback cls objectAddress objectSize i (Suc n) =
     bnd (enumerate_series mem callback cls objectAddress objectSize i) (\<lambda>_.
     series_loop mem callback cls objectAddress objectSize (Suc i) n)"

definition EnumerateObjectRefs :: "memory \<Rightarrow> ClassID \<Rightarrow> u64 \<Rightarrow> u64 \<Rightarrow> 's ref_callback \<Rightarrow> ('s, unit) act" where
  "EnumerateObjectRefs mem cls objectAddress objectSize callback =
     bnd (call (read64 mem (cls - 8))) (\<lambda>seriesCount.
     if sint seriesCount \<le> 0 then ret ()
     else if \<not> LooksLikeValidSeriesCount seriesCount objectSize then ret ()
     else series_loop mem callback cls objectAddress objectSize 1 (unat seriesCount))"

text \<open>The three loops over a value-type array; each returns the position \<open>cur\<close>.\<close>

fun ptr_loop :: "memory \<Rightarrow> 's ref_callback \<Rightarrow> u64 \<Rightarrow> u64 \<Rightarrow> nat \<Rightarrow> ('s, u64) act" where
  "ptr_loop mem callback arrayAddress cur 0 = ret cur"
| "ptr_loop mem callback arrayAddress cur (Suc n) =
     bnd (call (read64 mem cur)) (\<lambda>refValue.
     bnd (if refValue \<noteq> 0 then callback cur refValue (ucast (cur - arrayAddress)) else ret ()) (\<lambda>_.
     ptr_loop mem callback arrayAddress (cur + 8) n))"

fun item_loop :: "memory \<Rightarrow> 's ref_callback \<Rightarrow> ClassID \<Rightarrow> u64 \<Rightarrow> u64 \<Rightarrow> nat \<Rightarrow> nat \<Rightarrow> ('s, u64) act" where
  "item_loop mem callback cls arrayAddress cur v 0 = ret cur"
| "item_loop mem callback cls arrayAddress cur v (Suc n) =
     bnd (call (read64 mem (cls - 24 - 8 * of_nat v))) (\<lambda>item.
     bnd (ptr_loop mem callback arrayAddress cur (unat (GetNptrs item))) (\<lambda>cur1.
     item_loop mem callback cls arrayAddress (cur1 + ucast (GetSkip item)) (Suc v) n))"

fun elem_loop :: "memory \<Rightarrow> 's ref_callback \<Rightarrow> ClassID \<Rightarrow> u64 \<Rightarrow> nat \<Rightarrow> u64 \<Rightarrow> nat \<Rightarrow> ('s, unit) act" where
  "elem_loop mem callback cls arrayAddress numItems cur 0 = ret ()"
| "elem_loop mem callback cls arrayAddress numItems cur (Suc n) =
     bnd (item_loop mem callback cls arrayAddress cur 0 numItems) (\<lambda>cur1.
     elem_loop mem callback cls arrayAddress numItems cur1 n)"

definition EnumerateVTArrayRefs :: "memory \<Rightarrow> ClassID \<Rightarrow> u64 \<Rightarrow> u64 \<Rightarrow> 's ref_callback \<Rightarrow> ('s, unit) act" where
  "EnumerateVTArrayRefs mem cls arrayAddress totalElements callback =
     bnd (call (read64 mem (cls - 8))) (\<lambda>seriesCount.
     if sint seriesCount \<ge> 0 then ret ()
     else let numValSerieItems = - seriesCount
          in if numValSerieItems > MaxValSerieItems then ret ()
             else bnd (call (read64 mem (cls - 16))) (\<lambda>startOffset.
               if sint startOffset < 0 then ret ()
               else elem_loop mem callback cls arrayAddress (unat numValSerieItems)
                      (arrayAddress + startOffset) (unat totalElements)))"

datatype SelfTestResult = Pending | Passed | Failed

text \<open>
  The two answers of the profiling API: whether the class is an array, and its number of fields
  (\<open>Inr None\<close>: the call failed). \<open>None\<close> for \<open>pInfo\<close>: no interface.
\<close>

definition ValidateAgainstMetadata ::
  "memory \<Rightarrow> ((ClassID \<Rightarrow> abort + bool) \<times> (ClassID \<Rightarrow> abort + u32 option)) option \<Rightarrow> ClassID \<Rightarrow> u64 \<Rightarrow> ('s, SelfTestResult) act" where
  "ValidateAgainstMetadata mem pInfo cls objectSize =
     (case pInfo of
        None \<Rightarrow> ret Pending
      | Some (IsArrayClass, GetClassLayout) \<Rightarrow>
          if cls = 0 then ret Pending
          else bnd (call (IsArrayClass cls)) (\<lambda>isArray.
            if isArray then ret Pending
            else bnd (call (ContainsGCPointers mem cls)) (\<lambda>flagSaysContainsPointers.
              bnd (call (GetClassLayout cls)) (\<lambda>layout.
              case layout of
                None \<Rightarrow> ret Pending
              | Some fieldCount \<Rightarrow>
                  if flagSaysContainsPointers then
                    bnd (call (GetSeriesCount mem cls)) (\<lambda>seriesCount.
                    if \<not> LooksLikeValidSeriesCount seriesCount objectSize then ret Failed
                    else if fieldCount = 0 then ret Failed
                    else ret Passed)
                  else ret Pending))))"

section \<open>Reference description of the slots\<close>

text \<open>Visit a list of slots, each with its offset, in order.\<close>

fun visit_slots :: "memory \<Rightarrow> 's ref_callback \<Rightarrow> (u64 \<times> u32) list \<Rightarrow> ('s, unit) act" where
  "visit_slots mem callback [] = ret ()"
| "visit_slots mem callback ((slot, off) # slots) =
     bnd (call (read64 mem slot)) (\<lambda>v.
     bnd (if v \<noteq> 0 then callback slot v off else ret ()) (\<lambda>_.
     visit_slots mem callback slots))"

text \<open>The offsets that a series describes: the words of a range that lies inside the object.\<close>

definition series_offsets :: "u64 \<Rightarrow> u64 \<times> u64 \<Rightarrow> u64 list" where
  "series_offsets objectSize s =
     (let (encodedSize, offset) = s; rangeSize = encodedSize + objectSize
      in if 0 < sint rangeSize \<and> 0 \<le> sint offset \<and> offset \<le> objectSize \<and> offset + rangeSize \<le> objectSize
         then map (\<lambda>j. offset + of_nat j * 8) [0..<unat rangeSize div 8] else [])"

definition object_slots :: "u64 \<Rightarrow> u64 \<Rightarrow> (u64 \<times> u64) list \<Rightarrow> (u64 \<times> u32) list" where
  "object_slots objectAddress objectSize series =
     map (\<lambda>off. (objectAddress + off, ucast off)) (concat (map (series_offsets objectSize) series))"

text \<open>The series that the memory holds below the MethodTable.\<close>

definition series_in_memory :: "memory \<Rightarrow> ClassID \<Rightarrow> (u64 \<times> u64) list \<Rightarrow> bool" where
  "series_in_memory mem cls series \<longleftrightarrow>
     (\<forall>i<length series. load64 mem (cls - 8 - 16 * of_nat (Suc i)) = Some (fst (series ! i))
        \<and> load64 mem (cls - 16 * of_nat (Suc i)) = Some (snd (series ! i)))"

text \<open>
  A value-type array: element \<open>e\<close> starts at a fixed stride, and the items of an element give runs of
  pointers separated by gaps.
\<close>

definition item_bytes :: "u64 \<Rightarrow> u64" where
  "item_bytes item = 8 * of_nat (unat (GetNptrs item)) + ucast (GetSkip item)"

fun element_slots :: "u64 \<Rightarrow> u64 list \<Rightarrow> u64 list" where
  "element_slots cur [] = []"
| "element_slots cur (item # items) =
     map (\<lambda>p. cur + 8 * of_nat p) [0..<unat (GetNptrs item)] @ element_slots (cur + item_bytes item) items"

definition array_slots :: "u64 \<Rightarrow> u64 \<Rightarrow> u64 list \<Rightarrow> nat \<Rightarrow> u64 list" where
  "array_slots arrayAddress startOffset items n =
     concat (map (\<lambda>e. element_slots (arrayAddress + startOffset + of_nat e * sum_list (map item_bytes items)) items) [0..<n])"

definition items_in_memory :: "memory \<Rightarrow> ClassID \<Rightarrow> u64 list \<Rightarrow> bool" where
  "items_in_memory mem cls items \<longleftrightarrow>
     (\<forall>v<length items. load64 mem (cls - 24 - 8 * of_nat v) = Some (items ! v))"

section \<open>The loops visit the described slots\<close>

lemma bnd_assoc: "bnd (bnd m f) g = bnd m (\<lambda>a. bnd (f a) g)"
  by (rule ext) (auto simp: bnd_def split: option.split sum.split prod.split)

lemma bnd_ret [simp]: "bnd (ret a) f = f a" "bnd m ret = m"
  by (rule ext, auto simp: bnd_def ret_def split: option.split sum.split prod.split)+

lemma bnd_call [simp]: "bnd (call (Inr a)) f = f a"
  by (rule ext) (simp add: bnd_def call_def)

lemma read64_eq [simp]: "load64 mem a = Some v \<Longrightarrow> read64 mem a = Inr v"
  by (simp add: read64_def)

lemma visit_slots_append:
  "visit_slots mem callback (xs @ ys) = bnd (visit_slots mem callback xs) (\<lambda>_. visit_slots mem callback ys)"
  by (induction mem callback xs rule: visit_slots.induct) (simp_all add: bnd_assoc)

lemma slot_loop_eq:
  "slot_loop mem callback rs off j n =
     visit_slots mem callback (map (\<lambda>k. (rs + of_nat k * 8, ucast (off + of_nat k * 8))) [j..<j + n])"
proof (induction n arbitrary: j)
  case (Suc n)
  have "[j..<j + Suc n] = j # [Suc j..<Suc j + n]" by (simp add: upt_conv_Cons)
  then show ?case using Suc by simp
qed simp

lemma sint_u64: "sint (w :: u64) = (if unat w < 2 ^ 63 then int (unat w) else int (unat w) - 2 ^ 64)"
proof -
  have sint: "sint w = signed_take_bit 63 (int (unat w))" by (simp add: sint_uint)
  have lt: "int (unat w) < 2 ^ 64" using uint_lt2p [of w] by simp
  have iff: "unat w < 2 ^ 63 \<longleftrightarrow> int (unat w) < 2 ^ 63" by (metis of_nat_less_iff of_nat_numeral of_nat_power)
  show ?thesis
  proof (cases "unat w < 2 ^ 63")
    case True
    then have "- (2 ^ 63) \<le> int (unat w)" "int (unat w) < 2 ^ 63" using iff by (linarith, blast)
    then show ?thesis using True sint by (simp only: signed_take_bit_int_eq_self if_True)
  next
    case False
    then have ge: "2 ^ 63 \<le> int (unat w)" unfolding iff by (rule leI)
    have b: "- (2 ^ 63) \<le> int (unat w) - 2 ^ 64" "int (unat w) - 2 ^ 64 < 2 ^ 63"
      using lt ge by (simp_all del: int_nat_eq)
    have "take_bit (Suc 63) (int (unat w)) = take_bit (Suc 63) (int (unat w) - 2 ^ 64)"
      by (simp only: take_bit_eq_mod) simp
    then have "signed_take_bit 63 (int (unat w)) = signed_take_bit 63 (int (unat w) - 2 ^ 64)"
      by (simp only: signed_take_bit_eq_iff_take_bit_eq)
    then show ?thesis using False b sint by (simp only: signed_take_bit_int_eq_self if_False)
  qed
qed

lemma sint_nonneg: "0 \<le> sint (w :: u64) \<longleftrightarrow> unat w < 2 ^ 63"
  using sint_u64 [of w] uint_lt2p [of w] by (auto split: if_splits)

lemma sint_pos: "0 < sint (w :: u64) \<longleftrightarrow> w \<noteq> 0 \<and> unat w < 2 ^ 63"
proof -
  have "sint w = 0 \<longleftrightarrow> w = 0" by (metis signed_0 signed_word_eqI)
  then show ?thesis using sint_nonneg [of w] by auto
qed

lemma series_offsets_bound: "off \<in> set (series_offsets sz s) \<Longrightarrow> unat off + 8 \<le> unat sz"
proof -
  assume off: "off \<in> set (series_offsets sz s)"
  obtain enc ofs where s: "s = (enc, ofs)" by (cases s)
  define range where "range = enc + sz"
  from off obtain j where c: "0 < sint range" "0 \<le> sint ofs" "ofs + range \<le> sz"
    and j: "j < unat range div 8" "off = ofs + of_nat j * 8"
    by (auto simp: series_offsets_def s range_def Let_def split: if_splits)
  from c have lt: "unat range < 2 ^ 63" "unat ofs < 2 ^ 63"
    by (simp_all add: sint_pos sint_nonneg)
  then have "unat (ofs + range) = unat ofs + unat range" by (simp add: unat_word_ariths)
  then have le: "unat ofs + unat range \<le> unat sz" using c(3) by (simp add: word_le_nat_alt)
  have j8: "j * 8 + 8 \<le> unat range" using j(1) by linarith
  then have "of_nat j * 8 = (of_nat (j * 8) :: u64)" "unat (of_nat (j * 8) :: u64) = j * 8"
    using lt by (simp, intro unat_of_nat_less, simp)
  then have "unat off = unat ofs + j * 8" using j(2) j8 lt by (simp add: unat_word_ariths)
  then show ?thesis using j8 le by simp
qed

lemma enumerate_series_eq:
  assumes "load64 mem (cls - 8 - 16 * of_nat i) = Some enc" and "load64 mem (cls - 16 * of_nat i) = Some ofs"
  shows "enumerate_series mem callback cls obj sz i = visit_slots mem callback (object_slots obj sz [(enc, ofs)])"
proof -
  define rs where "rs = enc + sz"
  have enum: "enumerate_series mem callback cls obj sz i =
     (if sint rs \<le> 0 then ret () else if sint ofs < 0 \<or> ofs > sz \<or> ofs + rs > sz then ret ()
      else slot_loop mem callback (obj + ofs) ofs 0 (unat rs div 8))"
    unfolding enumerate_series_def Let_def read64_eq [OF assms(1)] read64_eq [OF assms(2)] bnd_call rs_def
    by (simp only: unat_div) simp
  have so: "series_offsets sz (enc, ofs) =
     (if 0 < sint rs \<and> 0 \<le> sint ofs \<and> ofs \<le> sz \<and> ofs + rs \<le> sz
      then map (\<lambda>k. ofs + of_nat k * 8) [0..<unat rs div 8] else [])"
    unfolding series_offsets_def rs_def Let_def by (simp only: prod.case)
  have slots: "object_slots obj sz [(enc, ofs)] = map (\<lambda>off. (obj + off, ucast off)) (series_offsets sz (enc, ofs))"
    by (simp add: object_slots_def)
  show ?thesis
  proof (cases "0 < sint rs \<and> 0 \<le> sint ofs \<and> ofs \<le> sz \<and> ofs + rs \<le> sz")
    case True
    then have "\<not> sint rs \<le> 0" "\<not> (sint ofs < 0 \<or> ofs > sz \<or> ofs + rs > sz)" by (simp_all only: not_le not_less de_Morgan_disj simp_thms)
    then show ?thesis unfolding enum slots so if_P [OF True] by (simp add: slot_loop_eq o_def add.assoc)
  next
    case False
    then have "sint rs \<le> 0 \<or> (sint ofs < 0 \<or> ofs > sz \<or> ofs + rs > sz)" by (simp only: not_le not_less de_Morgan_conj)
    then show ?thesis unfolding enum slots so if_not_P [OF False] by (simp only: list.map visit_slots.simps split: if_split) blast
  qed
qed

lemma object_slots_Cons: "object_slots obj sz (s # ss) = object_slots obj sz [s] @ object_slots obj sz ss"
  by (simp add: object_slots_def)

lemma series_loop_eq:
  assumes "\<And>k. k < length series \<Longrightarrow> load64 mem (cls - 8 - 16 * of_nat (i + k)) = Some (fst (series ! k))
      \<and> load64 mem (cls - 16 * of_nat (i + k)) = Some (snd (series ! k))"
  shows "series_loop mem callback cls obj sz i (length series) = visit_slots mem callback (object_slots obj sz series)"
  using assms
proof (induction series arbitrary: i)
  case (Cons s series)
  have tail: "series_loop mem callback cls obj sz (Suc i) (length series) = visit_slots mem callback (object_slots obj sz series)"
  proof (rule Cons.IH)
    fix k assume "k < length series"
    then show "load64 mem (cls - 8 - 16 * of_nat (Suc i + k)) = Some (fst (series ! k))
      \<and> load64 mem (cls - 16 * of_nat (Suc i + k)) = Some (snd (series ! k))" using Cons.prems [of "Suc k"] by simp
  qed
  have "enumerate_series mem callback cls obj sz i = visit_slots mem callback (object_slots obj sz [(fst s, snd s)])"
    by (rule enumerate_series_eq) (use Cons.prems [of 0] in simp_all)
  then have "series_loop mem callback cls obj sz i (length (s # series))
      = visit_slots mem callback (object_slots obj sz [s] @ object_slots obj sz series)"
    by (simp add: tail visit_slots_append)
  then show ?case by (simp only: object_slots_Cons [of obj sz s series])
qed (simp add: object_slots_def)

lemma ptr_loop_eq:
  "ptr_loop mem callback arr cur n =
     bnd (visit_slots mem callback (map (\<lambda>s. (s, ucast (s - arr))) (map (\<lambda>p. cur + 8 * of_nat p) [0..<n])))
       (\<lambda>_. ret (cur + 8 * of_nat n))"
proof (induction n arbitrary: cur)
  case (Suc n)
  have "[0..<Suc n] = 0 # map Suc [0..<n]" by (simp add: upt_conv_Cons map_Suc_upt)
  moreover have "8 * of_nat (Suc p) = (8 + 8 * of_nat p :: u64)" for p by (simp add: distrib_left)
  ultimately show ?case using Suc [of "cur + 8"] by (simp add: bnd_assoc o_def add.assoc del: of_nat_Suc upt_Suc)
qed simp

lemma item_loop_eq:
  assumes "\<And>k. k < length items \<Longrightarrow> load64 mem (cls - 24 - 8 * of_nat (v + k)) = Some (items ! k)"
  shows "item_loop mem callback cls arr cur v (length items) =
     bnd (visit_slots mem callback (map (\<lambda>s. (s, ucast (s - arr))) (element_slots cur items)))
       (\<lambda>_. ret (cur + sum_list (map item_bytes items)))"
  using assms
proof (induction items arbitrary: cur v)
  case (Cons item items)
  have tail: "item_loop mem callback cls arr (cur + item_bytes item) (Suc v) (length items) =
      bnd (visit_slots mem callback (map (\<lambda>s. (s, ucast (s - arr))) (element_slots (cur + item_bytes item) items)))
       (\<lambda>_. ret (cur + item_bytes item + sum_list (map item_bytes items)))"
  proof (rule Cons.IH)
    fix k assume "k < length items"
    then show "load64 mem (cls - 24 - 8 * of_nat (Suc v + k)) = Some (items ! k)" using Cons.prems [of "Suc k"] by simp
  qed
  have "load64 mem (cls - 24 - 8 * of_nat v) = Some item" using Cons.prems [of 0] by simp
  moreover have "8 * ucast (GetNptrs item) + ucast (GetSkip item) = item_bytes item"
    by (simp add: item_bytes_def)
  ultimately show ?case using tail
    by (simp add: ptr_loop_eq bnd_assoc visit_slots_append add.assoc)
qed simp

lemma elem_loop_eq:
  assumes "items_in_memory mem cls items"
  defines "stride \<equiv> sum_list (map item_bytes items)"
  shows "elem_loop mem callback cls arr (length items) cur n =
     visit_slots mem callback (map (\<lambda>s. (s, ucast (s - arr)))
       (concat (map (\<lambda>e. element_slots (cur + of_nat e * stride) items) [0..<n])))"
proof (induction n arbitrary: cur)
  case (Suc n)
  have "[0..<Suc n] = 0 # map Suc [0..<n]" by (simp add: upt_conv_Cons map_Suc_upt)
  moreover have "item_loop mem callback cls arr cur 0 (length items) =
     bnd (visit_slots mem callback (map (\<lambda>s. (s, ucast (s - arr))) (element_slots cur items))) (\<lambda>_. ret (cur + stride))"
    unfolding stride_def by (rule item_loop_eq) (use assms(1) in \<open>simp add: items_in_memory_def\<close>)
  moreover have "of_nat (Suc e) * stride = stride + of_nat e * stride" for e
    by (simp add: distrib_right)
  ultimately show ?case
    using Suc [of "cur + stride"] by (simp add: bnd_assoc visit_slots_append o_def add.assoc del: of_nat_Suc upt_Suc)
qed simp

lemma unat_uminus_u64:
  assumes "(w :: u64) \<noteq> 0"
  shows "unat (- w) = 2 ^ 64 - unat w"
proof -
  have pos: "0 < unat w" using assms by (simp add: unat_gt_0)
  have "of_nat (2 ^ 64 - unat w) + w = (of_nat (2 ^ 64 - unat w + unat w) :: u64)" by simp
  also have "\<dots> = of_nat (2 ^ 64)" using unat_u64_less [of w] by (simp only: le_add_diff_inverse2 less_imp_le)
  also have "\<dots> = (0 :: u64)" by simp
  finally have "- w = of_nat (2 ^ 64 - unat w)" by (simp only: add_eq_0_iff2)
  moreover have "unat (of_nat (2 ^ 64 - unat w) :: u64) = 2 ^ 64 - unat w" using pos by (intro unat_of_nat_less) simp
  ultimately show ?thesis by simp
qed

lemma LooksLikeValid_iff:
  "LooksLikeValidSeriesCount count sz \<longleftrightarrow>
     count \<noteq> 0 \<and> (sint count = - (2 ^ 63) \<or> nat \<bar>sint count\<bar> \<le> unat sz div 8 + 1)"
proof (cases "count = 0")
  case False
  define m where "m = sz div 8 + 1"
  have sz: "unat (sz div 8) = unat sz div 8" by (simp add: unat_div)
  have small: "unat sz div 8 < 2 ^ 61" using unat_u64_less [of sz] by simp
  then have m: "unat m = unat sz div 8 + 1" using sz by (simp add: m_def unat_word_ariths)
  then have sm: "sint m = int (unat sz div 8 + 1)" using small by (simp only: sint_u64) simp
  have eq: "LooksLikeValidSeriesCount count sz \<longleftrightarrow> sint (if sint count < 0 then - count else count) \<le> sint m"
    using False by (simp add: LooksLikeValidSeriesCount_def m_def Let_def)
  show ?thesis
  proof (cases "unat count < 2 ^ 63")
    case True
    then have c: "sint count = int (unat count)" by (simp only: sint_u64 if_True)
    then have c0: "0 \<le> sint count" by simp
    then have "sint count \<noteq> - (2 ^ 63)" by auto
    moreover have "nat \<bar>sint count\<bar> \<le> unat sz div 8 + 1 \<longleftrightarrow> sint count \<le> sint m"
      by (simp only: sm nat_le_iff abs_of_nonneg [OF c0])
    ultimately show ?thesis using False eq c0 by (simp add: not_less)
  next
    case neg: False
    then have c: "sint count = int (unat count) - 2 ^ 64" by (simp only: sint_u64 if_False)
    then have c0: "sint count < 0" using uint_lt2p [of count] by simp
    have mc: "unat (- count) = 2 ^ 64 - unat count" by (rule unat_uminus_u64 [OF False])
    show ?thesis
    proof (cases "unat count = 2 ^ 63")
      case True
      have "sint count = - (2 ^ 63)" unfolding c True by simp
      moreover have "sint (- count) < 0" using mc True by (simp add: sint_u64)
      ultimately show ?thesis using False eq sm c0 by simp
    next
      case gt: False
      then have "unat (- count) < 2 ^ 63" using mc neg by simp
      then have "sint (- count) = int (2 ^ 64 - unat count)" using mc by (simp only: sint_u64 if_True)
      also have "\<dots> = - sint count" using c unat_u64_less [of count] by simp
      finally have "sint (- count) = - sint count" .
      moreover have "nat \<bar>sint count\<bar> \<le> unat sz div 8 + 1 \<longleftrightarrow> - sint count \<le> sint m"
        by (simp only: sm nat_le_iff abs_of_neg [OF c0])
      moreover have "sint count \<noteq> - (2 ^ 63)"
      proof
        assume "sint count = - (2 ^ 63)"
        then have "int (unat count) = int (2 ^ 63)" using c by simp
        then show False using gt by (simp only: of_nat_eq_iff)
      qed
      ultimately show ?thesis using False eq c0 by simp
    qed
  qed
qed (simp add: LooksLikeValidSeriesCount_def)

lemma EnumerateObjectRefs_slots:
  assumes "load64 mem (cls - 8) = Some count" and "series_in_memory mem cls series" and "length series = unat count"
  shows "EnumerateObjectRefs mem cls obj sz callback =
      (if 0 < sint count \<and> LooksLikeValidSeriesCount count sz
       then visit_slots mem callback (object_slots obj sz series) else ret ())"
proof -
  have "series_loop mem callback cls obj sz 1 (unat count) = visit_slots mem callback (object_slots obj sz series)"
    unfolding assms(3) [symmetric] by (rule series_loop_eq) (use assms(2) in \<open>simp add: series_in_memory_def\<close>)
  then show ?thesis by (auto simp: EnumerateObjectRefs_def read64_eq [OF assms(1)])
qed

section \<open>Properties\<close>

text \<open>
  C18. The enumeration of an object's references is equal to a visit of the slots that its descriptor
  series describe, in order, and every slot lies inside the object: a series whose range leaves the
  object is skipped, and a series count that is not positive or not plausible makes no read at all.
\<close>

theorem EnumerateObjectRefs_correct:
  assumes "load64 mem (cls - 8) = Some count" and "series_in_memory mem cls series" and "length series = unat count"
  shows "EnumerateObjectRefs mem cls obj sz callback =
      (if 0 < sint count \<and> LooksLikeValidSeriesCount count sz
       then visit_slots mem callback (object_slots obj sz series) else ret ())
    \<and> (\<forall>(slot, off) \<in> set (object_slots obj sz series). \<exists>d. slot = obj + d \<and> off = ucast d \<and> unat d + 8 \<le> unat sz)"
proof
  show "EnumerateObjectRefs mem cls obj sz callback =
      (if 0 < sint count \<and> LooksLikeValidSeriesCount count sz
       then visit_slots mem callback (object_slots obj sz series) else ret ())"
    by (rule EnumerateObjectRefs_slots [OF assms])
  show "\<forall>(slot, off) \<in> set (object_slots obj sz series). \<exists>d. slot = obj + d \<and> off = ucast d \<and> unat d + 8 \<le> unat sz"
    using series_offsets_bound by (auto simp: object_slots_def)
qed

text \<open>
  The enumeration of a value-type array visits, for every element in order, the pointers of every
  item of the descriptor, where element \<open>e\<close> starts at \<open>e\<close> times the stride of the items; a wrong sign
  of the count or of the start offset, or more than 65535 items, makes it visit nothing.
\<close>

lemma EnumerateVTArrayRefs_correct:
  assumes "load64 mem (cls - 8) = Some count" and "load64 mem (cls - 16) = Some startOffset"
    and "items_in_memory mem cls items" and "length items = unat (- count)"
  shows "EnumerateVTArrayRefs mem cls arr n callback =
     (if sint count < 0 \<and> unat (- count) \<le> 65535 \<and> 0 \<le> sint startOffset
      then visit_slots mem callback (map (\<lambda>s. (s, ucast (s - arr))) (array_slots arr startOffset items (unat n)))
      else ret ())"
proof -
  have "elem_loop mem callback cls arr (unat (- count)) (arr + startOffset) (unat n) =
     visit_slots mem callback (map (\<lambda>s. (s, ucast (s - arr))) (array_slots arr startOffset items (unat n)))"
    unfolding assms(4) [symmetric] array_slots_def by (rule elem_loop_eq [OF assms(3)])
  moreover have "MaxValSerieItems < - count \<longleftrightarrow> \<not> unat (- count) \<le> 65535"
    by (auto simp: MaxValSerieItems_def word_less_nat_alt)
  ultimately show ?thesis
    by (auto simp: EnumerateVTArrayRefs_def Let_def read64_eq [OF assms(1)] read64_eq [OF assms(2)])
qed

text \<open>
  C40. A series count is accepted when its magnitude is between one and one more than the number of
  words of the object, and also when it is the least 64-bit integer, whose negation wraps.
\<close>

theorem LooksLikeValidSeriesCount_exact:
  "LooksLikeValidSeriesCount count sz \<longleftrightarrow>
     1 \<le> \<bar>sint count\<bar> \<and> (\<bar>sint count\<bar> \<le> int (unat sz) div 8 + 1 \<or> sint count = - (2 ^ 63))"
proof -
  have "count \<noteq> 0 \<longleftrightarrow> 1 \<le> \<bar>sint count\<bar>" by (metis abs_0 int_one_le_iff_zero_less signed_0 signed_word_eqI zero_less_abs_iff)
  moreover have "nat \<bar>sint count\<bar> \<le> unat sz div 8 + 1 \<longleftrightarrow> \<bar>sint count\<bar> \<le> int (unat sz) div 8 + 1"
    by (simp only: nat_le_iff of_nat_add zdiv_int of_nat_1 of_nat_numeral)
  ultimately show ?thesis using LooksLikeValid_iff [of count sz] by blast
qed

section \<open>A concrete memory\<close>

text \<open>A block of bytes at an address, and the bytes of a list of 64-bit words.\<close>

definition block :: "u64 \<Rightarrow> u8 list \<Rightarrow> memory" where
  "block base bs a = (if unat (a - base) < length bs then Some (bs ! unat (a - base)) else None)"

definition words_bytes :: "u64 list \<Rightarrow> u8 list" where
  "words_bytes ws = concat (map (\<lambda>w. le_bytes 8 (unat w)) ws)"

lemma those_Some: "(\<And>i. i < n \<Longrightarrow> f i = Some (bs ! i)) \<Longrightarrow> length bs = n \<Longrightarrow> those (map f [0..<n]) = Some bs"
proof (induction n arbitrary: f bs)
  case (Suc n)
  obtain b bs' where bs: "bs = b # bs'" using Suc.prems(2) by (cases bs) auto
  have "[0..<Suc n] = 0 # map Suc [0..<n]" by (simp add: upt_conv_Cons map_Suc_upt)
  moreover have "those (map (f \<circ> Suc) [0..<n]) = Some bs'" by (rule Suc.IH) (use Suc.prems bs in force)+
  moreover have "f 0 = Some b" using Suc.prems(1) [of 0] bs by simp
  ultimately show ?case using bs by simp
qed simp

lemma words_bytes_nth:
  "k < length ws \<Longrightarrow> i < 8 \<Longrightarrow> words_bytes ws ! (8 * k + i) = le_bytes 8 (unat (ws ! k)) ! i"
proof (induction ws arbitrary: k)
  case (Cons w ws)
  then show ?case by (cases k) (auto simp: words_bytes_def nth_append)
qed simp

lemma length_words_bytes [simp]: "length (words_bytes ws) = 8 * length ws"
  by (induction ws) (simp_all add: words_bytes_def)

text \<open>A block of words holds the words, also when other memory is around it.\<close>

lemma load64_block:
  assumes "k < length ws" "8 * length ws < 2 ^ 64" and "\<And>a. block base (words_bytes ws) a \<noteq> None \<Longrightarrow> mem a = block base (words_bytes ws) a"
    and "a = base + 8 * of_nat k"
  shows "load64 mem a = Some (ws ! k)"
proof -
  have "mem (a + of_nat i) = Some (le_bytes 8 (unat (ws ! k)) ! i)" if i: "i < 8" for i
  proof -
    have "a + of_nat i - base = of_nat (8 * k + i)" by (simp add: assms(4))
    moreover have "unat (of_nat (8 * k + i) :: u64) = 8 * k + i"
      using assms(1,2) i by (intro unat_of_nat_less) simp
    ultimately have "unat (a + of_nat i - base) = 8 * k + i" by (simp only:)
    moreover have "8 * k + i < 8 * length ws" using assms(1) i by linarith
    ultimately have "block base (words_bytes ws) (a + of_nat i) = Some (le_bytes 8 (unat (ws ! k)) ! i)"
      using words_bytes_nth [OF assms(1) i] by (simp add: block_def)
    then show ?thesis using assms(3) by simp
  qed
  then have "load_bytes mem a 8 = Some (le_bytes 8 (unat (ws ! k)))"
    unfolding load_bytes_def by (intro those_Some) auto
  then show ?thesis using word_le_roundtrip [of 8 "ws ! k"] by (simp add: load64_def)
qed

lemma those_nth: "those (map f [0..<n]) = Some bs \<Longrightarrow> length bs = n \<and> (\<forall>i<n. f i = Some (bs ! i))"
proof (induction n arbitrary: f bs)
  case (Suc n)
  have "[0..<Suc n] = 0 # map Suc [0..<n]" by (simp add: upt_conv_Cons map_Suc_upt)
  then obtain b bs' where b: "f 0 = Some b" "those (map (f \<circ> Suc) [0..<n]) = Some bs'" "bs = b # bs'"
    using Suc.prems by (auto split: option.splits)
  have "length bs' = n \<and> (\<forall>i<n. (f \<circ> Suc) i = Some (bs' ! i))" by (rule Suc.IH [OF b(2)])
  then show ?case using b(1,3) by (auto simp: nth_Cons less_Suc_eq_0_disj)
qed simp

lemma load32_of_load64: "load64 mem a = Some w \<Longrightarrow> load32 mem a = Some (ucast w)"
proof -
  assume "load64 mem a = Some w"
  then obtain bs where bs: "load_bytes mem a 8 = Some bs" "w = of_nat (le_nat bs)" by (auto simp: load64_def)
  then have n: "length bs = 8" "\<forall>i<8. mem (a + of_nat i) = Some (bs ! i)" using those_nth by (auto simp: load_bytes_def)
  then have "load_bytes mem a 4 = Some (take 4 bs)" unfolding load_bytes_def by (intro those_Some) auto
  moreover have "le_nat bs = le_nat (take 4 bs) + 256 ^ 4 * le_nat (drop 4 bs)"
    using le_nat_append [of "take 4 bs" "drop 4 bs"] n(1) by simp
  then have eq: "(of_nat (le_nat bs) :: u32) = of_nat (le_nat (take 4 bs)) + of_nat (2 ^ 32) * of_nat (le_nat (drop 4 bs))"
    by simp
  have "of_nat (2 ^ 32) = (0 :: u32)" by simp
  with eq have "(of_nat (le_nat bs) :: u32) = of_nat (le_nat (take 4 bs))" by (simp only: mult_zero_left add_0_right)
  moreover have "ucast (of_nat (le_nat bs) :: u64) = (of_nat (le_nat bs) :: u32)"
    by (simp add: unsigned_of_nat take_bit_eq_mod word_of_nat_eq_iff mod_mod_cancel)
  ultimately show ?thesis by (simp add: load32_def bs(2))
qed

text \<open>
  A class at \<open>0x10000\<close> with one series of one reference at offset 8 of its objects of 24 bytes, and two
  such objects, at \<open>0x10008\<close> and \<open>0x10020\<close>, that refer to each other.
\<close>

definition heap_words :: "u64 list" where
  "heap_words = [- 16, 8, 1, 0x01000000, 0x10000, 0x10020, 0, 0x10000, 0x10008, 0]"

definition heap_example :: memory where
  "heap_example = block 0xFFE8 (words_bytes heap_words)"

lemma heap_example_load: "k < 10 \<Longrightarrow> a = 0xFFE8 + 8 * of_nat k \<Longrightarrow> load64 heap_example a = Some (heap_words ! k)"
  by (rule load64_block [of k heap_words "0xFFE8"]) (simp_all add: heap_words_def heap_example_def)

lemma heap_example_loads:
  "load64 heap_example (0x10000 - 24) = Some (- 16)" "load64 heap_example (0x10000 - 16) = Some 8"
  "load64 heap_example (0x10000 - 8) = Some 1" "load64 heap_example 0x10000 = Some 0x01000000"
  "load64 heap_example 0x10010 = Some 0x10020" "load64 heap_example 0x10028 = Some 0x10008"
  using heap_example_load [of 0] heap_example_load [of 1] heap_example_load [of 2] heap_example_load [of 3]
    heap_example_load [of 5] heap_example_load [of 8]
  by (simp_all add: heap_words_def)

text \<open>The class of a value-type array with one item of one pointer and a gap of 8 bytes, and an array.\<close>

definition array_words :: "u64 list" where
  "array_words = [0x0000000800000001, 16, - 1, 0x01000000, 0x10000, 2, 0x30000, 7, 0x30008, 7]"

definition array_example :: memory where
  "array_example = block 0xFFE8 (words_bytes array_words)"

lemma array_example_load: "k < 10 \<Longrightarrow> a = 0xFFE8 + 8 * of_nat k \<Longrightarrow> load64 array_example a = Some (array_words ! k)"
  by (rule load64_block [of k array_words "0xFFE8"]) (simp_all add: array_words_def array_example_def)

lemma array_example_loads:
  "load64 array_example (0x10000 - 24) = Some 0x0000000800000001" "load64 array_example (0x10000 - 16) = Some 16"
  "load64 array_example (0x10000 - 8) = Some (- 1)"
  "load64 array_example 0x10018 = Some 0x30000" "load64 array_example 0x10028 = Some 0x30008"
  using array_example_load [of 0] array_example_load [of 1] array_example_load [of 2] array_example_load [of 6]
    array_example_load [of 8]
  by (simp_all add: array_words_def)

abbreviation collect :: "u64 list ref_callback" where
  "collect slot v off s \<equiv> Some (Inr (), s @ [v])"

theorem EnumerateObjectRefs_correct_witness:
  "EnumerateObjectRefs heap_example 0x10000 0x10008 24 collect [] = Some (Inr (), [0x10020])"
proof -
  have "series_in_memory heap_example 0x10000 [(- 16, 8)]"
    using heap_example_loads by (simp add: series_in_memory_def)
  from EnumerateObjectRefs_correct [OF heap_example_loads(3) this, of "0x10008" 24 collect]
  have "EnumerateObjectRefs heap_example 0x10000 0x10008 24 collect = visit_slots heap_example collect [(0x10010, 8)]"
    by (simp add: LooksLikeValid_iff object_slots_def series_offsets_def)
  then show ?thesis using heap_example_loads by (simp add: bnd_def ret_def)
qed

end
