(* ===== verification/CorSig.thy ===== *)
theory CorSig
  imports Utf Codec
begin

unbundle bit_operations_syntax

text \<open>
  Compressed integers and tokens of metadata signatures (\<open>coreclr/src/inc/cor.h\<close>), which the inline
  value type cache reads: one, two or four bytes with a length prefix in the first one, big-endian. A
  pointer into a signature with its remaining length is the list of the remaining bytes; a result
  is the value and the number of bytes consumed, or \<open>None\<close> for a bad signature.
\<close>

section \<open>Model\<close>

abbreviation byte :: "u8 list \<Rightarrow> nat \<Rightarrow> u32" where
  "byte bs i \<equiv> ucast (bs ! i)"

definition CorSigUncompressData :: "u8 list \<Rightarrow> (u32 \<times> nat) option" where
  "CorSigUncompressData bs =
     (if bs = [] then None
      else if byte bs 0 AND 0x80 = 0 then (if length bs < 1 then None else Some (byte bs 0, 1))
      else if byte bs 0 AND 0xC0 = 0x80 then
        (if length bs < 2 then None
         else Some (push_bit 8 (byte bs 0 AND 0x3F) OR byte bs 1, 2))
      else if byte bs 0 AND 0xE0 = 0xC0 then
        (if length bs < 4 then None
         else Some (push_bit 24 (byte bs 0 AND 0x1F) OR push_bit 16 (byte bs 1) OR push_bit 8 (byte bs 2) OR byte bs 3, 4))
      else None)"

definition CorSigDecodeTokenType :: "u32 \<Rightarrow> u32" where
  "CorSigDecodeTokenType encoded = [0x02000000, 0x01000000, 0x1B000000, 0x72000000] ! unat encoded"

definition TokenFromRid :: "u32 \<Rightarrow> u32 \<Rightarrow> u32" where
  "TokenFromRid rid tktype = rid OR tktype"

definition RidFromToken :: "u32 \<Rightarrow> u32" where
  "RidFromToken tk = tk AND 0x00FFFFFF"

definition TypeFromToken :: "u32 \<Rightarrow> u32" where
  "TypeFromToken tk = tk AND 0xFF000000"

definition CorSigUncompressToken :: "u8 list \<Rightarrow> (u32 \<times> nat) option" where
  "CorSigUncompressToken bs =
     (case CorSigUncompressData bs of
        None \<Rightarrow> None
      | Some (tk, n) \<Rightarrow> Some (TokenFromRid (drop_bit 2 tk) (CorSigDecodeTokenType (tk AND 3)), n))"

definition SIGN_MASK_ONEBYTE :: u32 where "SIGN_MASK_ONEBYTE = 0xFFFFFFC0"
definition SIGN_MASK_TWOBYTE :: u32 where "SIGN_MASK_TWOBYTE = 0xFFFFE000"
definition SIGN_MASK_FOURBYTE :: u32 where "SIGN_MASK_FOURBYTE = 0xF0000000"

definition CorSigUncompressSignedInt :: "u8 list \<Rightarrow> (u32 \<times> nat) option" where
  "CorSigUncompressSignedInt bs =
     (case CorSigUncompressData bs of
        None \<Rightarrow> None
      | Some (d, cb) \<Rightarrow>
          let iData = drop_bit 1 d
          in Some (if d AND 1 \<noteq> 0
                   then iData OR (if cb = 1 then SIGN_MASK_ONEBYTE else if cb = 2 then SIGN_MASK_TWOBYTE
                                  else SIGN_MASK_FOURBYTE)
                   else iData, cb))"

definition CorSigCompressData :: "u32 \<Rightarrow> u8 list option" where
  "CorSigCompressData iLen =
     (if iLen \<le> 0x7F then Some [ucast iLen]
      else if iLen \<le> 0x3FFF then Some [ucast (drop_bit 8 iLen OR 0x80), ucast (iLen AND 0xFF)]
      else if iLen \<le> 0x1FFFFFFF then
        Some [ucast (drop_bit 24 iLen OR 0xC0), ucast (drop_bit 16 iLen AND 0xFF), ucast (drop_bit 8 iLen AND 0xFF),
              ucast (iLen AND 0xFF)]
      else None)"

definition CorSigCompressToken :: "u32 \<Rightarrow> u8 list option" where
  "CorSigCompressToken tk =
     (let rid = RidFromToken tk; ulTyp = TypeFromToken tk
      in if rid > 0x3FFFFFF then None
         else
           let r = push_bit 2 rid
           in CorSigCompressData
                (if ulTyp = CorSigDecodeTokenType 1 then r OR 1
                 else if ulTyp = CorSigDecodeTokenType 2 then r OR 2
                 else if ulTyp = CorSigDecodeTokenType 3 then r OR 3 else r))"

definition CorSigCompressSignedInt :: "u32 \<Rightarrow> u8 list option" where
  "CorSigCompressSignedInt iData =
     (let isSigned = (if iData <s 0 then 1 else 0)
      in if iData AND SIGN_MASK_ONEBYTE = 0 \<or> iData AND SIGN_MASK_ONEBYTE = SIGN_MASK_ONEBYTE then
           let v = push_bit 1 (iData AND NOT SIGN_MASK_ONEBYTE) OR isSigned in Some [ucast v]
         else if iData AND SIGN_MASK_TWOBYTE = 0 \<or> iData AND SIGN_MASK_TWOBYTE = SIGN_MASK_TWOBYTE then
           let v = push_bit 1 (iData AND NOT SIGN_MASK_TWOBYTE) OR isSigned
           in Some [ucast (drop_bit 8 v OR 0x80), ucast (v AND 0xFF)]
         else if iData AND SIGN_MASK_FOURBYTE = 0 \<or> iData AND SIGN_MASK_FOURBYTE = SIGN_MASK_FOURBYTE then
           let v = push_bit 1 (iData AND NOT SIGN_MASK_FOURBYTE) OR isSigned
           in Some [ucast (drop_bit 24 v OR 0xC0), ucast (drop_bit 16 v AND 0xFF), ucast (drop_bit 8 v AND 0xFF),
                    ucast (v AND 0xFF)]
         else None)"

section \<open>Bits\<close>

text \<open>Facts about words are proved bit by bit, with the literals as masks and powers of two.\<close>

lemma sig_literals:
  "(0xFF :: u32) = mask 8" "(3 :: u32) = mask 2" "(1 :: u32) = mask 1" "(0x00FFFFFF :: u32) = mask 24"
  by (simp_all add: mask_eq_exp_minus_1)

lemma sign_masks:
  "SIGN_MASK_ONEBYTE = NOT (mask 6)" "SIGN_MASK_TWOBYTE = NOT (mask 13)" "SIGN_MASK_FOURBYTE = NOT (mask 28)"
  by (simp_all add: SIGN_MASK_ONEBYTE_def SIGN_MASK_TWOBYTE_def SIGN_MASK_FOURBYTE_def mask_eq_exp_minus_1)

lemma length_prefix:
  fixes v :: u32
  shows "v < 2 ^ 7 \<Longrightarrow> ucast (ucast v :: u8) = v"
    and "v < 2 ^ 7 \<Longrightarrow> v AND 0x80 = 0"
    and "v < 2 ^ 14 \<Longrightarrow> ucast (ucast (drop_bit 8 v OR 0x80) :: u8) = drop_bit 8 v OR 0x80"
    and "v < 2 ^ 29 \<Longrightarrow> ucast (ucast (drop_bit 24 v OR 0xC0) :: u8) = drop_bit 24 v OR 0xC0"
    and "ucast (ucast (v AND 0xFF) :: u8) = v AND 0xFF"
proof -
  show "v < 2 ^ 7 \<Longrightarrow> ucast (ucast v :: u8) = v"
    by (rule bit_word_eqI, simp only: utf_bits) (auto dest: small_bits [of v 7, rotated -1])
  show "v < 2 ^ 7 \<Longrightarrow> v AND 0x80 = 0"
    unfolding lead_literals by (rule bit_word_eqI, simp only: utf_bits) (auto dest: small_bits [of v 7, rotated -1])
  show "v < 2 ^ 14 \<Longrightarrow> ucast (ucast (drop_bit 8 v OR 0x80) :: u8) = drop_bit 8 v OR 0x80"
    unfolding lead_literals by (rule bit_word_eqI, simp only: utf_bits) (auto dest: small_bits [of v 14, rotated -1])
  show "v < 2 ^ 29 \<Longrightarrow> ucast (ucast (drop_bit 24 v OR 0xC0) :: u8) = drop_bit 24 v OR 0xC0"
    unfolding lead_literals by (rule bit_word_eqI, simp only: utf_bits) (auto dest: small_bits [of v 29, rotated -1])
  show "ucast (ucast (v AND 0xFF) :: u8) = v AND 0xFF"
    unfolding sig_literals by (rule bit_word_eqI, simp only: utf_bits) auto
qed

lemma prefix_tests:
  fixes x :: u32
  shows "(x OR 0x80) AND 0x80 \<noteq> 0" "(x OR 0xC0) AND 0x80 \<noteq> 0"
    and "x < 2 ^ 6 \<Longrightarrow> (x OR 0x80) AND 0xC0 = 0x80" "(x OR 0xC0) AND 0xC0 \<noteq> 0x80"
    and "x < 2 ^ 5 \<Longrightarrow> (x OR 0xC0) AND 0xE0 = 0xC0"
    and "x < 2 ^ 6 \<Longrightarrow> (x OR 0x80) AND 0x3F = x" "x < 2 ^ 5 \<Longrightarrow> (x OR 0xC0) AND 0x1F = x"
proof -
  have "bit ((x OR 0x80) AND 0x80) 7" "bit ((x OR 0xC0) AND 0x80) 7" "bit ((x OR 0xC0) AND 0xC0) 6" "\<not> bit (0x80 :: u32) 6"
    unfolding lead_literals by (simp_all only: utf_bits) auto
  then show "(x OR 0x80) AND 0x80 \<noteq> 0" "(x OR 0xC0) AND 0x80 \<noteq> 0" "(x OR 0xC0) AND 0xC0 \<noteq> 0x80" by (metis bit_0_eq bot_apply bot_bool_def, metis bit_0_eq bot_apply bot_bool_def, metis)
  show "x < 2 ^ 6 \<Longrightarrow> (x OR 0x80) AND 0xC0 = 0x80"
    unfolding lead_literals by (rule bit_word_eqI, simp only: utf_bits) (auto dest: small_bits [of x 6, rotated -1])
  show "x < 2 ^ 5 \<Longrightarrow> (x OR 0xC0) AND 0xE0 = 0xC0"
    unfolding lead_literals by (rule bit_word_eqI, simp only: utf_bits) (auto dest: small_bits [of x 5, rotated -1])
  show "x < 2 ^ 6 \<Longrightarrow> (x OR 0x80) AND 0x3F = x"
    unfolding lead_literals mask_literals by (rule bit_word_eqI, simp only: utf_bits) (auto dest: small_bits [of x 6, rotated -1])
  show "x < 2 ^ 5 \<Longrightarrow> (x OR 0xC0) AND 0x1F = x"
    unfolding lead_literals mask_literals by (rule bit_word_eqI, simp only: utf_bits) (auto dest: small_bits [of x 5, rotated -1])
qed

lemma join_bytes:
  fixes v :: u32
  shows "push_bit 8 (drop_bit 8 v) OR (v AND 0xFF) = v"
    and "push_bit 24 (drop_bit 24 v) OR push_bit 16 (drop_bit 16 v AND 0xFF) OR push_bit 8 (drop_bit 8 v AND 0xFF) OR (v AND 0xFF) = v"
proof -
  show "push_bit 8 (drop_bit 8 v) OR (v AND 0xFF) = v"
    unfolding sig_literals by (rule bit_word_eqI) (simp only: utf_bits, auto)
  show "push_bit 24 (drop_bit 24 v) OR push_bit 16 (drop_bit 16 v AND 0xFF) OR push_bit 8 (drop_bit 8 v AND 0xFF) OR (v AND 0xFF) = v"
    unfolding sig_literals
    by (rule bit_word_eqI) (simp only: utf_bits, rename_tac n, case_tac "n < 8"; case_tac "n < 16"; case_tac "n < 24"; auto)
qed

section \<open>Decoding what was encoded\<close>

lemma decode_1: "v < 2 ^ 7 \<Longrightarrow> CorSigUncompressData (ucast v # rest) = Some (v, 1)"
  by (simp add: CorSigUncompressData_def length_prefix(1,2))

lemma decode_2:
  assumes "v < 2 ^ 14"
  shows "CorSigUncompressData (ucast (drop_bit 8 v OR 0x80) # ucast (v AND 0xFF) # rest) = Some (v, 2)"
proof -
  have x: "drop_bit 8 v < 2 ^ 6" using drop_bit_less [of v 8 64] assms by (simp add: word_less_nat_alt)
  show ?thesis
    using prefix_tests(1) [of "drop_bit 8 v"] prefix_tests(3,6) [OF x]
    by (simp add: CorSigUncompressData_def length_prefix(3) [OF assms] length_prefix(5) join_bytes(1))
qed

lemma decode_4:
  assumes "v < 2 ^ 29"
  shows "CorSigUncompressData (ucast (drop_bit 24 v OR 0xC0) # ucast (drop_bit 16 v AND 0xFF) # ucast (drop_bit 8 v AND 0xFF)
      # ucast (v AND 0xFF) # rest) = Some (v, 4)"
proof -
  have x: "drop_bit 24 v < 2 ^ 5" using drop_bit_less [of v 24 32] assms by (simp add: word_less_nat_alt)
  show ?thesis
    using prefix_tests(2,4) [of "drop_bit 24 v"] prefix_tests(5,7) [OF x] join_bytes(2) [of v]
    by (simp add: CorSigUncompressData_def length_prefix(4) [OF assms] length_prefix(5) numeral_3_eq_3)
qed

lemma le_iff_small:
  "(v :: u32) \<le> 0x7F \<longleftrightarrow> v < 2 ^ 7" "v \<le> 0x3FFF \<longleftrightarrow> v < 2 ^ 14" "v \<le> 0x1FFFFFFF \<longleftrightarrow> v < 2 ^ 29"
  by (auto simp: word_le_nat_alt word_less_nat_alt)

lemma CorSigCompressData_decode:
  "CorSigCompressData v = Some bs \<Longrightarrow> CorSigUncompressData (bs @ rest) = Some (v, length bs)"
  by (auto simp: CorSigCompressData_def le_iff_small decode_1 decode_2 decode_4 split: if_splits)

lemma CorSigCompressData_total: "(\<exists>bs. CorSigCompressData v = Some bs) \<longleftrightarrow> v < 2 ^ 29"
proof -
  have "v < 2 ^ 7 \<Longrightarrow> v < 2 ^ 29" "v < 2 ^ 14 \<Longrightarrow> v < 2 ^ 29" by (auto simp: word_less_nat_alt)
  then show ?thesis unfolding CorSigCompressData_def le_iff_small by (auto split: if_splits)
qed

lemma CorSigUncompressData_progress: "CorSigUncompressData bs = Some (v, n) \<Longrightarrow> 1 \<le> n \<and> n \<le> length bs"
  by (auto simp: CorSigUncompressData_def Suc_le_eq split: if_splits)

lemma CorSigUncompressToken_progress: "CorSigUncompressToken bs = Some (tk, n) \<Longrightarrow> 1 \<le> n \<and> n \<le> length bs"
  using CorSigUncompressData_progress by (auto simp: CorSigUncompressToken_def split: option.splits prod.splits)

text \<open>A number of at most 24 bits with a two-bit tag.\<close>

lemma tagged:
  fixes rid k :: u32
  assumes "rid < 2 ^ 24" and "k < 2 ^ 2"
  shows "push_bit 2 rid OR k < 2 ^ 29" "drop_bit 2 (push_bit 2 rid OR k) = rid" "(push_bit 2 rid OR k) AND 3 = k"
proof -
  have r: "n < 24" if "bit rid n" for n using small_bits [OF assms(1) _ that] by simp
  have k: "n < 2" if "bit k n" for n using small_bits [OF assms(2) _ that] by simp
  have "push_bit 2 rid OR k = take_bit 26 (push_bit 2 rid OR k)"
    by (rule bit_word_eqI, simp only: utf_bits bit_take_bit_iff) (use r k in force)
  then have "unat (push_bit 2 rid OR k) < 2 ^ 26"
    by (metis take_bit_nat_less_exp unsigned_take_bit_eq)
  then show "push_bit 2 rid OR k < 2 ^ 29" by (simp add: word_less_nat_alt)
  show "drop_bit 2 (push_bit 2 rid OR k) = rid" by (rule bit_word_eqI, simp only: utf_bits) (use r k in force)
  show "(push_bit 2 rid OR k) AND 3 = k" unfolding sig_literals by (rule bit_word_eqI, simp only: utf_bits) (use r k in force)
qed

lemma rid_small: "RidFromToken tk < 2 ^ 24"
proof -
  have "unat (RidFromToken tk) < 2 ^ 24" unfolding RidFromToken_def sig_literals by (simp add: and_mask_unat)
  then show ?thesis by (simp add: word_less_nat_alt)
qed

lemma token_parts: "RidFromToken tk OR TypeFromToken tk = tk"
proof -
  have "(0xFF000000 :: u32) = NOT (mask 24)" by (simp add: mask_eq_exp_minus_1)
  then show ?thesis unfolding RidFromToken_def TypeFromToken_def sig_literals
    by (simp only:) (rule bit_word_eqI, simp only: utf_bits, auto dest: bit_imp_le_length)
qed

lemma CorSigCompressToken_decode:
  assumes "TypeFromToken tk = CorSigDecodeTokenType k" and "k < 2 ^ 2"
  shows "\<exists>bs. CorSigCompressToken tk = Some bs \<and> CorSigUncompressToken (bs @ rest) = Some (tk, length bs)"
proof -
  let ?r = "RidFromToken tk"
  have "unat k < 4" using assms(2) by (simp add: word_less_nat_alt)
  then have "unat k \<in> {0, 1, 2, 3}" by auto
  then have k: "k \<in> {0, 1, 2, 3}" using unat_eqI [of k 0] unat_eqI [of k 1] unat_eqI [of k 2] unat_eqI [of k 3] by auto
  then have "CorSigCompressToken tk = CorSigCompressData (push_bit 2 ?r OR k)"
    using assms(1) rid_small [of tk] by (auto simp: CorSigCompressToken_def CorSigDecodeTokenType_def Let_def word_less_nat_alt)
  moreover obtain bs where bs: "CorSigCompressData (push_bit 2 ?r OR k) = Some bs"
    using CorSigCompressData_total tagged(1) [OF rid_small assms(2)] by blast
  moreover have "CorSigUncompressToken (bs @ rest) = Some (tk, length bs)"
    using CorSigCompressData_decode [OF bs] tagged(2,3) [OF rid_small assms(2)] token_parts [of tk] assms(1)
    by (simp add: CorSigUncompressToken_def TokenFromRid_def)
  ultimately show ?thesis by simp
qed

text \<open>A signed number whose bits from \<open>k\<close> on are all the sign, with the sign moved to the lowest bit.\<close>

definition sign_extended :: "nat \<Rightarrow> u32 \<Rightarrow> bool" where
  "sign_extended k x \<longleftrightarrow> x AND NOT (mask k) = 0 \<or> x AND NOT (mask k) = NOT (mask k)"

definition zigzag :: "nat \<Rightarrow> u32 \<Rightarrow> u32" where
  "zigzag k x = push_bit 1 (x AND mask k) OR (if x <s 0 then 1 else 0)"

lemma sign_bit: "(x :: u32) <s 0 \<longleftrightarrow> bit x 31"
  using bit_last_iff [of x] by (simp add: word_sless_alt)

lemma sig_bit_flag: "bit ((if c then 1 else 0) :: u32) n \<longleftrightarrow> c \<and> n = 0"
  by (auto simp: bit_1_iff)

lemma sign_extended_bits:
  assumes "sign_extended k x" "k \<le> 28" "k \<le> n" "n < 32"
  shows "bit x n \<longleftrightarrow> x <s 0"
proof -
  have b: "bit (x AND NOT (mask k)) i \<longleftrightarrow> bit x i" "bit (NOT (mask k) :: u32) i" if "i < 32" "k \<le> i" for i
    using that by (simp_all add: bit_simps)
  consider "x AND NOT (mask k) = 0" | "x AND NOT (mask k) = NOT (mask k)" using assms(1) by (auto simp: sign_extended_def)
  then show ?thesis
  proof cases
    case 1
    then show ?thesis using b(1) [of n] b(1) [of 31] assms(2-4) by (simp add: sign_bit)
  next
    case 2
    then show ?thesis using b [of n] b [of 31] assms(2-4) by (simp add: sign_bit)
  qed
qed

lemma zigzag_bits:
  assumes "k \<le> 28"
  shows "bit (zigzag k x) n \<longleftrightarrow> (if n = 0 then x <s 0 else n \<le> k \<and> bit x (n - 1))"
  unfolding zigzag_def by (simp only: utf_bits sig_bit_flag) (use assms in auto)

lemma zigzag_decode:
  assumes "sign_extended k x" "k \<le> 28"
  shows "zigzag k x < 2 ^ Suc k"
    and "(if zigzag k x AND 1 \<noteq> 0 then drop_bit 1 (zigzag k x) OR NOT (mask k) else drop_bit 1 (zigzag k x)) = x"
proof -
  have "zigzag k x = take_bit (Suc k) (zigzag k x)"
    by (rule bit_word_eqI) (simp only: bit_take_bit_iff zigzag_bits [OF assms(2)], auto)
  then have "unat (zigzag k x) < 2 ^ Suc k" by (metis take_bit_nat_less_exp unsigned_take_bit_eq)
  then show "zigzag k x < 2 ^ Suc k" using assms(2) unat_pow2 [of "Suc k", where 'a = 32] by (simp add: word_less_nat_alt)
  have sgn: "zigzag k x AND 1 \<noteq> 0 \<longleftrightarrow> x <s 0"
  proof -
    have "zigzag k x AND 1 = (if x <s 0 then 1 else 0)"
      by (rule bit_word_eqI) (simp only: bit_and_iff bit_1_iff sig_bit_flag zigzag_bits [OF assms(2)], auto)
    then show ?thesis by simp
  qed
  have "(if x <s 0 then drop_bit 1 (zigzag k x) OR NOT (mask k) else drop_bit 1 (zigzag k x)) = x"
  proof (cases "x <s 0")
    case True
    have "drop_bit 1 (zigzag k x) OR NOT (mask k) = x"
    proof (rule bit_word_eqI)
      fix n assume "n < LENGTH(32)"
      then show "bit (drop_bit 1 (zigzag k x) OR NOT (mask k)) n \<longleftrightarrow> bit x n"
        using sign_extended_bits [OF assms, of n] True
        by (simp only: bit_or_iff bit_drop_bit_eq o_apply bit_not_iff bit_mask_iff zigzag_bits [OF assms(2)]) (cases "k \<le> n"; auto)
    qed
    then show ?thesis using True by simp
  next
    case False
    have "drop_bit 1 (zigzag k x) = x"
    proof (rule bit_word_eqI)
      fix n assume "n < LENGTH(32)"
      then show "bit (drop_bit 1 (zigzag k x)) n \<longleftrightarrow> bit x n"
        using sign_extended_bits [OF assms, of n] False
        by (simp only: bit_drop_bit_eq o_apply zigzag_bits [OF assms(2)]) (cases "k \<le> n"; auto)
    qed
    then show ?thesis using False by simp
  qed
  then show "(if zigzag k x AND 1 \<noteq> 0 then drop_bit 1 (zigzag k x) OR NOT (mask k) else drop_bit 1 (zigzag k x)) = x"
    using sgn by simp
qed

lemma CorSigCompressSignedInt_eq:
  "CorSigCompressSignedInt x =
     (if sign_extended 6 x then Some [ucast (zigzag 6 x)]
      else if sign_extended 13 x then
        (let v = zigzag 13 x in Some [ucast (drop_bit 8 v OR 0x80), ucast (v AND 0xFF)])
      else if sign_extended 28 x then
        (let v = zigzag 28 x in Some [ucast (drop_bit 24 v OR 0xC0), ucast (drop_bit 16 v AND 0xFF), ucast (drop_bit 8 v AND 0xFF),
              ucast (v AND 0xFF)])
      else None)"
  unfolding CorSigCompressSignedInt_def sign_masks sign_extended_def zigzag_def Let_def by (simp only: bit.double_compl)

lemma CorSigUncompressSignedInt_zigzag:
  assumes "CorSigUncompressData bs = Some (zigzag k x, n)" and "sign_extended k x" "k \<le> 28"
    and "NOT (mask k) = (if n = 1 then SIGN_MASK_ONEBYTE else if n = 2 then SIGN_MASK_TWOBYTE else SIGN_MASK_FOURBYTE)"
  shows "CorSigUncompressSignedInt bs = Some (x, n)"
  unfolding CorSigUncompressSignedInt_def assms(1) option.case prod.case Let_def assms(4) [symmetric]
  by (simp only: zigzag_decode(2) [OF assms(2,3)])

lemma CorSigCompressSignedInt_decode:
  assumes "CorSigCompressSignedInt x = Some bs"
  shows "CorSigUncompressSignedInt (bs @ rest) = Some (x, length bs)"
proof -
  consider "sign_extended 6 x" | "\<not> sign_extended 6 x" "sign_extended 13 x"
    | "\<not> sign_extended 6 x" "\<not> sign_extended 13 x" "sign_extended 28 x"
    using assms by (auto simp: CorSigCompressSignedInt_eq split: if_splits)
  then show ?thesis
  proof cases
    case 1
    then have bs: "bs = [ucast (zigzag 6 x)]" using assms by (simp only: CorSigCompressSignedInt_eq if_True option.inject)
    have "CorSigUncompressData (bs @ rest) = Some (zigzag 6 x, 1)"
      unfolding bs append_Cons append_Nil by (rule decode_1) (use zigzag_decode(1) [OF 1] in simp)
    from CorSigUncompressSignedInt_zigzag [OF this 1] show ?thesis by (simp add: sign_masks bs)
  next
    case 2
    let ?v = "zigzag 13 x"
    have bs: "bs = [ucast (drop_bit 8 ?v OR 0x80), ucast (?v AND 0xFF)]"
      using assms 2 by (simp only: CorSigCompressSignedInt_eq if_True if_False option.inject Let_def)
    have "CorSigUncompressData (bs @ rest) = Some (?v, 2)"
      unfolding bs append_Cons append_Nil by (rule decode_2) (use zigzag_decode(1) [OF 2(2)] in simp)
    from CorSigUncompressSignedInt_zigzag [OF this 2(2)] show ?thesis by (simp add: sign_masks bs)
  next
    case 3
    let ?v = "zigzag 28 x"
    have bs: "bs = [ucast (drop_bit 24 ?v OR 0xC0), ucast (drop_bit 16 ?v AND 0xFF), ucast (drop_bit 8 ?v AND 0xFF), ucast (?v AND 0xFF)]"
      using assms 3 by (simp only: CorSigCompressSignedInt_eq if_True if_False option.inject Let_def)
    have "CorSigUncompressData (bs @ rest) = Some (?v, 4)"
      unfolding bs append_Cons append_Nil by (rule decode_4) (use zigzag_decode(1) [OF 3(3)] in simp)
    from CorSigUncompressSignedInt_zigzag [OF this 3(3)] show ?thesis by (simp add: sign_masks bs)
  qed
qed

lemma CorSigCompressSignedInt_total:
  assumes "x < 2 ^ 28 \<or> NOT x < 2 ^ 28"
  shows "\<exists>bs. CorSigCompressSignedInt x = Some bs"
proof -
  have "sign_extended 28 x"
  proof (cases "x < 2 ^ 28")
    case True
    have "x AND NOT (mask 28) = 0"
      by (rule bit_word_eqI, simp only: utf_bits) (use small_bits [OF True] in auto)
    then show ?thesis by (simp add: sign_extended_def)
  next
    case False
    then have "\<not> bit (NOT x) n" if "28 \<le> n" for n using assms small_bits [of "NOT x" 28 n] that by auto
    then have "bit x n" if "28 \<le> n" "n < 32" for n using that by (auto simp: bit_not_iff)
    then have "x AND NOT (mask 28) = NOT (mask 28)"
      by (intro bit_word_eqI) (auto simp: bit_and_iff bit_not_iff bit_mask_iff)
    then show ?thesis by (simp add: sign_extended_def)
  qed
  then show ?thesis by (simp add: CorSigCompressSignedInt_eq Let_def)
qed

section \<open>The codecs\<close>

text \<open>A decoder that moves past what it consumed.\<close>

definition sig_take :: "(u8 list \<Rightarrow> ('v \<times> nat) option) \<Rightarrow> u8 list \<Rightarrow> ('v \<times> u8 list) option" where
  "sig_take dec bs = (case dec bs of None \<Rightarrow> None | Some (v, n) \<Rightarrow> Some (v, drop n bs))"

interpretation compressed_int: codec "\<lambda>v. the (CorSigCompressData v)" "sig_take CorSigUncompressData" "\<lambda>v. v" "\<lambda>v. v < 2 ^ 29"
proof
  fix v :: u32 and rest assume "v < 2 ^ 29"
  then obtain bs where "CorSigCompressData v = Some bs" using CorSigCompressData_total by blast
  then show "sig_take CorSigUncompressData (the (CorSigCompressData v) @ rest) = Some (v, rest)"
    using CorSigCompressData_decode by (simp add: sig_take_def)
qed

text \<open>
  C21. Signature integers, tokens and signed integers survive compression: the decoder returns the
  value and consumes exactly the bytes of its encoding, whatever follows, so that a sequence of
  compressed integers decodes to itself. Every integer below \<open>2 ^ 29\<close>, every token of the four
  encodable kinds and every signed integer of 29 bits has an encoding.
\<close>

theorem signature_roundtrip:
  assumes "\<forall>v \<in> set vs. v < 2 ^ 29" and "TypeFromToken tk = CorSigDecodeTokenType k" and "k < 4"
    and "x < 2 ^ 28 \<or> NOT x < 2 ^ 28"
  shows "decode_many (sig_take CorSigUncompressData) (length vs) (concat (map (\<lambda>v. the (CorSigCompressData v)) vs) @ rest) = Some (vs, rest)
     \<and> (\<exists>bs. CorSigCompressToken tk = Some bs \<and> CorSigUncompressToken (bs @ rest) = Some (tk, length bs))
     \<and> (\<exists>bs. CorSigCompressSignedInt x = Some bs \<and> CorSigUncompressSignedInt (bs @ rest) = Some (x, length bs))"
proof -
  have "list_all (\<lambda>v. v < 2 ^ 29) vs" using assms(1) by (simp add: list_all_iff)
  from compressed_int.dec_many [OF this, of rest]
  have "decode_many (sig_take CorSigUncompressData) (length vs) (concat (map (\<lambda>v. the (CorSigCompressData v)) vs) @ rest) = Some (vs, rest)"
    by simp
  then show ?thesis
    using CorSigCompressToken_decode [OF assms(2)] assms(3) CorSigCompressSignedInt_total [OF assms(4)] CorSigCompressSignedInt_decode
    by auto
qed

theorem signature_roundtrip_witness:
  "CorSigCompressData 0x1234 = Some [0x92, 0x34] \<and> CorSigCompressToken 0x01000012 = Some [0x49]
   \<and> CorSigUncompressToken [0x49, 7] = Some (0x01000012, 1) \<and> CorSigUncompressSignedInt [0x7B, 7] = Some (- 3, 1)"
proof -
  have x: "NOT (- 3 :: u32) < 2 ^ 28" by simp
  have tk: "CorSigCompressToken 0x01000012 = Some [0x49]"
    by (simp add: CorSigCompressToken_def RidFromToken_def TypeFromToken_def CorSigDecodeTokenType_def CorSigCompressData_def)
  have sg: "CorSigCompressSignedInt (- 3) = Some [0x7B]"
    by (simp add: CorSigCompressSignedInt_def SIGN_MASK_ONEBYTE_def word_sless_alt)
  show ?thesis
    using signature_roundtrip [of "[0x1234]" "0x01000012" 1 "- 3" "[7]"] x tk sg
    by (simp add: TypeFromToken_def CorSigDecodeTokenType_def CorSigCompressData_def)
qed

end
