(* ===== verification/VTCache.thy ===== *)
theory VTCache
  imports GCDesc CorSig Transition
begin

unbundle bit_operations_syntax

text \<open>
  The cache of inline value types (\<open>InlineVTCache.cpp\<close>) and the core library lookup it uses
  (\<open>CoreLibModuleProvider.cpp\<close>). During a heap dump a lookup only queues the types it does not know;
  the queue is resolved afterwards by inspecting metadata. The answers of the profiling and metadata
  interfaces of the CLR are functions in a record, where \<open>None\<close> is a failed call. A metadata signature
  is read from the front of the list of its remaining bytes.
\<close>

section \<open>Metadata answers\<close>

record ClrMetadata =
  md_IsArrayClass :: "ClassID \<Rightarrow> bool"
  md_GetClassIDInfo2 :: "ClassID \<Rightarrow> (u64 \<times> u32 \<times> ClassID \<times> nat) option"
  md_GetTypeArgs :: "ClassID \<Rightarrow> ClassID list option"
  md_GetModuleMetaData :: "u64 \<Rightarrow> bool"
  md_GetClassLayout :: "ClassID \<Rightarrow> (nat \<times> u32) option"
  md_GetFieldOffsets :: "ClassID \<Rightarrow> (u32 \<times> u32) list option"
  md_GetFieldProps :: "u64 \<Rightarrow> u32 \<Rightarrow> u8 list option"
  md_GetClassFromTokenAndTypeArgs :: "u64 \<Rightarrow> u32 \<Rightarrow> ClassID list \<Rightarrow> ClassID option"
  md_FindTypeDefByName :: "u64 \<Rightarrow> string \<Rightarrow> u32 option"
  md_GetTypeDefExtends :: "u64 \<Rightarrow> u32 \<Rightarrow> u32 option"
  md_GetTypeDefName :: "u64 \<Rightarrow> u32 \<Rightarrow> string option"
  md_GetTypeRefName :: "u64 \<Rightarrow> u32 \<Rightarrow> string option"

definition mdtTypeDef :: u32 where "mdtTypeDef = 0x02000000"
definition mdtTypeRef :: u32 where "mdtTypeRef = 0x01000000"

section \<open>The core library\<close>

record CoreLibModuleProvider =
  cl_moduleId :: u64
  cl_hasMetadata :: bool
  cl_resolvedTypes :: "string \<rightharpoonup> ClassID"

definition newCoreLibModuleProvider :: CoreLibModuleProvider where
  "newCoreLibModuleProvider = \<lparr>cl_moduleId = 0, cl_hasMetadata = False, cl_resolvedTypes = Map.empty\<rparr>"

text \<open>The first argument: the assembly name of the module, when it can be read.\<close>

definition OnModuleLoaded :: "string option \<Rightarrow> u64 \<Rightarrow> CoreLibModuleProvider \<Rightarrow> bool \<times> CoreLibModuleProvider" where
  "OnModuleLoaded assemblyName moduleId cl =
     (if cl_moduleId cl \<noteq> 0 then (False, cl)
      else case assemblyName of
             None \<Rightarrow> (False, cl)
           | Some name \<Rightarrow>
               if name \<noteq> ''System.Private.CoreLib'' \<and> name \<noteq> ''mscorlib'' then (False, cl)
               else (True, cl\<lparr>cl_moduleId := moduleId\<rparr>))"

definition GetMetadataNoLock :: "ClrMetadata \<Rightarrow> CoreLibModuleProvider \<Rightarrow> bool \<times> CoreLibModuleProvider" where
  "GetMetadataNoLock md cl =
     (if cl_hasMetadata cl then (True, cl)
      else if cl_moduleId cl = 0 then (False, cl)
      else if \<not> md_GetModuleMetaData md (cl_moduleId cl) then (False, cl\<lparr>cl_hasMetadata := False\<rparr>)
      else (True, cl\<lparr>cl_hasMetadata := True\<rparr>))"

definition ResolveTypeNoLock :: "ClrMetadata \<Rightarrow> u64 \<Rightarrow> string \<Rightarrow> CoreLibModuleProvider \<Rightarrow> ClassID \<times> CoreLibModuleProvider" where
  "ResolveTypeNoLock md moduleId fullTypeName cl =
     (let (ok, cl1) = GetMetadataNoLock md cl
      in if \<not> ok then (0, cl1)
         else case md_FindTypeDefByName md moduleId fullTypeName of
                None \<Rightarrow> (0, cl1)
              | Some typeDef \<Rightarrow>
                  if TypeFromToken typeDef \<noteq> mdtTypeDef then (0, cl1)
                  else (case md_GetClassFromTokenAndTypeArgs md moduleId typeDef [] of None \<Rightarrow> 0 | Some c \<Rightarrow> c, cl1))"

definition ResolveTypeInCoreLib :: "ClrMetadata \<Rightarrow> string \<Rightarrow> CoreLibModuleProvider \<Rightarrow> ClassID \<times> CoreLibModuleProvider" where
  "ResolveTypeInCoreLib md typeName cl =
     (if cl_moduleId cl = 0 then (0, cl)
      else case cl_resolvedTypes cl typeName of
             Some c \<Rightarrow> (c, cl)
           | None \<Rightarrow>
               let (c, cl1) = ResolveTypeNoLock md (cl_moduleId cl) typeName cl
               in (c, if c \<noteq> 0 then cl1\<lparr>cl_resolvedTypes := (cl_resolvedTypes cl1)(typeName \<mapsto> c)\<rparr> else cl1))"

section \<open>State of the cache\<close>

record InlineVTField =
  vf_offset :: u32
  vf_classID :: ClassID
  vf_size :: u32

type_synonym InlineVTInfo = "InlineVTField list"

text \<open>
  A cached type has its inline value types or the placeholder \<open>None\<close>. The order of the pending list
  is the iteration order of the hash set.
\<close>

record InlineVTCache =
  vc_cache :: "ClassID \<rightharpoonup> InlineVTInfo option"
  vc_pendingClassIDs :: "ClassID list"
  vc_primitiveClassIDs :: "u8 \<rightharpoonup> ClassID"
  vc_moduleUnloaded :: bool
  vc_coreLib :: "CoreLibModuleProvider option"

definition newInlineVTCache :: "CoreLibModuleProvider option \<Rightarrow> InlineVTCache" where
  "newInlineVTCache coreLib = \<lparr>vc_cache = Map.empty, vc_pendingClassIDs = [], vc_primitiveClassIDs = Map.empty,
     vc_moduleUnloaded = False, vc_coreLib = coreLib\<rparr>"

datatype InspectionStatus = InspectionCompleted | InspectionFaulted | GuardUnavailable

text \<open>The guarded read of a MethodTable flag, on the state of the guard and the output variable.\<close>

definition TryContainsGCPointers :: "memory \<Rightarrow> bool \<Rightarrow> bool \<Rightarrow> ClassID \<Rightarrow> GuardState \<Rightarrow> InspectionStatus \<times> bool \<times> GuardState" where
  "TryContainsGCPointers mem segv bus cls g =
     (case Run segv bus (\<lambda>_. case ContainsGCPointers mem cls of Inl e \<Rightarrow> Some (Inl e, False) | Inr b \<Rightarrow> Some (Inr (), b)) (g, False) of
        Some (Inr Completed, (g1, b)) \<Rightarrow> (InspectionCompleted, b, g1)
      | Some (Inr Faulted, (g1, b)) \<Rightarrow> (InspectionFaulted, b, g1)
      | Some (_, (g1, b)) \<Rightarrow> (GuardUnavailable, b, g1)
      | None \<Rightarrow> (GuardUnavailable, False, g))"

definition GetInlineVTInfo :: "memory \<Rightarrow> ClassID \<Rightarrow> (InlineVTCache, InlineVTInfo option) act" where
  "GetInlineVTInfo mem cls =
     (if cls = 0 then ret None
      else bnd (call (ContainsGCPointers mem cls)) (\<lambda>containsPointers.
        if \<not> containsPointers then ret None
        else bnd (get (\<lambda>c. vc_cache c cls)) (\<lambda>entry.
          case entry of
            Some info \<Rightarrow> ret info
          | None \<Rightarrow>
              bnd (upd (\<lambda>c. c\<lparr>vc_pendingClassIDs := List.insert cls (vc_pendingClassIDs c),
                             vc_cache := (vc_cache c)(cls \<mapsto> None)\<rparr>)) (\<lambda>_. ret None))))"

definition ClearVTCache :: "InlineVTCache \<Rightarrow> InlineVTCache" where
  "ClearVTCache c = c\<lparr>vc_cache := Map.empty, vc_pendingClassIDs := [], vc_primitiveClassIDs := Map.empty\<rparr>"

definition OnModuleUnloaded :: "InlineVTCache \<Rightarrow> InlineVTCache" where
  "OnModuleUnloaded c = c\<lparr>vc_moduleUnloaded := True\<rparr>"

definition DropCacheIfModuleUnloaded :: "InlineVTCache \<Rightarrow> bool \<times> InlineVTCache" where
  "DropCacheIfModuleUnloaded c =
     (if \<not> vc_moduleUnloaded c then (False, c\<lparr>vc_moduleUnloaded := False\<rparr>)
      else (True, ClearVTCache (c\<lparr>vc_moduleUnloaded := False\<rparr>)))"

section \<open>Resolving types from metadata\<close>

definition ResolveClassIDFromToken :: "ClrMetadata \<Rightarrow> u64 \<Rightarrow> u32 \<Rightarrow> ClassID list \<Rightarrow> ClassID" where
  "ResolveClassIDFromToken md moduleID token typeArgs =
     (if TypeFromToken token \<noteq> mdtTypeDef then 0
      else case md_GetClassFromTokenAndTypeArgs md moduleID token typeArgs of None \<Rightarrow> 0 | Some c \<Rightarrow> c)"

text \<open>The module, the type definition, the parent class and the type arguments.\<close>

definition TryGetTypeDefAndMetadata :: "ClrMetadata \<Rightarrow> ClassID \<Rightarrow> (u64 \<times> u32 \<times> ClassID \<times> ClassID list) option" where
  "TryGetTypeDefAndMetadata md cls =
     (if cls = 0 then None
      else if md_IsArrayClass md cls then None
      else case md_GetClassIDInfo2 md cls of
             None \<Rightarrow> None
           | Some (moduleID, typeDef, parentClassID, typeArgCount) \<Rightarrow>
               if moduleID = 0 then None
               else
                 let typeArgs = (if typeArgCount > 0
                                 then case md_GetTypeArgs md cls of None \<Rightarrow> [] | Some args \<Rightarrow> args else [])
                 in if md_GetModuleMetaData md moduleID then Some (moduleID, typeDef, parentClassID, typeArgs) else None)"

definition TryUncompressToken :: "u8 list \<Rightarrow> (u32 \<times> u8 list) option" where
  "TryUncompressToken bs =
     (if bs = [] then None
      else case CorSigUncompressToken bs of
             None \<Rightarrow> None
           | Some (token, consumed) \<Rightarrow>
               if consumed = 0 \<or> consumed > length bs then None else Some (token, drop consumed bs))"

definition TryUncompressData :: "u8 list \<Rightarrow> (u32 \<times> u8 list) option" where
  "TryUncompressData bs =
     (if bs = [] then None
      else case CorSigUncompressData bs of
             None \<Rightarrow> None
           | Some (decoded, consumed) \<Rightarrow>
               if consumed = 0 \<or> consumed > length bs then None else Some (decoded, drop consumed bs))"

definition GetPrimitiveTypeName :: "u8 \<Rightarrow> string option" where
  "GetPrimitiveTypeName elementType = map_of
     [(0x02, ''System.Boolean''), (0x03, ''System.Char''), (0x04, ''System.SByte''), (0x05, ''System.Byte''),
      (0x06, ''System.Int16''), (0x07, ''System.UInt16''), (0x08, ''System.Int32''), (0x09, ''System.UInt32''),
      (0x0A, ''System.Int64''), (0x0B, ''System.UInt64''), (0x0C, ''System.Single''), (0x0D, ''System.Double''),
      (0x18, ''System.IntPtr''), (0x19, ''System.UIntPtr''), (0x0E, ''System.String''), (0x1C, ''System.Object'')]
     elementType"

definition ResolvePrimitiveClassID :: "ClrMetadata \<Rightarrow> u8 \<Rightarrow> u64 \<Rightarrow> InlineVTCache \<Rightarrow> ClassID \<times> InlineVTCache" where
  "ResolvePrimitiveClassID md elementType moduleID c =
     (case vc_primitiveClassIDs c elementType of
        Some cls \<Rightarrow> (cls, c)
      | None \<Rightarrow>
          (case GetPrimitiveTypeName elementType of
             None \<Rightarrow> (0, c)
           | Some typeName \<Rightarrow>
               let cls0 = (case md_FindTypeDefByName md moduleID typeName of
                             None \<Rightarrow> 0 | Some typeDef \<Rightarrow> ResolveClassIDFromToken md moduleID typeDef []);
                   (cls, c1) = (case vc_coreLib c of
                                  Some cl \<Rightarrow>
                                    if cls0 = 0
                                    then let (k, cl1) = ResolveTypeInCoreLib md typeName cl in (k, c\<lparr>vc_coreLib := Some cl1\<rparr>)
                                    else (cls0, c)
                                | None \<Rightarrow> (cls0, c))
               in (cls, if cls \<noteq> 0 then c1\<lparr>vc_primitiveClassIDs := (vc_primitiveClassIDs c1)(elementType \<mapsto> cls)\<rparr> else c1)))"

text \<open>
  The type of a generic argument, from the front of a signature. The fuel bounds the nesting of generic
  types; every level takes bytes of the signature, so the length of the signature is enough.
\<close>

fun ResolveGenericArgClassID ::
    "nat \<Rightarrow> ClrMetadata \<Rightarrow> u64 \<Rightarrow> ClassID list \<Rightarrow> u8 list \<Rightarrow> InlineVTCache \<Rightarrow> (ClassID \<times> u8 list \<times> InlineVTCache) option"
  and nested_args ::
    "nat \<Rightarrow> nat \<Rightarrow> ClrMetadata \<Rightarrow> u64 \<Rightarrow> ClassID list \<Rightarrow> u8 list \<Rightarrow> InlineVTCache \<Rightarrow> (ClassID list option \<times> u8 list \<times> InlineVTCache) option"
where
  "ResolveGenericArgClassID 0 md moduleID typeArgs bs c = None"
| "ResolveGenericArgClassID (Suc fuel) md moduleID typeArgs bs c =
     (case bs of
        [] \<Rightarrow> Some (0, bs, c)
      | argType # rest \<Rightarrow>
          if argType = 0x13 then
            (case TryUncompressData rest of
               None \<Rightarrow> Some (0, rest, c)
             | Some (varIndex, rest1) \<Rightarrow>
                 if unat varIndex \<ge> length typeArgs \<or> typeArgs ! unat varIndex = 0 then Some (0, rest1, c)
                 else Some (typeArgs ! unat varIndex, rest1, c))
          else if argType = 0x11 \<or> argType = 0x12 then
            (case TryUncompressToken rest of
               None \<Rightarrow> Some (0, rest, c)
             | Some (argToken, rest1) \<Rightarrow> Some (ResolveClassIDFromToken md moduleID argToken [], rest1, c))
          else if argType = 0x15 then
            (case rest of
               [] \<Rightarrow> Some (0, rest, c)
             | base # rest1 \<Rightarrow>
                 if base \<noteq> 0x11 \<and> base \<noteq> 0x12 then Some (0, rest, c)
                 else case TryUncompressToken rest1 of
                        None \<Rightarrow> Some (0, rest1, c)
                      | Some (token, rest2) \<Rightarrow>
                          (case TryUncompressData rest2 of
                             None \<Rightarrow> Some (0, rest2, c)
                           | Some (nestedArgCount, rest3) \<Rightarrow>
                               if unat nestedArgCount > length rest3 then Some (0, rest3, c)
                               else case nested_args fuel (unat nestedArgCount) md moduleID typeArgs rest3 c of
                                      None \<Rightarrow> None
                                    | Some (None, rest4, c1) \<Rightarrow> Some (0, rest4, c1)
                                    | Some (Some nestedArgs, rest4, c1) \<Rightarrow>
                                        if length nestedArgs \<noteq> unat nestedArgCount then Some (0, rest4, c1)
                                        else Some (ResolveClassIDFromToken md moduleID token nestedArgs, rest4, c1)))
          else
            (case GetPrimitiveTypeName argType of
               None \<Rightarrow> Some (0, bs, c)
             | Some _ \<Rightarrow> let (cls, c1) = ResolvePrimitiveClassID md argType moduleID c in Some (cls, rest, c1)))"
| "nested_args fuel 0 md moduleID typeArgs bs c = Some (Some [], bs, c)"
| "nested_args fuel (Suc n) md moduleID typeArgs bs c =
     (if bs = [] then Some (Some [], bs, c)
      else case ResolveGenericArgClassID fuel md moduleID typeArgs bs c of
             None \<Rightarrow> None
           | Some (nested, bs1, c1) \<Rightarrow>
               if nested = 0 then Some (None, bs1, c1)
               else case nested_args fuel n md moduleID typeArgs bs1 c1 of
                      None \<Rightarrow> None
                    | Some (args, bs2, c2) \<Rightarrow> Some (map_option (\<lambda>as. nested # as) args, bs2, c2))"

declare ResolveGenericArgClassID.simps [simp del]

definition IsClassIDValueType :: "ClrMetadata \<Rightarrow> ClassID \<Rightarrow> bool" where
  "IsClassIDValueType md cls =
     (case TryGetTypeDefAndMetadata md cls of
        None \<Rightarrow> False
      | Some (moduleID, typeDef, _, _) \<Rightarrow>
          (case md_GetTypeDefExtends md moduleID typeDef of
             None \<Rightarrow> False
           | Some extendsToken \<Rightarrow>
               if TypeFromToken extendsToken = mdtTypeRef \<or> TypeFromToken extendsToken = mdtTypeDef then
                 (case (if TypeFromToken extendsToken = mdtTypeRef then md_GetTypeRefName md moduleID extendsToken
                        else md_GetTypeDefName md moduleID extendsToken) of
                    None \<Rightarrow> False
                  | Some baseTypeName \<Rightarrow> baseTypeName = ''System.ValueType'' \<or> baseTypeName = ''System.Enum'')
               else False))"

section \<open>Inspecting a type\<close>

lemma TryUncompressToken_shorter: "TryUncompressToken bs = Some (tk, rest) \<Longrightarrow> length rest < length bs"
  by (auto simp: TryUncompressToken_def split: option.splits if_splits)

lemma TryUncompressData_shorter: "TryUncompressData bs = Some (v, rest) \<Longrightarrow> length rest < length bs"
  by (auto simp: TryUncompressData_def split: option.splits if_splits)

text \<open>The loop over custom modifiers: the signature from the element type on.\<close>

function skip_modifiers :: "u8 list \<Rightarrow> u8 list option" where
  "skip_modifiers bs =
     (case bs of
        [] \<Rightarrow> Some []
      | b # rest \<Rightarrow>
          if b = 0x20 \<or> b = 0x1F then
            (case TryUncompressToken rest of None \<Rightarrow> None | Some (_, rest1) \<Rightarrow> skip_modifiers rest1)
          else if b = 0x45 \<or> b = 0x10 then skip_modifiers rest
          else Some bs)"
  by pat_completeness auto
termination
  by (relation "measure length") (auto dest: TryUncompressToken_shorter)

declare skip_modifiers.simps [simp del]

text \<open>
  The class of a field that is an inline value type with references (0 otherwise). \<open>None\<close>: the fuel
  for the generic arguments, which is the length of the signature, ran out.
\<close>

definition ResolveValueTypeField ::
  "memory \<Rightarrow> bool \<Rightarrow> bool \<Rightarrow> ClrMetadata \<Rightarrow> u64 \<Rightarrow> ClassID list \<Rightarrow> u32 \<Rightarrow> GuardState \<times> InlineVTCache
     \<Rightarrow> (InspectionStatus \<times> ClassID \<times> GuardState \<times> InlineVTCache) option" where
  "ResolveValueTypeField mem segv bus md moduleID typeArgs fieldToken gc =
     (let (g, c) = gc; nothing = Some (InspectionCompleted, 0, g, c)
      in if fieldToken = 0 then nothing
         else case md_GetFieldProps md moduleID fieldToken of
           None \<Rightarrow> nothing
         | Some signature \<Rightarrow>
             if length signature < 2 then nothing
             else case skip_modifiers (tl signature) of
               None \<Rightarrow> nothing
             | Some [] \<Rightarrow> nothing
             | Some (elementType # rest) \<Rightarrow>
                 (case (if elementType = 0x13 then
                          (if typeArgs = [] then Some (0, c)
                           else case TryUncompressData rest of
                             None \<Rightarrow> Some (0, c)
                           | Some (varIndex, _) \<Rightarrow>
                               if unat varIndex < length typeArgs \<and> IsClassIDValueType md (typeArgs ! unat varIndex)
                               then Some (typeArgs ! unat varIndex, c) else Some (0, c))
                        else if elementType = 0x11 then
                          (case TryUncompressToken rest of
                             None \<Rightarrow> Some (0, c)
                           | Some (vtToken, _) \<Rightarrow> Some (ResolveClassIDFromToken md moduleID vtToken [], c))
                        else if elementType = 0x15 then
                          (if rest = [] \<or> hd rest \<noteq> 0x11 then Some (0, c)
                           else map_option (\<lambda>(cls, _, c1). (cls, c1))
                                  (ResolveGenericArgClassID (length signature) md moduleID typeArgs (elementType # rest) c))
                        else Some (0, c)) of
                    None \<Rightarrow> None
                  | Some (valueTypeClassID, c1) \<Rightarrow>
                      if valueTypeClassID = 0 then Some (InspectionCompleted, 0, g, c1)
                      else let (status, containsPointers, g1) = TryContainsGCPointers mem segv bus valueTypeClassID g
                           in if status \<noteq> InspectionCompleted then Some (status, 0, g1, c1)
                              else if \<not> containsPointers then Some (InspectionCompleted, 0, g1, c1)
                              else Some (InspectionCompleted, valueTypeClassID, g1, c1)))"

text \<open>The loop of \<open>BuildInlineVTInfo\<close> over the fields of the class.\<close>

fun field_loop ::
  "memory \<Rightarrow> bool \<Rightarrow> bool \<Rightarrow> ClrMetadata \<Rightarrow> u64 \<Rightarrow> ClassID list \<Rightarrow> (u32 \<times> u32) list \<Rightarrow> InlineVTField list
     \<Rightarrow> GuardState \<times> InlineVTCache \<Rightarrow> (InspectionStatus \<times> InlineVTField list \<times> GuardState \<times> InlineVTCache) option" where
  "field_loop mem segv bus md moduleID typeArgs [] vtFields gc = Some (InspectionCompleted, vtFields, gc)"
| "field_loop mem segv bus md moduleID typeArgs ((ulOffset, ridOfField) # offsets) vtFields gc =
     (case ResolveValueTypeField mem segv bus md moduleID typeArgs ridOfField gc of
        None \<Rightarrow> None
      | Some (status, valueTypeClassID, gc1) \<Rightarrow>
          if status \<noteq> InspectionCompleted then Some (status, vtFields, gc1)
          else field_loop mem segv bus md moduleID typeArgs offsets
                 (if valueTypeClassID \<noteq> 0
                  then case md_GetClassLayout md valueTypeClassID of
                         None \<Rightarrow> vtFields
                       | Some (_, valueTypeSize) \<Rightarrow>
                           if valueTypeSize \<noteq> 0
                           then vtFields @ [\<lparr>vf_offset = ulOffset, vf_classID = valueTypeClassID, vf_size = valueTypeSize\<rparr>]
                           else vtFields
                  else vtFields) gc1)"

text \<open>
  \<open>BuildInlineVTInfo\<close> up to the inspection of the parent (\<open>Inl\<close>: it ends with this status and no
  information), and from there on, with the fields merged from the parent.
\<close>

definition build_start ::
  "memory \<Rightarrow> bool \<Rightarrow> bool \<Rightarrow> ClrMetadata \<Rightarrow> ClassID \<Rightarrow> GuardState
     \<Rightarrow> (InspectionStatus + (u64 \<times> ClassID \<times> ClassID list)) \<times> GuardState" where
  "build_start mem segv bus md cls g =
     (case TryGetTypeDefAndMetadata md cls of
        None \<Rightarrow> (Inl InspectionCompleted, g)
      | Some (moduleID, typeDef, parentClassID, typeArgs) \<Rightarrow>
          let (status, containsPointers, g1) = TryContainsGCPointers mem segv bus cls g
          in if status \<noteq> InspectionCompleted then (Inl status, g1)
             else if \<not> containsPointers then (Inl InspectionCompleted, g1)
             else (Inr (moduleID, parentClassID, typeArgs), g1))"

definition build_fields ::
  "memory \<Rightarrow> bool \<Rightarrow> bool \<Rightarrow> ClrMetadata \<Rightarrow> ClassID \<Rightarrow> u64 \<Rightarrow> ClassID list \<Rightarrow> InlineVTField list
     \<Rightarrow> GuardState \<times> InlineVTCache \<Rightarrow> (InspectionStatus \<times> InlineVTInfo option \<times> GuardState \<times> InlineVTCache) option" where
  "build_fields mem segv bus md cls moduleID typeArgs inherited gc =
     (let result = (case md_GetClassLayout md cls of
          Some (fieldCount, _) \<Rightarrow>
            if fieldCount > 0
            then case md_GetFieldOffsets md cls of
                   Some offsets \<Rightarrow> field_loop mem segv bus md moduleID typeArgs offsets inherited gc
                 | None \<Rightarrow> Some (InspectionCompleted, inherited, gc)
            else Some (InspectionCompleted, inherited, gc)
        | None \<Rightarrow> Some (InspectionCompleted, inherited, gc))
      in case result of
           None \<Rightarrow> None
         | Some (status, vtFields, gc1) \<Rightarrow>
             if status \<noteq> InspectionCompleted then Some (status, None, gc1)
             else Some (InspectionCompleted, if vtFields = [] then None else Some vtFields, gc1))"

text \<open>\<open>emplace\<close> keeps an existing entry.\<close>

definition cache_emplace :: "ClassID \<Rightarrow> InlineVTInfo option \<Rightarrow> InlineVTCache \<Rightarrow> InlineVTCache" where
  "cache_emplace cls info c =
     (case vc_cache c cls of Some _ \<Rightarrow> c | None \<Rightarrow> c\<lparr>vc_cache := (vc_cache c)(cls \<mapsto> info)\<rparr>)"

definition finish_build ::
  "ClassID \<Rightarrow> InspectionStatus \<times> InlineVTInfo option \<times> GuardState \<times> InlineVTCache
     \<Rightarrow> InspectionStatus \<times> InlineVTInfo option \<times> GuardState \<times> InlineVTCache" where
  "finish_build cls r =
     (case r of (status, info, g, c) \<Rightarrow>
        if status \<noteq> InspectionCompleted then (status, None, g, c)
        else let c1 = cache_emplace cls info c in (InspectionCompleted, the (vc_cache c1 cls), g, c1))"

partial_function (option) GetOrBuildInlineVTInfo ::
  "memory \<Rightarrow> bool \<Rightarrow> bool \<Rightarrow> ClrMetadata \<Rightarrow> ClassID \<Rightarrow> GuardState \<times> InlineVTCache
     \<Rightarrow> (InspectionStatus \<times> InlineVTInfo option \<times> GuardState \<times> InlineVTCache) option" where
  "GetOrBuildInlineVTInfo mem segv bus md cls gc =
     (if cls = 0 then Some (InspectionCompleted, None, gc)
      else case vc_cache (snd gc) cls of
             Some info \<Rightarrow> Some (InspectionCompleted, info, gc)
           | None \<Rightarrow>
               (case build_start mem segv bus md cls (fst gc) of
                  (Inl status, g1) \<Rightarrow> Some (finish_build cls (status, None, g1, snd gc))
                | (Inr (moduleID, parentClassID, typeArgs), g1) \<Rightarrow>
                    Option.bind (if parentClassID = 0 then Some (InspectionCompleted, None, g1, snd gc)
                                 else GetOrBuildInlineVTInfo mem segv bus md parentClassID (g1, snd gc))
                      (\<lambda>(status, parentInfo, gc2).
                         if status \<noteq> InspectionCompleted then Some (finish_build cls (status, None, gc2))
                         else map_option (finish_build cls)
                                (build_fields mem segv bus md cls moduleID typeArgs
                                   (case parentInfo of None \<Rightarrow> [] | Some vtFields \<Rightarrow> vtFields) gc2))))"

text \<open>The loop of \<open>ResolvePendingTypes\<close>, with the number of types that stay pending.\<close>

fun resolve_loop ::
  "memory \<Rightarrow> bool \<Rightarrow> bool \<Rightarrow> ClrMetadata \<Rightarrow> ClassID list \<Rightarrow> GuardState \<times> InlineVTCache \<Rightarrow> (nat \<times> GuardState \<times> InlineVTCache) option" where
  "resolve_loop mem segv bus md [] gc = Some (0, gc)"
| "resolve_loop mem segv bus md (cls # pending) gc =
     (case GetOrBuildInlineVTInfo mem segv bus md cls gc of
        None \<Rightarrow> None
      | Some (status, _, g, c) \<Rightarrow>
          let c1 = (if status = InspectionFaulted then c\<lparr>vc_cache := (vc_cache c)(cls \<mapsto> None)\<rparr>
                    else if status = GuardUnavailable
                    then c\<lparr>vc_cache := (vc_cache c)(cls \<mapsto> None),
                           vc_pendingClassIDs := List.insert cls (vc_pendingClassIDs c)\<rparr>
                    else c)
          in map_option (\<lambda>(unavailableCount, gc1). (unavailableCount + (if status = GuardUnavailable then 1 else 0), gc1))
               (resolve_loop mem segv bus md pending (g, c1)))"

definition ResolvePendingTypes ::
  "memory \<Rightarrow> bool \<Rightarrow> bool \<Rightarrow> ClrMetadata \<Rightarrow> GuardState \<times> InlineVTCache \<Rightarrow> (nat \<times> GuardState \<times> InlineVTCache) option" where
  "ResolvePendingTypes mem segv bus md gc =
     (let (dropped, c) = DropCacheIfModuleUnloaded (snd gc)
      in if dropped then Some (0, fst gc, c)
         else if vc_pendingClassIDs c = [] then Some (0, fst gc, c)
         else
           let pending = vc_pendingClassIDs c;
               c1 = c\<lparr>vc_pendingClassIDs := [], vc_cache := (\<lambda>cls. if cls \<in> set pending then None else vc_cache c cls)\<rparr>
           in map_option (\<lambda>(unavailableCount, gc1). (length pending - unavailableCount, gc1))
                (resolve_loop mem segv bus md pending (fst gc, c1)))"

definition GetPendingTypeCount :: "InlineVTCache \<Rightarrow> nat" where
  "GetPendingTypeCount c = length (vc_pendingClassIDs c)"

section \<open>Signatures are read in bounds\<close>

text \<open>The fuel is enough, and what remains of a signature is never longer than it was.\<close>

lemma generic_arg_leaf:
  assumes "b \<noteq> 0x15"
  shows "\<exists>cls bs1 c1. ResolveGenericArgClassID (Suc fuel) md m targs (b # rest) c = Some (cls, bs1, c1) \<and> length bs1 \<le> Suc (length rest)"
proof -
  consider "b = 0x13" | "b \<noteq> 0x13" "b = 0x11 \<or> b = 0x12" | "b \<noteq> 0x13" "\<not> (b = 0x11 \<or> b = 0x12)" by blast
  then show ?thesis
  proof cases
    case 1
    show ?thesis
    proof (cases "TryUncompressData rest")
      case (Some r)
      then show ?thesis using 1 TryUncompressData_shorter [of rest "fst r" "snd r"]
        by (cases r) (simp add: ResolveGenericArgClassID.simps)
    qed (use 1 in \<open>simp add: ResolveGenericArgClassID.simps\<close>)
  next
    case 2
    show ?thesis
    proof (cases "TryUncompressToken rest")
      case (Some r)
      then show ?thesis using 2 TryUncompressToken_shorter [of rest "fst r" "snd r"]
        by (cases r) (simp add: ResolveGenericArgClassID.simps)
    qed (use 2 in \<open>simp add: ResolveGenericArgClassID.simps\<close>)
  next
    case 3
    show ?thesis
    proof (cases "GetPrimitiveTypeName b")
      case (Some nm)
      then show ?thesis using 3 assms
        by (cases "ResolvePrimitiveClassID md b m c") (simp add: ResolveGenericArgClassID.simps)
    qed (use 3 assms in \<open>simp add: ResolveGenericArgClassID.simps\<close>)
  qed
qed

lemma generic_arg_malformed:
  assumes "\<not> (rest \<noteq> [] \<and> (hd rest = 0x11 \<or> hd rest = 0x12))"
  shows "ResolveGenericArgClassID (Suc fuel) md m targs (0x15 # rest) c = Some (0, rest, c)"
  using assms by (cases rest) (simp_all add: ResolveGenericArgClassID.simps)

lemma generic_args_total:
  "length bs < fuel \<Longrightarrow> \<exists>cls bs1 c1. ResolveGenericArgClassID fuel md m targs bs c = Some (cls, bs1, c1) \<and> length bs1 \<le> length bs"
  "length bs < fuel \<Longrightarrow> \<exists>as bs1 c1. nested_args fuel n md m targs bs c = Some (as, bs1, c1) \<and> length bs1 \<le> length bs"
proof (induction fuel md m targs bs c and fuel n md m targs bs c rule: ResolveGenericArgClassID_nested_args.induct)
  case (2 fuel md m targs bs c)
  show ?case
  proof (cases bs)
    case (Cons b rest)
    consider "b \<noteq> 0x15" | "b = 0x15" "\<not> (rest \<noteq> [] \<and> (hd rest = 0x11 \<or> hd rest = 0x12))"
      | base rest1 where "b = 0x15" "rest = base # rest1" "base = 0x11 \<or> base = 0x12" by (cases rest) auto
    then show ?thesis
    proof cases
      case 1
      then show ?thesis using generic_arg_leaf [OF 1] Cons by simp
    next
      case 2
      then show ?thesis using generic_arg_malformed [OF 2(2)] Cons by simp
    next
      case (3 base rest1)
      show ?thesis
      proof (cases "TryUncompressToken rest1")
        case (Some tr)
        then obtain tk rest2 where tk: "TryUncompressToken rest1 = Some (tk, rest2)" by (cases tr) auto
        note short = TryUncompressToken_shorter [OF tk]
        show ?thesis
        proof (cases "TryUncompressData rest2")
          case (Some dr)
          then obtain k rest3 where k: "TryUncompressData rest2 = Some (k, rest3)" by (cases dr) auto
          have len: "length rest3 < length rest1" using short TryUncompressData_shorter [OF k] by simp
          then have lt: "length rest3 < fuel" using 2(2) Cons 3(2) by simp
          show ?thesis
          proof (cases "unat k \<le> length rest3")
            case True
            have "\<exists>as bs1 c1. nested_args fuel (unat k) md m targs rest3 c = Some (as, bs1, c1) \<and> length bs1 \<le> length rest3"
              by (rule 2(1) [of b rest base rest1 _ tk rest2 _ k rest3]) (use Cons 3 tk k True lt in auto)
            then obtain as bs1 c1 where "nested_args fuel (unat k) md m targs rest3 c = Some (as, bs1, c1)" "length bs1 \<le> length rest3"
              by blast
            then show ?thesis using Cons 3 tk k len True by (cases as) (auto simp: ResolveGenericArgClassID.simps)
          qed (use Cons 3 tk k len in \<open>auto simp: ResolveGenericArgClassID.simps not_le\<close>)
        qed (use Cons 3 tk short in \<open>auto simp: ResolveGenericArgClassID.simps\<close>)
      qed (use Cons 3 in \<open>auto simp: ResolveGenericArgClassID.simps\<close>)
    qed
  qed (simp add: ResolveGenericArgClassID.simps)
next
  case (4 fuel n md m targs bs c)
  show ?case
  proof (cases "bs = []")
    case False
    then obtain cls bs1 c1 where r: "ResolveGenericArgClassID fuel md m targs bs c = Some (cls, bs1, c1)" "length bs1 \<le> length bs"
      using 4(1) 4(3) by blast
    show ?thesis
    proof (cases "cls = 0")
      case nz: False
      have "\<exists>as bs2 c2. nested_args fuel n md m targs bs1 c1 = Some (as, bs2, c2) \<and> length bs2 \<le> length bs1"
        by (rule 4(2) [OF False r(1) refl refl nz]) (use r(2) 4(3) in simp)
      then show ?thesis using False r nz by (auto simp: ResolveGenericArgClassID.simps)
    qed (use False r in \<open>simp add: ResolveGenericArgClassID.simps\<close>)
  qed (simp add: ResolveGenericArgClassID.simps)
qed (simp_all add: ResolveGenericArgClassID.simps)

section \<open>What an inspection changes\<close>

text \<open>Resolving names only touches the memo tables of primitive types and of the core library.\<close>

definition same_types :: "InlineVTCache \<Rightarrow> InlineVTCache \<Rightarrow> bool" where
  "same_types c c' \<longleftrightarrow> vc_cache c' = vc_cache c \<and> vc_pendingClassIDs c' = vc_pendingClassIDs c
     \<and> vc_moduleUnloaded c' = vc_moduleUnloaded c"

lemma same_types_refl [simp]: "same_types c c"
  by (simp add: same_types_def)

lemma same_types_trans: "same_types a b \<Longrightarrow> same_types b c \<Longrightarrow> same_types a c"
  by (simp add: same_types_def)

lemma ResolvePrimitiveClassID_same: "ResolvePrimitiveClassID md et m c = (cls, c') \<Longrightarrow> same_types c c'"
  by (auto simp: ResolvePrimitiveClassID_def same_types_def Let_def split: option.splits prod.splits if_splits)

lemma generic_args_same:
  "ResolveGenericArgClassID fuel md m targs bs c = Some (cls, bs1, c1) \<Longrightarrow> same_types c c1"
  "nested_args fuel n md m targs bs c = Some (as, bs1, c1) \<Longrightarrow> same_types c c1"
proof (induction fuel md m targs bs c and fuel n md m targs bs c arbitrary: cls bs1 c1 and as bs1 c1
    rule: ResolveGenericArgClassID_nested_args.induct)
  case (2 fuel md m targs bs c)
  then show ?case
    by (simp add: ResolveGenericArgClassID.simps(2) split: list.splits if_splits option.splits prod.splits)
      (auto dest: ResolvePrimitiveClassID_same)
next
  case (4 fuel n md m targs bs c)
  show ?case
  proof (cases "bs = []")
    case False
    then obtain x bs2 c2 where r: "ResolveGenericArgClassID fuel md m targs bs c = Some (x, bs2, c2)"
      using 4(3) by (auto simp: ResolveGenericArgClassID.simps split: option.splits)
    have one: "same_types c c2" by (rule 4(1) [OF False r])
    show ?thesis
    proof (cases "x = 0")
      case nz: False
      then obtain as' bs3 c3 where n: "nested_args fuel n md m targs bs2 c2 = Some (as', bs3, c3)" "c1 = c3"
        using 4(3) False r by (auto simp: ResolveGenericArgClassID.simps split: option.splits)
      show ?thesis using same_types_trans [OF one 4(2) [OF False r refl refl nz n(1)]] n(2) by simp
    qed (use False r one 4(3) in \<open>auto simp: ResolveGenericArgClassID.simps\<close>)
  qed (use 4(3) in \<open>simp add: ResolveGenericArgClassID.simps\<close>)
qed (simp_all add: ResolveGenericArgClassID.simps)

text \<open>The guard: the flag is down after a guarded read, and a guard that can be installed is available.\<close>

definition guard_ok :: "bool \<Rightarrow> bool \<Rightarrow> GuardState \<Rightarrow> bool" where
  "guard_ok segv bus g \<longleftrightarrow> g_installed g \<or> segv \<and> bus"

lemma TryContainsGCPointers_spec:
  assumes "TryContainsGCPointers mem segv bus cls g = (status, b, g')"
  shows "(g_inGuardedRegion g' \<longrightarrow> g_inGuardedRegion g) \<and> (guard_ok segv bus g \<longrightarrow> guard_ok segv bus g' \<and> status \<noteq> GuardUnavailable)
     \<and> (\<not> guard_ok segv bus g \<longrightarrow> \<not> guard_ok segv bus g' \<and> status = GuardUnavailable)
     \<and> (status = InspectionCompleted \<longrightarrow> ContainsGCPointers mem cls = Inr b)"
proof -
  have "ContainsGCPointers mem cls \<noteq> Inl Thrown"
    by (auto simp: ContainsGCPointers_def split: option.splits)
  then show ?thesis
    using assms
    by (auto simp: TryContainsGCPointers_def Run_def EnsureInstalled_def FaultHandler_def guard_ok_def Let_def
        split: sum.splits abort.splits if_splits)
qed

text \<open>What is known after each part of an inspection: the guard, and the answer to an unavailable guard.\<close>

definition guard_step :: "bool \<Rightarrow> bool \<Rightarrow> InspectionStatus \<Rightarrow> GuardState \<Rightarrow> GuardState \<Rightarrow> bool" where
  "guard_step segv bus status g g' \<longleftrightarrow> (g_inGuardedRegion g' \<longrightarrow> g_inGuardedRegion g)
     \<and> (guard_ok segv bus g' \<longleftrightarrow> guard_ok segv bus g) \<and> (status = GuardUnavailable \<longrightarrow> \<not> guard_ok segv bus g)"

lemma guard_step_refl [simp]: "status \<noteq> GuardUnavailable \<Longrightarrow> guard_step segv bus status g g"
  by (simp add: guard_step_def)

lemma guard_step_trans:
  "guard_step segv bus st g g1 \<Longrightarrow> guard_step segv bus status g1 g2 \<Longrightarrow> guard_step segv bus status g g2"
  by (auto simp: guard_step_def)

lemma TryContainsGCPointers_guard:
  "TryContainsGCPointers mem segv bus cls g = (status, b, g') \<Longrightarrow> guard_step segv bus status g g'"
  using TryContainsGCPointers_spec [of mem segv bus cls g status b g'] by (auto simp: guard_step_def)

lemma skip_modifiers_Cons:
  "skip_modifiers [] = Some []"
  "skip_modifiers (b # rest) =
     (if b = 0x20 \<or> b = 0x1F then
        (case TryUncompressToken rest of None \<Rightarrow> None | Some (_, rest1) \<Rightarrow> skip_modifiers rest1)
      else if b = 0x45 \<or> b = 0x10 then skip_modifiers rest else Some (b # rest))"
  by (subst skip_modifiers.simps, simp)+

lemma skip_modifiers_shorter: "skip_modifiers bs = Some rest \<Longrightarrow> length rest \<le> length bs"
proof (induction "length bs" arbitrary: bs rule: less_induct)
  case less
  show ?case
  proof (cases bs)
    case (Cons b bs')
    have eq: "skip_modifiers (b # bs') = Some rest" using less.prems Cons by simp
    show ?thesis
    proof (cases "b = 0x20 \<or> b = 0x1F")
      case True
      show ?thesis
      proof (cases "TryUncompressToken bs'")
        case (Some r)
        then have "skip_modifiers (snd r) = Some rest"
          using eq True by (simp only: skip_modifiers_Cons if_True option.case split_beta)
        moreover have "length (snd r) < length bs'" using Some by (intro TryUncompressToken_shorter [of bs' "fst r"]) simp
        ultimately show ?thesis using less.hyps [of "snd r"] Cons by simp
      qed (use eq True in \<open>simp only: skip_modifiers_Cons if_True option.case option.distinct\<close>)
    next
      case b: False
      show ?thesis
      proof (cases "b = 0x45 \<or> b = 0x10")
        case True
        then show ?thesis using eq b less.hyps [of bs'] Cons by (simp only: skip_modifiers_Cons if_True if_False) simp
      next
        case False
        then have "rest = b # bs'" using eq b by (simp only: skip_modifiers_Cons if_False option.inject)
        then show ?thesis using Cons by simp
      qed
    qed
  qed (use less.prems in \<open>simp add: skip_modifiers_Cons\<close>)
qed

text \<open>The class of the field, before its MethodTable is read.\<close>

lemma ResolveValueTypeField_spec:
  "\<exists>status cls g' c'. ResolveValueTypeField mem segv bus md m targs tok (g, c) = Some (status, cls, g', c')
     \<and> same_types c c' \<and> guard_step segv bus status g g' \<and> (cls \<noteq> 0 \<longrightarrow> ContainsGCPointers mem cls = Inr True)"
  (is "?P (ResolveValueTypeField mem segv bus md m targs tok (g, c))")
proof -
  have nothing: "?P (Some (InspectionCompleted, 0, g, c'))" if "same_types c c'" for c' using that by simp
  have check: "?P (let (status, b, g1) = TryContainsGCPointers mem segv bus v g
      in if status \<noteq> InspectionCompleted then Some (status, 0, g1, c') else if \<not> b then Some (InspectionCompleted, 0, g1, c')
         else Some (InspectionCompleted, v, g1, c'))" if "same_types c c'" for v c'
    using that TryContainsGCPointers_guard [of mem segv bus v g] TryContainsGCPointers_spec [of mem segv bus v g]
    by (cases "TryContainsGCPointers mem segv bus v g") auto
  have final: "?P (case r of None \<Rightarrow> None | Some (v, c1) \<Rightarrow>
      if v = 0 then Some (InspectionCompleted, 0, g, c1)
      else let (status, b, g1) = TryContainsGCPointers mem segv bus v g
           in if status \<noteq> InspectionCompleted then Some (status, 0, g1, c1) else if \<not> b then Some (InspectionCompleted, 0, g1, c1)
              else Some (InspectionCompleted, v, g1, c1))" if "\<exists>v c1. r = Some (v, c1) \<and> same_types c c1" for r
    using that check nothing by auto
  show ?thesis
  proof (cases "tok = 0 \<or> md_GetFieldProps md m tok = None")
    case True
    then show ?thesis using nothing [of c] by (auto simp: ResolveValueTypeField_def Let_def)
  next
    case False
    then obtain sg where sg: "md_GetFieldProps md m tok = Some sg" "tok \<noteq> 0" by auto
    show ?thesis
    proof (cases "length sg < 2 \<or> skip_modifiers (tl sg) = None \<or> skip_modifiers (tl sg) = Some []")
      case True
      then show ?thesis using sg nothing [of c] by (auto simp: ResolveValueTypeField_def Let_def)
    next
      case False
      then obtain et rest where et: "skip_modifiers (tl sg) = Some (et # rest)" "2 \<le> length sg"
        by (auto simp: not_less neq_Nil_conv)
      have "length (et # rest) < length sg" using skip_modifiers_shorter [OF et(1)] et(2) by (cases sg) auto
      from generic_args_total(1) [OF this, of md m targs c] obtain v bs1 c1
        where "ResolveGenericArgClassID (length sg) md m targs (et # rest) c = Some (v, bs1, c1)" by blast
      moreover from this have "same_types c c1" by (rule generic_args_same(1))
      ultimately show ?thesis
        using sg et unfolding ResolveValueTypeField_def Let_def
        by (simp only: prod.case option.case list.case if_False not_less [symmetric])
          (rule final [unfolded Let_def], auto split: option.split)
    qed
  qed
qed

section \<open>Inspections end and keep the cache consistent\<close>

definition field_ok :: "InlineVTField \<Rightarrow> bool" where
  "field_ok f \<longleftrightarrow> vf_classID f \<noteq> 0 \<and> vf_size f \<noteq> 0"

definition info_ok :: "InlineVTInfo option \<Rightarrow> bool" where
  "info_ok info \<longleftrightarrow> (case info of None \<Rightarrow> True | Some vs \<Rightarrow> vs \<noteq> [] \<and> list_all field_ok vs)"

definition cache_ok :: "InlineVTCache \<Rightarrow> bool" where
  "cache_ok c \<longleftrightarrow> (\<forall>cls info. vc_cache c cls = Some info \<longrightarrow> info_ok info)"

text \<open>The parent chain of every class ends: classes do not inherit from themselves.\<close>

definition hierarchy_ranked :: "ClrMetadata \<Rightarrow> (ClassID \<Rightarrow> nat) \<Rightarrow> bool" where
  "hierarchy_ranked md rank \<longleftrightarrow>
     (\<forall>cls m td parent k. md_GetClassIDInfo2 md cls = Some (m, td, parent, k) \<longrightarrow> parent \<noteq> 0 \<longrightarrow> rank parent < rank cls)"

lemma field_loop_spec:
  "\<exists>status vts' g' c'. field_loop mem segv bus md m targs offs vts (g, c) = Some (status, vts', g', c')
     \<and> same_types c c' \<and> guard_step segv bus status g g' \<and> (list_all field_ok vts \<longrightarrow> list_all field_ok vts')"
proof (induction offs arbitrary: vts g c)
  case (Cons off offs)
  obtain o1 o2 where off: "off = (o1, o2)" by (cases off)
  obtain status cls g1 c1 where r: "ResolveValueTypeField mem segv bus md m targs o2 (g, c) = Some (status, cls, g1, c1)"
    "same_types c c1" "guard_step segv bus status g g1"
    using ResolveValueTypeField_spec [of mem segv bus md m targs o2 g c] by blast
  show ?case
  proof (cases "status = InspectionCompleted")
    case True
    define vts1 where "vts1 = (if cls \<noteq> 0
                  then case md_GetClassLayout md cls of
                         None \<Rightarrow> vts
                       | Some (_, sz) \<Rightarrow> if sz \<noteq> 0 then vts @ [\<lparr>vf_offset = o1, vf_classID = cls, vf_size = sz\<rparr>] else vts
                  else vts)"
    have "list_all field_ok vts \<longrightarrow> list_all field_ok vts1"
      by (auto simp: vts1_def field_ok_def split: option.split)
    then show ?thesis
      using Cons [of vts1 g1 c1] r True same_types_trans [OF r(2)] guard_step_trans [OF r(3)]
      by (simp add: off vts1_def [symmetric]) blast
  qed (use r in \<open>simp add: off\<close>)
qed simp

lemma build_fields_spec:
  assumes "list_all field_ok inherited"
  shows "\<exists>status info g' c'. build_fields mem segv bus md cls m targs inherited (g, c) = Some (status, info, g', c')
     \<and> same_types c c' \<and> guard_step segv bus status g g' \<and> info_ok info \<and> (status \<noteq> InspectionCompleted \<longrightarrow> info = None)"
proof -
  have "\<exists>status vts g' c'. (case md_GetClassLayout md cls of
          Some (fieldCount, _) \<Rightarrow>
            if fieldCount > 0
            then case md_GetFieldOffsets md cls of
                   Some offsets \<Rightarrow> field_loop mem segv bus md m targs offsets inherited (g, c)
                 | None \<Rightarrow> Some (InspectionCompleted, inherited, g, c)
            else Some (InspectionCompleted, inherited, g, c)
        | None \<Rightarrow> Some (InspectionCompleted, inherited, g, c)) = Some (status, vts, g', c')
      \<and> same_types c c' \<and> guard_step segv bus status g g' \<and> list_all field_ok vts"
    using assms field_loop_spec [of mem segv bus md m targs _ inherited g c] by (auto split: option.split)
  then show ?thesis unfolding build_fields_def Let_def by (auto simp: info_ok_def)
qed

lemma finish_build_spec:
  assumes "cache_ok c" "info_ok info" "status \<noteq> InspectionCompleted \<longrightarrow> info = None"
  shows "\<exists>info' c'. finish_build cls (status, info, g, c) = (status, info', g, c') \<and> cache_ok c'
     \<and> vc_pendingClassIDs c' = vc_pendingClassIDs c \<and> vc_moduleUnloaded c' = vc_moduleUnloaded c
     \<and> vc_cache c \<subseteq>\<^sub>m vc_cache c' \<and> info_ok info' \<and> (status = InspectionCompleted \<longrightarrow> vc_cache c' cls = Some info')
     \<and> (status \<noteq> InspectionCompleted \<longrightarrow> info' = None)"
proof (cases "status = InspectionCompleted")
  case True
  show ?thesis
  proof (cases "vc_cache c cls")
    case None
    then show ?thesis using True assms
      by (auto simp: finish_build_def cache_emplace_def cache_ok_def Let_def map_le_def)
  next
    case (Some i)
    then show ?thesis using True assms by (auto simp: finish_build_def cache_emplace_def cache_ok_def Let_def)
  qed
qed (use assms in \<open>auto simp: finish_build_def info_ok_def\<close>)

text \<open>What an inspection of a class does to the cache, whatever its status.\<close>

definition built :: "ClassID \<Rightarrow> InspectionStatus \<Rightarrow> InlineVTInfo option \<Rightarrow> InlineVTCache \<Rightarrow> InlineVTCache \<Rightarrow> bool" where
  "built cls status info c c' \<longleftrightarrow> cache_ok c' \<and> vc_pendingClassIDs c' = vc_pendingClassIDs c \<and> vc_moduleUnloaded c' = vc_moduleUnloaded c
     \<and> vc_cache c \<subseteq>\<^sub>m vc_cache c' \<and> info_ok info \<and> (status = InspectionCompleted \<longrightarrow> cls \<noteq> 0 \<longrightarrow> vc_cache c' cls = Some info)
     \<and> (status \<noteq> InspectionCompleted \<longrightarrow> info = None)"

lemma finish_build_built:
  assumes "cache_ok c" "info_ok info" "status \<noteq> InspectionCompleted \<longrightarrow> info = None"
    and "vc_pendingClassIDs c = vc_pendingClassIDs c0" "vc_moduleUnloaded c = vc_moduleUnloaded c0" "vc_cache c0 \<subseteq>\<^sub>m vc_cache c"
  shows "\<exists>info' c'. finish_build cls (status, info, g, c) = (status, info', g, c') \<and> built cls status info' c0 c'"
proof -
  obtain info' c' where f: "finish_build cls (status, info, g, c) = (status, info', g, c')" "cache_ok c'"
    "vc_pendingClassIDs c' = vc_pendingClassIDs c" "vc_moduleUnloaded c' = vc_moduleUnloaded c"
    "vc_cache c \<subseteq>\<^sub>m vc_cache c'" "info_ok info'" "status = InspectionCompleted \<longrightarrow> vc_cache c' cls = Some info'"
    "status \<noteq> InspectionCompleted \<longrightarrow> info' = None"
    using finish_build_spec [OF assms(1-3)] by blast
  then have "built cls status info' c0 c'"
    using assms(4-6) map_le_trans [OF assms(6) f(5)] by (simp add: built_def)
  then show ?thesis using f(1) by blast
qed

lemma same_types_built: "same_types c c' \<Longrightarrow> cache_ok c \<Longrightarrow> cache_ok c' \<and> vc_pendingClassIDs c' = vc_pendingClassIDs c
    \<and> vc_moduleUnloaded c' = vc_moduleUnloaded c \<and> vc_cache c' = vc_cache c"
  by (auto simp: same_types_def cache_ok_def)

lemma build_start_spec:
  assumes "build_start mem segv bus md cls g = (r, g1)"
  shows "guard_step segv bus (case r of Inl status \<Rightarrow> status | Inr _ \<Rightarrow> InspectionCompleted) g g1
    \<and> (\<forall>m parent targs. r = Inr (m, parent, targs) \<longrightarrow> (\<exists>td. TryGetTypeDefAndMetadata md cls = Some (m, td, parent, targs)))"
proof (cases "TryGetTypeDefAndMetadata md cls")
  case None
  then show ?thesis using assms by (auto simp: build_start_def)
next
  case (Some t)
  obtain m td parent targs where t: "t = (m, td, parent, targs)" by (cases t)
  obtain status b g2 where c: "TryContainsGCPointers mem segv bus cls g = (status, b, g2)"
    by (cases "TryContainsGCPointers mem segv bus cls g")
  note gs = TryContainsGCPointers_guard [OF c]
  show ?thesis using assms Some t c gs
    by (cases "status = InspectionCompleted"; cases b) (auto simp: build_start_def)
qed

lemma TryGetTypeDefAndMetadata_parent:
  assumes "TryGetTypeDefAndMetadata md cls = Some (m, td, parent, targs)"
  shows "\<exists>m td k. md_GetClassIDInfo2 md cls = Some (m, td, parent, k)"
  using assms by (auto simp: TryGetTypeDefAndMetadata_def Let_def split: option.splits prod.splits if_splits)

lemma GetOrBuildInlineVTInfo_spec:
  assumes "hierarchy_ranked md rank" and "cache_ok c"
  shows "\<exists>status info g' c'. GetOrBuildInlineVTInfo mem segv bus md cls (g, c) = Some (status, info, g', c')
    \<and> built cls status info c c' \<and> guard_step segv bus status g g'"
  using assms(2)
proof (induction "rank cls" arbitrary: cls g c rule: less_induct)
  case less
  note gob = GetOrBuildInlineVTInfo.simps [of mem segv bus md cls "(g, c)", unfolded fst_conv snd_conv]
  show ?case
  proof (cases "cls = 0 \<or> vc_cache c cls \<noteq> None")
    case True
    have "\<exists>info. GetOrBuildInlineVTInfo mem segv bus md cls (g, c) = Some (InspectionCompleted, info, g, c)
        \<and> built cls InspectionCompleted info c c"
    proof (cases "cls = 0")
      case False
      then show ?thesis using True less(2) gob by (auto simp: built_def cache_ok_def)
    qed (use less(2) gob in \<open>simp add: built_def info_ok_def\<close>)
    then show ?thesis by (metis InspectionStatus.distinct(3) guard_step_refl)
  next
    case False
    then have new: "cls \<noteq> 0" "vc_cache c cls = None" by simp_all
    obtain r g1 where r: "build_start mem segv bus md cls g = (r, g1)" by (cases "build_start mem segv bus md cls g")
    show ?thesis
    proof (cases r)
      case (Inl status)
      have "guard_step segv bus status g g1" using build_start_spec [OF r] Inl by simp
      moreover obtain info' c' where "finish_build cls (status, None, g1, c) = (status, info', g1, c')" "built cls status info' c c'"
        using finish_build_built [OF less(2), of None status c cls g1] by (auto simp: info_ok_def)
      ultimately show ?thesis using gob new r Inl by simp
    next
      case (Inr x)
      obtain m parent targs where x: "x = (m, parent, targs)" by (cases x)
      obtain st pinfo g2 c2 where p: "(if parent = 0 then Some (InspectionCompleted, None, g1, c)
          else GetOrBuildInlineVTInfo mem segv bus md parent (g1, c)) = Some (st, pinfo, g2, c2)"
        "built parent st pinfo c c2" "guard_step segv bus st g1 g2"
      proof (cases "parent = 0")
        case True
        then show ?thesis using that less(2) by (simp add: built_def info_ok_def)
      next
        case False
        obtain td where "TryGetTypeDefAndMetadata md cls = Some (m, td, parent, targs)"
          using build_start_spec [OF r] Inr x by blast
        from TryGetTypeDefAndMetadata_parent [OF this] have "rank parent < rank cls"
          using assms(1) False unfolding hierarchy_ranked_def by blast
        from less(1) [OF this less(2)] show ?thesis using that False by (simp del: split_paired_Ex) blast
      qed
      have g12: "guard_step segv bus st g g2" using build_start_spec [OF r] Inr guard_step_trans p(3) by fastforce
      define inh where "inh = (case pinfo of None \<Rightarrow> [] | Some v \<Rightarrow> v)"
      have inh: "list_all field_ok inh" using p(2) by (auto simp: inh_def built_def info_ok_def split: option.splits)
      obtain status info g3 c3 where f: "build_fields mem segv bus md cls m targs inh (g2, c2) = Some (status, info, g3, c3)"
        "same_types c2 c3" "guard_step segv bus status g2 g3" "info_ok info" "status \<noteq> InspectionCompleted \<longrightarrow> info = None"
        using build_fields_spec [OF inh] by blast
      have c2: "cache_ok c2" "vc_pendingClassIDs c2 = vc_pendingClassIDs c" "vc_moduleUnloaded c2 = vc_moduleUnloaded c"
        "vc_cache c \<subseteq>\<^sub>m vc_cache c2" using p(2) by (auto simp: built_def)
      have "GetOrBuildInlineVTInfo mem segv bus md cls (g, c) =
          (if st \<noteq> InspectionCompleted then Some (finish_build cls (st, None, g2, c2))
           else Some (finish_build cls (status, info, g3, c3)))"
        using gob new r Inr x by (simp add: p(1) f(1) flip: inh_def)
      moreover have "\<exists>info' c'. finish_build cls (status, info, g3, c3) = (status, info', g3, c') \<and> built cls status info' c c'"
        using same_types_built [OF f(2) c2(1)] c2 by (intro finish_build_built f(4,5)) simp_all
      moreover have "\<exists>info' c'. finish_build cls (st, None, g2, c2) = (st, info', g2, c') \<and> built cls st info' c c'"
        using c2 by (intro finish_build_built) (simp_all add: info_ok_def)
      ultimately show ?thesis
        using guard_step_trans [OF g12 f(3)] g12 by (cases "st = InspectionCompleted") (simp, blast)+
    qed
  qed
qed

text \<open>
  The invariant of the cache: queued types are queued once and have the placeholder for an entry, and
  every cached description is non-empty with a class and a size for each field.
\<close>

definition wf_vtcache :: "InlineVTCache \<Rightarrow> bool" where
  "wf_vtcache c \<longleftrightarrow> cache_ok c \<and> distinct (vc_pendingClassIDs c) \<and> 0 \<notin> set (vc_pendingClassIDs c)
     \<and> (\<forall>cls \<in> set (vc_pendingClassIDs c). vc_cache c cls = Some None)"

text \<open>What the loop over the queue does: \<open>u\<close> types go back to the queue.\<close>

definition resolved :: "ClassID list \<Rightarrow> nat \<Rightarrow> InlineVTCache \<Rightarrow> InlineVTCache \<Rightarrow> bool" where
  "resolved ps u c c' \<longleftrightarrow> wf_vtcache c' \<and> length (vc_pendingClassIDs c') = length (vc_pendingClassIDs c) + u
     \<and> set (vc_pendingClassIDs c') \<subseteq> set (vc_pendingClassIDs c) \<union> set ps
     \<and> (\<forall>cls \<in> set ps. vc_cache c' cls \<noteq> None)
     \<and> (\<forall>cls info. cls \<notin> set ps \<longrightarrow> vc_cache c cls = Some info \<longrightarrow> vc_cache c' cls = Some info)
     \<and> vc_moduleUnloaded c' = vc_moduleUnloaded c"

lemma resolved_step:
  assumes wf: "wf_vtcache c" and b: "built cls status info c c1" and cls: "cls \<noteq> 0" "cls \<notin> set (vc_pendingClassIDs c)"
  shows "resolved [cls] (if status = GuardUnavailable then 1 else 0) c
    (if status = InspectionFaulted then c1\<lparr>vc_cache := (vc_cache c1)(cls \<mapsto> None)\<rparr>
     else if status = GuardUnavailable
     then c1\<lparr>vc_cache := (vc_cache c1)(cls \<mapsto> None), vc_pendingClassIDs := List.insert cls (vc_pendingClassIDs c1)\<rparr>
     else c1)"
proof -
  have keep: "vc_cache c k = Some i \<Longrightarrow> vc_cache c1 k = Some i" for k i
    using b unfolding built_def map_le_def by (metis domI)
  have c1: "cache_ok c1" "vc_pendingClassIDs c1 = vc_pendingClassIDs c" "vc_moduleUnloaded c1 = vc_moduleUnloaded c"
    using b by (simp_all add: built_def)
  consider "status = InspectionCompleted" | "status = InspectionFaulted" | "status = GuardUnavailable" by (cases status)
  then show ?thesis
  proof cases
    case 1
    have "vc_cache c1 cls = Some info" using b 1 cls(1) unfolding built_def by blast
    then show ?thesis using wf 1 c1 keep by (auto simp: resolved_def wf_vtcache_def)
  next
    case 2
    then show ?thesis using wf c1 keep cls by (auto simp: resolved_def wf_vtcache_def cache_ok_def info_ok_def)
  next
    case 3
    then show ?thesis using wf c1 keep cls by (auto simp: resolved_def wf_vtcache_def cache_ok_def info_ok_def)
  qed
qed

lemma resolved_Cons:
  assumes "resolved [cls] u c c1" "resolved ps v c1 c2" "cls \<notin> set ps"
  shows "resolved (cls # ps) (v + u) c c2"
  using assms unfolding resolved_def by auto

lemma resolve_loop_spec:
  assumes "hierarchy_ranked md rank" and "wf_vtcache c" and "distinct ps" and "0 \<notin> set ps"
    and "set ps \<inter> set (vc_pendingClassIDs c) = {}"
  shows "\<exists>u g' c'. resolve_loop mem segv bus md ps (g, c) = Some (u, g', c') \<and> resolved ps u c c'
    \<and> guard_step segv bus InspectionCompleted g g' \<and> (0 < u \<longrightarrow> \<not> guard_ok segv bus g)"
  using assms(2-5)
proof (induction ps arbitrary: g c)
  case Nil
  then show ?case by (simp add: resolved_def)
next
  case (Cons cls ps)
  have ok: "cache_ok c" using Cons.prems(1) by (simp add: wf_vtcache_def)
  obtain status info g1 c1 where b: "GetOrBuildInlineVTInfo mem segv bus md cls (g, c) = Some (status, info, g1, c1)"
    "built cls status info c c1" "guard_step segv bus status g g1"
    using GetOrBuildInlineVTInfo_spec [OF assms(1) ok] by blast
  define u where "u = (if status = GuardUnavailable then 1 else 0 :: nat)"
  define c2 where "c2 = (if status = InspectionFaulted then c1\<lparr>vc_cache := (vc_cache c1)(cls \<mapsto> None)\<rparr>
     else if status = GuardUnavailable
     then c1\<lparr>vc_cache := (vc_cache c1)(cls \<mapsto> None), vc_pendingClassIDs := List.insert cls (vc_pendingClassIDs c1)\<rparr>
     else c1)"
  have s: "resolved [cls] u c c2"
    unfolding u_def c2_def using Cons.prems by (intro resolved_step [OF _ b(2)]) auto
  have "wf_vtcache c2" "set ps \<inter> set (vc_pendingClassIDs c2) = {}"
    using s Cons.prems unfolding resolved_def by auto
  then obtain v g' c' where r: "resolve_loop mem segv bus md ps (g1, c2) = Some (v, g', c')" "resolved ps v c2 c'"
    "guard_step segv bus InspectionCompleted g1 g'" "0 < v \<longrightarrow> \<not> guard_ok segv bus g1"
    using Cons.IH [of c2 g1] Cons.prems(2,3) by auto
  have "resolve_loop mem segv bus md (cls # ps) (g, c) = Some (v + u, g', c')"
    using b(1) r(1) by (simp add: u_def c2_def Let_def)
  moreover have "0 < v + u \<longrightarrow> \<not> guard_ok segv bus g"
    using r(4) b(3) by (auto simp: u_def guard_step_def)
  ultimately show ?case
    using resolved_Cons [OF s r(2)] Cons.prems(2) guard_step_trans [OF b(3) r(3)] by auto
qed

lemma ResolvePendingTypes_spec:
  assumes "hierarchy_ranked md rank" and wf: "wf_vtcache c" and "\<not> vc_moduleUnloaded c"
  shows "\<exists>u g' c'. ResolvePendingTypes mem segv bus md (g, c) = Some (length (vc_pendingClassIDs c) - u, g', c')
    \<and> resolved (vc_pendingClassIDs c) u (c\<lparr>vc_pendingClassIDs := [],
         vc_cache := (\<lambda>cls. if cls \<in> set (vc_pendingClassIDs c) then None else vc_cache c cls)\<rparr>) c'
    \<and> guard_step segv bus InspectionCompleted g g' \<and> (0 < u \<longrightarrow> \<not> guard_ok segv bus g)"
proof (cases "vc_pendingClassIDs c = []")
  case True
  have "c\<lparr>vc_moduleUnloaded := False\<rparr> = c" using assms(3) by simp
  then have "ResolvePendingTypes mem segv bus md (g, c) = Some (length (vc_pendingClassIDs c) - 0, g, c)"
    using True assms(3) by (simp add: ResolvePendingTypes_def DropCacheIfModuleUnloaded_def)
  moreover have "resolved [] 0 (c\<lparr>vc_pendingClassIDs := [], vc_cache := vc_cache c\<rparr>) c"
    using True wf by (simp add: resolved_def)
  ultimately show ?thesis using True by (intro exI [of _ 0] exI [of _ g] exI [of _ c]) simp
next
  case False
  define c1 where "c1 = c\<lparr>vc_pendingClassIDs := [],
         vc_cache := (\<lambda>cls. if cls \<in> set (vc_pendingClassIDs c) then None else vc_cache c cls)\<rparr>"
  have same: "c\<lparr>vc_moduleUnloaded := False\<rparr> = c" using assms(3) by simp
  have "wf_vtcache c1" "distinct (vc_pendingClassIDs c)" "0 \<notin> set (vc_pendingClassIDs c)"
    using wf by (auto simp: c1_def wf_vtcache_def cache_ok_def)
  then obtain u g' c' where r: "resolve_loop mem segv bus md (vc_pendingClassIDs c) (g, c1) = Some (u, g', c')"
    "resolved (vc_pendingClassIDs c) u c1 c'" "guard_step segv bus InspectionCompleted g g'" "0 < u \<longrightarrow> \<not> guard_ok segv bus g"
    using resolve_loop_spec [OF assms(1), of c1 "vc_pendingClassIDs c" mem segv bus g] by (auto simp: c1_def)
  have "ResolvePendingTypes mem segv bus md (g, c) = Some (length (vc_pendingClassIDs c) - u, g', c')"
    using False r(1) assms(3) by (simp add: ResolvePendingTypes_def DropCacheIfModuleUnloaded_def same c1_def Let_def)
  then show ?thesis using r(2-4) unfolding c1_def by blast
qed

lemma wf_vtcache_clear [simp]: "wf_vtcache (ClearVTCache c)"
  by (simp add: wf_vtcache_def ClearVTCache_def cache_ok_def)

lemma wf_vtcache_new [simp]: "wf_vtcache (newInlineVTCache coreLib)"
  by (simp add: wf_vtcache_def newInlineVTCache_def cache_ok_def)

lemma wf_vtcache_unload [simp]: "wf_vtcache (OnModuleUnloaded c) \<longleftrightarrow> wf_vtcache c"
  by (simp add: wf_vtcache_def OnModuleUnloaded_def cache_ok_def)

lemma wf_vtcache_flag [simp]: "wf_vtcache (c\<lparr>vc_moduleUnloaded := b\<rparr>) \<longleftrightarrow> wf_vtcache c"
  by (simp add: wf_vtcache_def cache_ok_def)

text \<open>The lookup during a dump: one read of the MethodTable, then the cache or the queue.\<close>

lemma GetInlineVTInfo_hoare:
  assumes wf: "wf_vtcache c"
  shows "\<exists>r c'. GetInlineVTInfo mem cls c = Some (r, c') \<and> wf_vtcache c'
    \<and> (case r of Inl e \<Rightarrow> e = Fault \<and> ContainsGCPointers mem cls = Inl Fault \<and> c' = c
       | Inr info \<Rightarrow> info_ok info \<and> (info \<noteq> None \<longrightarrow> c' = c))"
proof (cases "cls = 0")
  case False
  show ?thesis
  proof (cases "ContainsGCPointers mem cls")
    case (Inl e)
    then have "e = Fault" by (auto simp: ContainsGCPointers_def split: option.splits if_splits)
    then show ?thesis using False Inl wf by (simp add: GetInlineVTInfo_def bnd_def call_def)
  next
    case (Inr b)
    show ?thesis
    proof (cases "b \<and> vc_cache c cls = None")
      case True
      then show ?thesis using False Inr wf
        by (auto simp: GetInlineVTInfo_def bnd_def call_def get_def upd_def ret_def wf_vtcache_def cache_ok_def info_ok_def)
    next
      case no: False
      then show ?thesis using False Inr wf
        by (cases b) (auto simp: GetInlineVTInfo_def bnd_def call_def get_def ret_def wf_vtcache_def cache_ok_def info_ok_def)
    qed
  qed
qed (use wf in \<open>simp add: GetInlineVTInfo_def ret_def info_ok_def\<close>)

section \<open>The cache over a sequence of dumps\<close>

inductive vt_step :: "GuardState \<times> InlineVTCache \<Rightarrow> GuardState \<times> InlineVTCache \<Rightarrow> bool" where
  lookup: "GetInlineVTInfo mem cls c = Some (r, c') \<Longrightarrow> vt_step (g, c) (g, c')"
| resolve: "hierarchy_ranked md rank \<Longrightarrow> ResolvePendingTypes mem segv bus md (g, c) = Some (n, g', c') \<Longrightarrow> vt_step (g, c) (g', c')"
| unload: "vt_step (g, c) (g, OnModuleUnloaded c)"
| clear: "vt_step (g, c) (g, ClearVTCache c)"

definition vt_init :: "GuardState \<times> InlineVTCache \<Rightarrow> bool" where
  "vt_init s \<longleftrightarrow> (\<exists>coreLib. snd s = newInlineVTCache coreLib)"

lemma ResolvePendingTypes_unloaded:
  "vc_moduleUnloaded c \<Longrightarrow> ResolvePendingTypes mem segv bus md (g, c) = Some (0, g, ClearVTCache (c\<lparr>vc_moduleUnloaded := False\<rparr>))"
  by (simp add: ResolvePendingTypes_def DropCacheIfModuleUnloaded_def)

lemma ResolvePendingTypes_wf:
  assumes "hierarchy_ranked md rank" "wf_vtcache c" "ResolvePendingTypes mem segv bus md (g, c) = Some (n, g', c')"
  shows "wf_vtcache c'"
proof (cases "vc_moduleUnloaded c")
  case True
  then show ?thesis using assms(3) by (auto simp: ResolvePendingTypes_unloaded)
next
  case False
  then show ?thesis using ResolvePendingTypes_spec [OF assms(1,2), of mem segv bus g] assms(3) by (auto simp: resolved_def)
qed

interpretation vt: invariant_system vt_init vt_step "\<lambda>s. wf_vtcache (snd s)"
proof
  fix s assume "vt_init s" then show "wf_vtcache (snd s)" by (auto simp: vt_init_def)
next
  fix s t assume wf: "wf_vtcache (snd s)" and st: "vt_step s t"
  from st wf show "wf_vtcache (snd t)"
  proof cases
    case (lookup mem cls c r c' g)
    then show ?thesis using GetInlineVTInfo_hoare [of c mem cls] wf by auto
  next
    case (resolve md rank mem segv bus g c n g' c')
    then show ?thesis using ResolvePendingTypes_wf wf by auto
  qed simp_all
qed

section \<open>Properties\<close>

text \<open>
  C16. Resolving the queue after a dump always returns (the parent chain of a class is finite), keeps
  the invariant of the cache and leaves the fault guard's flag down. If a module was unloaded, nothing
  is inspected and everything cached or queued is dropped. Otherwise every queued type gets an entry,
  the entries of the other types stay, the result counts the types that left the queue, only queued
  types are queued again, and none is when the fault guard can be installed.
\<close>

theorem ResolvePendingTypes_correct:
  assumes "hierarchy_ranked md rank" and "wf_vtcache c" and "\<not> g_inGuardedRegion g"
  shows "\<exists>n g' c'. ResolvePendingTypes mem segv bus md (g, c) = Some (n, g', c') \<and> wf_vtcache c' \<and> \<not> vc_moduleUnloaded c'
    \<and> \<not> g_inGuardedRegion g'
    \<and> (if vc_moduleUnloaded c
       then n = 0 \<and> vc_cache c' = Map.empty \<and> vc_primitiveClassIDs c' = Map.empty \<and> vc_pendingClassIDs c' = []
       else n + length (vc_pendingClassIDs c') = length (vc_pendingClassIDs c)
         \<and> set (vc_pendingClassIDs c') \<subseteq> set (vc_pendingClassIDs c)
         \<and> (\<forall>cls \<in> set (vc_pendingClassIDs c). vc_cache c' cls \<noteq> None)
         \<and> (\<forall>cls info. vc_cache c cls = Some info \<and> cls \<notin> set (vc_pendingClassIDs c) \<longrightarrow> vc_cache c' cls = Some info)
         \<and> (guard_ok segv bus g \<longrightarrow> vc_pendingClassIDs c' = []))"
proof (cases "vc_moduleUnloaded c")
  case True
  then show ?thesis using assms(3) by (simp add: ResolvePendingTypes_unloaded, simp add: ClearVTCache_def)
next
  case False
  let ?ps = "vc_pendingClassIDs c"
  obtain u g' c' where r: "ResolvePendingTypes mem segv bus md (g, c) = Some (length ?ps - u, g', c')"
    "resolved ?ps u (c\<lparr>vc_pendingClassIDs := [], vc_cache := (\<lambda>cls. if cls \<in> set ?ps then None else vc_cache c cls)\<rparr>) c'"
    "guard_step segv bus InspectionCompleted g g'" "0 < u \<longrightarrow> \<not> guard_ok segv bus g"
    using ResolvePendingTypes_spec [OF assms(1,2) False] by blast
  have len: "length (vc_pendingClassIDs c') = u" and sub: "set (vc_pendingClassIDs c') \<subseteq> set ?ps"
    and wf: "wf_vtcache c'" and cached: "\<forall>cls \<in> set ?ps. vc_cache c' cls \<noteq> None"
    and kept: "\<forall>cls info. vc_cache c cls = Some info \<and> cls \<notin> set ?ps \<longrightarrow> vc_cache c' cls = Some info"
    and unl: "\<not> vc_moduleUnloaded c'"
    using r(2) False unfolding resolved_def by simp_all
  have "u \<le> length ?ps"
    using len sub wf card_mono [OF finite_set sub] assms(2) by (simp add: wf_vtcache_def distinct_card)
  moreover have "\<not> g_inGuardedRegion g'" using r(3) assms(3) by (auto simp: guard_step_def)
  moreover have "guard_ok segv bus g \<longrightarrow> vc_pendingClassIDs c' = []" using r(4) len by auto
  ultimately show ?thesis
    using False r(1) len sub wf cached kept unl by (intro exI [of _ "length ?ps - u"] exI [of _ g'] exI [of _ c']) simp
qed

text \<open>A class at \<open>0x10000\<close> derived from one at \<open>0x20000\<close>, queued with a working and a failing guard.\<close>

definition metadata_example :: ClrMetadata where
  "metadata_example = \<lparr>md_IsArrayClass = (\<lambda>_. False),
     md_GetClassIDInfo2 = (\<lambda>cls. if cls = 0x10000 then Some (1, 0x02000001, 0x20000, 0)
                                 else if cls = 0x20000 then Some (1, 0x02000002, 0, 0) else None),
     md_GetTypeArgs = (\<lambda>_. None), md_GetModuleMetaData = (\<lambda>m. m = 1), md_GetClassLayout = (\<lambda>_. Some (1, 24)),
     md_GetFieldOffsets = (\<lambda>_. Some [(8, 0x04000001)]), md_GetFieldProps = (\<lambda>_ _. Some [0x06, 0x11, 0x08]),
     md_GetClassFromTokenAndTypeArgs = (\<lambda>_ _ _. Some 0x10000), md_FindTypeDefByName = (\<lambda>_ _. None),
     md_GetTypeDefExtends = (\<lambda>_ _. None), md_GetTypeDefName = (\<lambda>_ _. None), md_GetTypeRefName = (\<lambda>_ _. None)\<rparr>"

definition vtcache_example :: InlineVTCache where
  "vtcache_example = (newInlineVTCache None)\<lparr>vc_pendingClassIDs := [0x10000], vc_cache := [0x10000 \<mapsto> None]\<rparr>"

lemma metadata_example_ranked: "hierarchy_ranked metadata_example (\<lambda>cls. if cls = 0x10000 then 1 else 0)"
  by (simp add: hierarchy_ranked_def metadata_example_def)

lemma vtcache_example_wf: "wf_vtcache vtcache_example"
  by (simp add: wf_vtcache_def vtcache_example_def newInlineVTCache_def cache_ok_def info_ok_def)

theorem ResolvePendingTypes_correct_witness:
  "hierarchy_ranked metadata_example (\<lambda>cls. if cls = 0x10000 then 1 else 0) \<and> wf_vtcache vtcache_example
   \<and> (\<exists>g' c'. ResolvePendingTypes heap_example True True metadata_example (\<lparr>g_installed = False, g_inGuardedRegion = False\<rparr>, vtcache_example)
        = Some (1, g', c') \<and> vc_pendingClassIDs c' = [] \<and> vc_cache c' 0x10000 \<noteq> None \<and> \<not> g_inGuardedRegion g')"
  using ResolvePendingTypes_correct [OF metadata_example_ranked vtcache_example_wf,
      of "\<lparr>g_installed = False, g_inGuardedRegion = False\<rparr>" heap_example True True]
    metadata_example_ranked vtcache_example_wf
  by (auto simp: guard_ok_def vtcache_example_def newInlineVTCache_def)



end
