(* ===== verification/VisitedSet.thy ===== *)
theory VisitedSet
  imports Prelude
begin

unbundle bit_operations_syntax

text \<open>
  The open-addressing hash map of visited objects
  (\<open>Datadog.Profiler.Native/VisitedObjectSet.h\<close>): linear probing over a power-of-two table in which
  address 0 marks an empty bucket, a parallel array of metadata, and a list of the buckets that were
  written, which makes \<open>Clear\<close> proportional to the number of entries. The probe loops of the source
  are \<open>while (true)\<close> loops; they are modelled by \<open>partial_function (option)\<close>, so that a loop that
  never ends, and a read outside of the table, is the value \<open>None\<close>. The counters are natural
  numbers: a vector of 8-byte elements has less than \<open>2 ^ 60\<close> of them, so that
  \<open>size * 10\<close> does not wrap.
\<close>

section \<open>Data\<close>

record VisitedEntry =
  classID :: ClassID

record VisitedObjectSet =
  vs_addresses :: "uintptr list"
  vs_entries :: "VisitedEntry list"
  vs_dirtyIndices :: "u32 list"
  vs_count :: nat
  vs_peakCount :: nat
  vs_growCount :: nat
  vs_needsFullClear :: bool
  vs_mask :: u64

datatype InsertResult = Inserted | AlreadyPresent

definition DefaultCapacity :: u64 where
  "DefaultCapacity = 512"

definition empty_entry :: VisitedEntry where
  "empty_entry = \<lparr>classID = 0\<rparr>"

section \<open>Operations\<close>

definition HashAddress :: "uintptr \<Rightarrow> u64" where
  "HashAddress addr = drop_bit 3 addr * 0x9E3779B97F4A7C15"

definition NeedsGrow :: "VisitedObjectSet \<Rightarrow> bool" where
  "NeedsGrow s \<longleftrightarrow> vs_count s * 10 \<ge> length (vs_addresses s) * 7"

text \<open>The loop of \<open>Grow\<close> that looks for an empty bucket.\<close>

partial_function (option) probe_empty :: "uintptr list \<Rightarrow> u64 \<Rightarrow> u64 \<Rightarrow> u64 option" where
  "probe_empty A m idx =
     (if length A \<le> unat idx then None
      else if A ! unat idx \<noteq> 0 then probe_empty A m ((idx + 1) AND m)
      else Some idx)"

text \<open>
  The loop of \<open>IsVisited\<close>, \<open>TryInsert\<close>, \<open>StoreClassID\<close> and \<open>GetClassID\<close>: the bucket of the
  address (\<open>True\<close>) or the first empty one (\<open>False\<close>).
\<close>

partial_function (option) probe_find :: "uintptr list \<Rightarrow> u64 \<Rightarrow> uintptr \<Rightarrow> u64 \<Rightarrow> (bool \<times> u64) option" where
  "probe_find A m a idx =
     (if length A \<le> unat idx then None
      else if A ! unat idx = a then Some (True, idx)
      else if A ! unat idx = 0 then Some (False, idx)
      else probe_find A m a ((idx + 1) AND m))"

text \<open>The loop of \<open>MarkVisitedAndStore\<close>, which tests for an empty bucket first.\<close>

partial_function (option) probe_mark :: "uintptr list \<Rightarrow> u64 \<Rightarrow> uintptr \<Rightarrow> u64 \<Rightarrow> (bool \<times> u64) option" where
  "probe_mark A m a idx =
     (if length A \<le> unat idx then None
      else if A ! unat idx = 0 then Some (False, idx)
      else if A ! unat idx = a then Some (True, idx)
      else probe_mark A m a ((idx + 1) AND m))"

fun grow_loop ::
  "(uintptr \<times> VisitedEntry) list \<Rightarrow> u64 \<Rightarrow> uintptr list \<times> VisitedEntry list \<times> u32 list
     \<Rightarrow> (uintptr list \<times> VisitedEntry list \<times> u32 list) option" where
  "grow_loop [] newMask st = Some st"
| "grow_loop ((a, e) # rest) newMask (newAddresses, newEntries, dirty) =
     (if a = 0 then grow_loop rest newMask (newAddresses, newEntries, dirty)
      else case probe_empty newAddresses newMask (HashAddress a AND newMask) of
        None \<Rightarrow> None
      | Some idx \<Rightarrow>
          grow_loop rest newMask
            (newAddresses[unat idx := a], newEntries[unat idx := e], dirty @ [ucast idx]))"

definition Grow :: "VisitedObjectSet \<Rightarrow> VisitedObjectSet option" where
  "Grow s =
     (let newCapacity = length (vs_addresses s) * 2;
          newMask = of_nat newCapacity - 1
      in case grow_loop (zip (vs_addresses s) (vs_entries s)) newMask
                (replicate newCapacity 0, replicate newCapacity empty_entry, []) of
        None \<Rightarrow> None
      | Some (newAddresses, newEntries, dirty) \<Rightarrow>
          Some (s\<lparr>vs_growCount := vs_growCount s + 1, vs_addresses := newAddresses,
                  vs_entries := newEntries, vs_dirtyIndices := dirty, vs_mask := newMask\<rparr>))"

text \<open>The constructor: \<open>while (cap < initialCapacity) cap *= 2\<close> in \<open>size_t\<close> arithmetic.\<close>

partial_function (option) cap_loop :: "u64 \<Rightarrow> u64 \<Rightarrow> u64 option" where
  "cap_loop cap initialCapacity =
     (if cap < initialCapacity then cap_loop (cap * 2) initialCapacity else Some cap)"

definition newVisitedObjectSet :: "u64 \<Rightarrow> VisitedObjectSet option" where
  "newVisitedObjectSet initialCapacity =
     map_option (\<lambda>cap.
       \<lparr>vs_addresses = replicate (unat cap) 0, vs_entries = replicate (unat cap) empty_entry,
        vs_dirtyIndices = [], vs_count = 0, vs_peakCount = 0, vs_growCount = 0,
        vs_needsFullClear = False, vs_mask = cap - 1\<rparr>)
     (cap_loop DefaultCapacity initialCapacity)"

definition IsVisited :: "VisitedObjectSet \<Rightarrow> uintptr \<Rightarrow> bool option" where
  "IsVisited s address =
     map_option fst (probe_find (vs_addresses s) (vs_mask s) address (HashAddress address AND vs_mask s))"

definition grow_if_needed :: "VisitedObjectSet \<Rightarrow> VisitedObjectSet option" where
  "grow_if_needed s = (if NeedsGrow s then Grow s else Some s)"

definition insert_bucket :: "VisitedObjectSet \<Rightarrow> u64 \<Rightarrow> uintptr \<Rightarrow> VisitedEntry \<Rightarrow> VisitedObjectSet" where
  "insert_bucket s idx address e =
     s\<lparr>vs_addresses := (vs_addresses s)[unat idx := address],
       vs_entries := (vs_entries s)[unat idx := e],
       vs_dirtyIndices := vs_dirtyIndices s @ [ucast idx],
       vs_count := vs_count s + 1\<rparr>"

text \<open>\<open>TryInsert\<close> returns the result, the bucket that \<open>outEntry\<close> points to, and the new set.\<close>

definition TryInsert :: "VisitedObjectSet \<Rightarrow> uintptr \<Rightarrow> (InsertResult \<times> u64 \<times> VisitedObjectSet) option" where
  "TryInsert s0 address =
     (case grow_if_needed s0 of None \<Rightarrow> None
      | Some s \<Rightarrow>
        (case probe_find (vs_addresses s) (vs_mask s) address (HashAddress address AND vs_mask s) of
           None \<Rightarrow> None
         | Some (True, idx) \<Rightarrow> Some (AlreadyPresent, idx, s)
         | Some (False, idx) \<Rightarrow> Some (Inserted, idx, insert_bucket s idx address empty_entry)))"

text \<open>The write \<open>slot->classID = c\<close> of a caller of \<open>TryInsert\<close>, and its read of \<open>slot->classID\<close>.\<close>

definition slot_store :: "VisitedObjectSet \<Rightarrow> u64 \<Rightarrow> ClassID \<Rightarrow> VisitedObjectSet" where
  "slot_store s idx c =
     s\<lparr>vs_entries := (vs_entries s)[unat idx := (vs_entries s ! unat idx)\<lparr>classID := c\<rparr>]\<rparr>"

definition slot_class :: "VisitedObjectSet \<Rightarrow> u64 \<Rightarrow> ClassID" where
  "slot_class s idx = classID (vs_entries s ! unat idx)"

definition MarkVisitedAndStore :: "VisitedObjectSet \<Rightarrow> uintptr \<Rightarrow> ClassID \<Rightarrow> VisitedObjectSet option" where
  "MarkVisitedAndStore s0 address c =
     (case grow_if_needed s0 of None \<Rightarrow> None
      | Some s \<Rightarrow>
        (case probe_mark (vs_addresses s) (vs_mask s) address (HashAddress address AND vs_mask s) of
           None \<Rightarrow> None
         | Some (False, idx) \<Rightarrow>
             Some (insert_bucket s idx address ((vs_entries s ! unat idx)\<lparr>classID := c\<rparr>))
         | Some (True, idx) \<Rightarrow> Some (slot_store s idx c)))"

definition MarkVisited :: "VisitedObjectSet \<Rightarrow> uintptr \<Rightarrow> VisitedObjectSet option" where
  "MarkVisited s address = map_option (\<lambda>(_, _, s'). s') (TryInsert s address)"

definition MarkIfAbsent :: "VisitedObjectSet \<Rightarrow> uintptr \<Rightarrow> (bool \<times> VisitedObjectSet) option" where
  "MarkIfAbsent s address = map_option (\<lambda>(r, _, s'). (r = Inserted, s')) (TryInsert s address)"

definition StoreClassID :: "VisitedObjectSet \<Rightarrow> uintptr \<Rightarrow> ClassID \<Rightarrow> VisitedObjectSet option" where
  "StoreClassID s address c =
     (case probe_find (vs_addresses s) (vs_mask s) address (HashAddress address AND vs_mask s) of
        None \<Rightarrow> None
      | Some (True, idx) \<Rightarrow> Some (slot_store s idx c)
      | Some (False, idx) \<Rightarrow> Some s)"

text \<open>\<open>GetClassID\<close> returns \<open>true\<close> and the identifier, or \<open>false\<close> (the inner \<open>None\<close>).\<close>

definition GetClassID :: "VisitedObjectSet \<Rightarrow> uintptr \<Rightarrow> ClassID option option" where
  "GetClassID s address =
     (case probe_find (vs_addresses s) (vs_mask s) address (HashAddress address AND vs_mask s) of
        None \<Rightarrow> None
      | Some (True, idx) \<Rightarrow> Some (Some (classID (vs_entries s ! unat idx)))
      | Some (False, idx) \<Rightarrow> Some None)"

definition MarkPossiblyInconsistent :: "VisitedObjectSet \<Rightarrow> VisitedObjectSet" where
  "MarkPossiblyInconsistent s = s\<lparr>vs_needsFullClear := True\<rparr>"

fun zero_buckets :: "u32 list \<Rightarrow> uintptr list \<Rightarrow> uintptr list" where
  "zero_buckets [] A = A"
| "zero_buckets (idx # ds) A = zero_buckets ds (A[unat idx := 0])"

definition ClearVisited :: "VisitedObjectSet \<Rightarrow> VisitedObjectSet" where
  "ClearVisited s =
     s\<lparr>vs_peakCount := (if vs_count s > vs_peakCount s then vs_count s else vs_peakCount s),
       vs_addresses := (if vs_needsFullClear s then replicate (length (vs_addresses s)) 0
                        else zero_buckets (vs_dirtyIndices s) (vs_addresses s)),
       vs_needsFullClear := False,
       vs_dirtyIndices := [],
       vs_count := 0\<rparr>"

definition VisitedSize :: "VisitedObjectSet \<Rightarrow> nat" where
  "VisitedSize s = vs_count s"

definition GetBucketCount :: "VisitedObjectSet \<Rightarrow> nat" where
  "GetBucketCount s = length (vs_addresses s)"

definition GetPeakEntryCount :: "VisitedObjectSet \<Rightarrow> nat" where
  "GetPeakEntryCount s = max (vs_peakCount s) (vs_count s)"

definition GetGrowCount :: "VisitedObjectSet \<Rightarrow> nat" where
  "GetGrowCount s = vs_growCount s"

text \<open>
  What a memory fault can leave behind: the insertion wrote the address into its bucket and was
  interrupted before it recorded the bucket in \<open>_dirtyIndices\<close> and counted the entry.
\<close>

definition interrupted_insert :: "VisitedObjectSet \<Rightarrow> u64 \<Rightarrow> uintptr \<Rightarrow> VisitedObjectSet" where
  "interrupted_insert s idx address = s\<lparr>vs_addresses := (vs_addresses s)[unat idx := address]\<rparr>"

text \<open>A run of insertions with the results they return, for any implementation of \<open>TryInsert\<close>.\<close>

fun visit_all ::
  "('s \<Rightarrow> uintptr \<Rightarrow> (InsertResult \<times> 'i \<times> 's) option) \<Rightarrow> 's \<Rightarrow> uintptr list
     \<Rightarrow> (InsertResult list \<times> 's) option" where
  "visit_all ti s [] = Some ([], s)"
| "visit_all ti s (a # as) =
     (case ti s a of None \<Rightarrow> None
      | Some (r, _, s') \<Rightarrow> map_option (\<lambda>(rs, s''). (r # rs, s'')) (visit_all ti s' as))"

section \<open>The abstract map and the invariant\<close>

text \<open>The contract: a set of visited addresses, each with the class identifier stored for it.\<close>

definition visited_map :: "VisitedObjectSet \<Rightarrow> uintptr \<rightharpoonup> ClassID" where
  "visited_map s a =
     (if a = 0 then None else map_option classID (map_of (zip (vs_addresses s) (vs_entries s)) a))"

definition home :: "nat \<Rightarrow> uintptr \<Rightarrow> nat" where
  "home n a = unat (HashAddress a) mod n"

text \<open>
  The probing invariant: a bucket in use is reached from the home of its address over buckets
  that are all in use, and no address is stored twice.
\<close>

definition probe_path :: "uintptr list \<Rightarrow> uintptr \<Rightarrow> nat \<Rightarrow> bool" where
  "probe_path A a d \<longleftrightarrow> (\<forall>j<d. A ! ((home (length A) a + j) mod length A) \<noteq> 0)"

definition chained :: "uintptr list \<Rightarrow> bool" where
  "chained A \<longleftrightarrow>
     (\<forall>i<length A. A ! i \<noteq> 0 \<longrightarrow>
        (\<exists>d<length A. i = (home (length A) (A ! i) + d) mod length A \<and> probe_path A (A ! i) d))"

definition unique_addresses :: "uintptr list \<Rightarrow> bool" where
  "unique_addresses A \<longleftrightarrow>
     (\<forall>i<length A. \<forall>j<length A. A ! i = A ! j \<and> A ! i \<noteq> 0 \<longrightarrow> i = j)"

definition used_buckets :: "uintptr list \<Rightarrow> nat set" where
  "used_buckets A = {i. i < length A \<and> A ! i \<noteq> 0}"

definition table_shape :: "VisitedObjectSet \<Rightarrow> nat \<Rightarrow> bool" where
  "table_shape s k \<longleftrightarrow> 9 \<le> k \<and> k \<le> 32 \<and> length (vs_addresses s) = 2 ^ k
     \<and> length (vs_entries s) = 2 ^ k \<and> vs_mask s = mask k"

definition table_ok :: "uintptr list \<Rightarrow> u32 list \<Rightarrow> nat \<Rightarrow> bool" where
  "table_ok A ds n \<longleftrightarrow> chained A \<and> unique_addresses A \<and> n = card (used_buckets A)
     \<and> unat ` set ds = used_buckets A"

definition wf_visited :: "VisitedObjectSet \<Rightarrow> bool" where
  "wf_visited s \<longleftrightarrow> (\<exists>k. table_shape s k)
     \<and> table_ok (vs_addresses s) (vs_dirtyIndices s) (vs_count s)
     \<and> vs_count s * 10 < length (vs_addresses s) * 7 + 10"

text \<open>
  Bucket numbers are recorded as 32-bit values, so the contract covers the tables of up to
  \<open>2 ^ 32\<close> buckets: an insertion may grow the table only below that size. With a load factor of
  70\% this holds as long as there are fewer than \<open>max_entries\<close> visited objects.
\<close>

definition has_room :: "VisitedObjectSet \<Rightarrow> bool" where
  "has_room s \<longleftrightarrow> NeedsGrow s \<longrightarrow> length (vs_addresses s) < 2 ^ 32"

definition max_entries :: nat where
  "max_entries = 3006477107"

definition slot_of :: "VisitedObjectSet \<Rightarrow> uintptr \<Rightarrow> u64 \<Rightarrow> bool" where
  "slot_of s a idx \<longleftrightarrow> unat idx < length (vs_addresses s) \<and> vs_addresses s ! unat idx = a"

section \<open>Probing\<close>

lemma home_less: "0 < n \<Longrightarrow> home n a < n"
  by (simp add: home_def)

lemma home_masked: "unat (HashAddress a AND mask k) = home (2 ^ k) a"
  by (simp add: home_def and_mask_unat)

text \<open>
  A probe walks the buckets in cyclic order from its start; it stops at the first bucket that
  satisfies its stop condition.
\<close>

lemma probe_find_walk:
  assumes "length A = 2 ^ k" and "k < 64" and "unat idx < 2 ^ k"
    and "\<forall>j<d. A ! ((unat idx + j) mod 2 ^ k) \<noteq> a \<and> A ! ((unat idx + j) mod 2 ^ k) \<noteq> 0"
    and "A ! ((unat idx + d) mod 2 ^ k) = a \<or> A ! ((unat idx + d) mod 2 ^ k) = 0"
  shows "\<exists>idx'. probe_find A (mask k) a idx = Some (A ! unat idx' = a, idx')
           \<and> unat idx' = (unat idx + d) mod 2 ^ k"
  using assms
proof (induction d arbitrary: idx)
  case 0
  then show ?case by (auto simp: probe_find.simps [of A "mask k" a idx])
next
  case (Suc d)
  let ?n = "(idx + 1) AND mask k"
  have n: "unat ?n = (unat idx + 1) mod 2 ^ k"
    by (rule unat_next_masked) (use Suc.prems in simp_all)
  have shift: "(unat ?n + j) mod 2 ^ k = (unat idx + Suc j) mod 2 ^ k" for j
    by (simp add: n mod_simps)
  from Suc.prems(4) have "A ! (unat idx mod 2 ^ k) \<noteq> a \<and> A ! (unat idx mod 2 ^ k) \<noteq> 0"
    by (metis add.right_neutral zero_less_Suc)
  then have step: "probe_find A (mask k) a idx = probe_find A (mask k) a ?n"
    using Suc.prems(1,3) by (subst probe_find.simps) simp
  have "\<exists>idx'. probe_find A (mask k) a ?n = Some (A ! unat idx' = a, idx')
          \<and> unat idx' = (unat ?n + d) mod 2 ^ k"
    by (rule Suc.IH) (use Suc.prems shift n in auto)
  with step shift show ?case by simp
qed

lemma probe_mark_eq_probe_find:
  assumes "a \<noteq> 0" and ret: "probe_find A m a idx = Some r"
  shows "probe_mark A m a idx = Some r"
proof -
  have "a = a \<longrightarrow> probe_mark A m a idx = Some r"
  proof (rule probe_find.raw_induct [where P = "\<lambda>A m x i r. x = a \<longrightarrow> probe_mark A m x i = Some r", OF _ ret])
    fix f B m x i r
    assume IH: "\<And>B m x i r. f B m x i = Some r \<Longrightarrow> x = a \<longrightarrow> probe_mark B m x i = Some r"
      and eq: "(if length B \<le> unat i then None
        else if B ! unat i = x then Some (True, i)
        else if B ! unat i = 0 then Some (False, i)
        else f B m x ((i + 1) AND m)) = Some r"
    show "x = a \<longrightarrow> probe_mark B m x i = Some r"
      using eq IH [of B m x "(i + 1) AND m" r] assms(1)
      by (subst probe_mark.simps) (auto split: if_splits)
  qed
  then show ?thesis by simp
qed

lemma probe_empty_eq_probe_find:
  assumes "a \<notin> set A" and ret: "probe_find A m a idx = Some r"
  shows "probe_empty A m idx = Some (snd r)"
proof -
  have "a = a \<and> A = A \<longrightarrow> probe_empty A m idx = Some (snd r)"
  proof (rule probe_find.raw_induct
      [where P = "\<lambda>B m x i r. x = a \<and> B = A \<longrightarrow> probe_empty B m i = Some (snd r)", OF _ ret])
    fix f B m x i r
    assume IH: "\<And>B m x i r. f B m x i = Some r \<Longrightarrow> x = a \<and> B = A \<longrightarrow> probe_empty B m i = Some (snd r)"
      and eq: "(if length B \<le> unat i then None
        else if B ! unat i = x then Some (True, i)
        else if B ! unat i = 0 then Some (False, i)
        else f B m x ((i + 1) AND m)) = Some r"
    show "x = a \<and> B = A \<longrightarrow> probe_empty B m i = Some (snd r)"
      using eq IH [of B m x "(i + 1) AND m" r] assms(1)
      by (subst probe_empty.simps) (auto split: if_splits)
  qed
  then show ?thesis by simp
qed

text \<open>With an empty bucket in the table, the probe for any address returns.\<close>

lemma probe_find_returns:
  assumes "length A = 2 ^ k" and "k < 64" and "e < 2 ^ k" and "A ! e = 0"
  obtains d idx where "probe_find A (mask k) a (HashAddress a AND mask k) = Some (A ! unat idx = a, idx)"
    and "unat idx = (home (2 ^ k) a + d) mod 2 ^ k" and "d < 2 ^ k"
    and "A ! unat idx = a \<or> A ! unat idx = 0"
    and "\<forall>j<d. A ! ((home (2 ^ k) a + j) mod 2 ^ k) \<noteq> a \<and> A ! ((home (2 ^ k) a + j) mod 2 ^ k) \<noteq> 0"
proof -
  let ?h = "home (2 ^ k) a"
  let ?stop = "\<lambda>d. A ! ((?h + d) mod 2 ^ k) = a \<or> A ! ((?h + d) mod 2 ^ k) = 0"
  obtain d0 where d0: "d0 < 2 ^ k" "e = (?h + d0) mod 2 ^ k"
    using cyclic_reach [of e "2 ^ k" ?h] assms(3) home_less [of "2 ^ k" a] by auto
  define d where "d = (LEAST d. ?stop d)"
  have stop0: "?stop d0" using assms(4) d0 by simp
  then have stop: "?stop d" unfolding d_def by (rule LeastI)
  have "d \<le> d0" unfolding d_def using stop0 by (rule Least_le)
  then have dlt: "d < 2 ^ k" using d0(1) by simp
  have before: "\<forall>j<d. \<not> ?stop j" unfolding d_def using not_less_Least by blast
  have start: "unat (HashAddress a AND mask k) = ?h" by (rule home_masked)
  obtain idx where "probe_find A (mask k) a (HashAddress a AND mask k) = Some (A ! unat idx = a, idx)"
    "unat idx = (?h + d) mod 2 ^ k"
    using probe_find_walk [OF assms(1,2), of "HashAddress a AND mask k" d a]
      start before stop home_less [of "2 ^ k" a] by auto
  then show thesis
    using that [of idx d] stop dlt before by auto
qed

section \<open>Lookups and insertions in a well-formed table\<close>

lemma lookup_iff:
  assumes "unique_addresses A" and "length E = length A" and "a \<noteq> 0"
  shows "map_of (zip A E) a = Some y \<longleftrightarrow> (\<exists>i<length A. A ! i = a \<and> E ! i = y)"
proof
  assume "map_of (zip A E) a = Some y"
  then have "(a, y) \<in> set (zip A E)" by (rule map_of_SomeD)
  then show "\<exists>i<length A. A ! i = a \<and> E ! i = y"
    by (auto simp: set_zip)
next
  assume "\<exists>i<length A. A ! i = a \<and> E ! i = y"
  then obtain i where i: "i < length A" "A ! i = a" "E ! i = y" by auto
  then have "a \<in> set A" by auto
  then obtain z where z: "map_of (zip A E) a = Some z"
    using assms(2) by (metis map_of_zip_is_Some)
  then have "(a, z) \<in> set (zip A E)" by (rule map_of_SomeD)
  then obtain j where "j < length A" "A ! j = a" "E ! j = z"
    by (auto simp: set_zip)
  with i assms(1,3) have "z = y" unfolding unique_addresses_def by metis
  with z show "map_of (zip A E) a = Some y" by simp
qed

lemma lookup_none: "a \<notin> set A \<Longrightarrow> map_of (zip A E) a = None"
  by (auto simp: map_of_eq_None_iff dest: set_zip_leftD)

lemma probe_find_present:
  assumes len: "length A = 2 ^ k" and k: "k < 64" and ok: "chained A" "unique_addresses A"
    and e: "e < 2 ^ k" "A ! e = 0" and i: "i < 2 ^ k" "A ! i = a" "a \<noteq> 0"
  shows "\<exists>idx. probe_find A (mask k) a (HashAddress a AND mask k) = Some (True, idx) \<and> unat idx = i"
proof -
  let ?h = "home (2 ^ k) a"
  obtain d idx where p: "probe_find A (mask k) a (HashAddress a AND mask k) = Some (A ! unat idx = a, idx)"
    and d: "unat idx = (?h + d) mod 2 ^ k" "d < 2 ^ k" "A ! unat idx = a \<or> A ! unat idx = 0"
    and before: "\<forall>j<d. A ! ((?h + j) mod 2 ^ k) \<noteq> a \<and> A ! ((?h + j) mod 2 ^ k) \<noteq> 0"
    using probe_find_returns [OF len k e] by metis
  obtain d' where d': "d' < 2 ^ k" "i = (?h + d') mod 2 ^ k" "\<forall>j<d'. A ! ((?h + j) mod 2 ^ k) \<noteq> 0"
    using ok(1) i len unfolding chained_def probe_path_def by auto
  have "\<not> d' < d" using before d'(2) i(2) by auto
  moreover have "d < d' \<Longrightarrow> A ! unat idx = a" using d d'(3) by auto
  moreover have "A ! unat idx = a \<Longrightarrow> unat idx = i"
    using ok(2) i len d(1) unfolding unique_addresses_def by auto
  ultimately have "A ! unat idx = a \<and> unat idx = i"
    using d(1) d'(2) i(2) by (cases "d = d'") auto
  with p show ?thesis by auto
qed

lemma probe_find_absent:
  assumes len: "length A = 2 ^ k" and k: "k < 64"
    and e: "e < 2 ^ k" "A ! e = 0" and a: "a \<notin> set A"
  shows "\<exists>idx d. probe_find A (mask k) a (HashAddress a AND mask k) = Some (False, idx)
           \<and> unat idx < 2 ^ k \<and> A ! unat idx = 0
           \<and> d < 2 ^ k \<and> unat idx = (home (2 ^ k) a + d) mod 2 ^ k \<and> probe_path A a d"
proof -
  obtain d idx where p: "probe_find A (mask k) a (HashAddress a AND mask k) = Some (A ! unat idx = a, idx)"
    and d: "unat idx = (home (2 ^ k) a + d) mod 2 ^ k" "d < 2 ^ k" "A ! unat idx = a \<or> A ! unat idx = 0"
    and before: "\<forall>j<d. A ! ((home (2 ^ k) a + j) mod 2 ^ k) \<noteq> a \<and> A ! ((home (2 ^ k) a + j) mod 2 ^ k) \<noteq> 0"
    using probe_find_returns [OF len k e] by metis
  have "unat idx < 2 ^ k" using d(1) by simp
  moreover have "A ! unat idx \<noteq> a" using a len calculation by (metis nth_mem)
  ultimately show ?thesis
    using p d before len unfolding probe_path_def by auto
qed

lemma used_buckets_finite [simp]: "finite (used_buckets A)"
  by (simp add: used_buckets_def)

lemma used_buckets_insert:
  assumes "i < length A" and "a \<noteq> 0"
  shows "used_buckets (A[i := a]) = insert i (used_buckets A)"
  using assms by (auto simp: used_buckets_def nth_list_update split: if_splits)

lemma empty_bucket_exists:
  assumes "card (used_buckets A) < length A"
  shows "\<exists>e<length A. A ! e = 0"
proof (rule ccontr)
  assume "\<not> (\<exists>e<length A. A ! e = 0)"
  then have "used_buckets A = {..<length A}" by (auto simp: used_buckets_def)
  with assms show False by simp
qed

text \<open>
  Writing a new address into the bucket where its probe stopped keeps the table well formed;
  this is the step that \<open>TryInsert\<close>, \<open>MarkVisitedAndStore\<close> and the loop of \<open>Grow\<close> share.
\<close>

lemma table_ok_insert:
  assumes ok: "table_ok A ds n" and len: "length A = 2 ^ k" and k: "k \<le> 32"
    and i: "unat idx < 2 ^ k" "A ! unat idx = 0" and a: "a \<noteq> 0" "a \<notin> set A"
    and d: "d < 2 ^ k" "unat idx = (home (2 ^ k) a + d) mod 2 ^ k" "probe_path A a d"
  shows "table_ok (A[unat idx := a]) (ds @ [ucast (idx :: u64)]) (n + 1)"
proof -
  let ?B = "A[unat idx := a]"
  have grow: "A ! j \<noteq> 0 \<Longrightarrow> ?B ! j \<noteq> 0" for j
    using i a(1) len by (metis nth_list_update nth_list_update_neq)
  then have mono: "probe_path A x c \<Longrightarrow> probe_path ?B x c" for x c
    by (auto simp: probe_path_def)
  have "chained ?B"
    unfolding chained_def
  proof (intro allI impI)
    fix j assume j: "j < length ?B" "?B ! j \<noteq> 0"
    show "\<exists>d<length ?B. j = (home (length ?B) (?B ! j) + d) mod length ?B \<and> probe_path ?B (?B ! j) d"
    proof (cases "j = unat idx")
      case True
      then show ?thesis using d i len mono by auto
    next
      case False
      then have "A ! j \<noteq> 0" "?B ! j = A ! j" using j by auto
      then show ?thesis using ok j mono unfolding table_ok_def chained_def by fastforce
    qed
  qed
  moreover have "unique_addresses ?B"
    using ok a len i unfolding table_ok_def unique_addresses_def
    by (auto simp: nth_list_update)
  moreover have "unat (ucast idx :: u32) = unat idx"
  proof -
    have "unat idx < 2 ^ 32"
      using i(1) k by (meson order_less_le_trans power_increasing one_le_numeral)
    then show ?thesis by (simp add: unsigned_ucast_eq take_bit_nat_eq_self)
  qed
  moreover have "used_buckets ?B = insert (unat idx) (used_buckets A)"
    using i a(1) len by (simp add: used_buckets_insert)
  moreover have "unat idx \<notin> used_buckets A"
    using i by (simp add: used_buckets_def)
  ultimately show ?thesis using ok by (auto simp: table_ok_def)
qed

lemma lookup_insert:
  assumes "unique_addresses A" and "length E = length A" and "i < length A" and "A ! i = 0"
    and "a \<noteq> 0" and "a \<notin> set A" and "x \<noteq> 0"
  shows "map_of (zip (A[i := a]) (E[i := e])) x = (if x = a then Some e else map_of (zip A E) x)"
proof -
  have u: "unique_addresses (A[i := a])"
    using assms unfolding unique_addresses_def by (auto simp: nth_list_update)
  have "map_of (zip (A[i := a]) (E[i := e])) x = Some y
      \<longleftrightarrow> (if x = a then Some e else map_of (zip A E) x) = Some y" for y
    using assms lookup_iff [OF u, of "E[i := e]" x y] lookup_iff [OF assms(1,2,7), of y]
    by (auto simp: nth_list_update in_set_conv_nth split: if_splits)
  then show ?thesis by (metis option.exhaust)
qed

section \<open>Growing\<close>

abbreviation nonzero :: "uintptr \<times> VisitedEntry \<Rightarrow> bool" where
  "nonzero p \<equiv> fst p \<noteq> 0"

lemma unique_addresses_Cons:
  "unique_addresses (x # A) \<Longrightarrow> unique_addresses A \<and> (x \<noteq> 0 \<longrightarrow> x \<notin> set A)"
  unfolding unique_addresses_def
  by (force simp: in_set_conv_nth)

lemma unique_addresses_distinct:
  "unique_addresses A \<Longrightarrow> distinct (filter (\<lambda>a. a \<noteq> 0) A)"
  by (induction A) (auto dest: unique_addresses_Cons)

lemma map_fst_filter_zip:
  "length A = length E \<Longrightarrow> map fst (filter nonzero (zip A E)) = filter (\<lambda>a. a \<noteq> 0) A"
  by (induction A E rule: list_induct2) auto

lemma length_filter_used: "length (filter (\<lambda>a. a \<noteq> 0) A) = card (used_buckets A)"
  by (simp add: used_buckets_def length_filter_conv_card)

lemma grow_loop_ok:
  assumes "length nA = 2 ^ k" and "length nE = 2 ^ k" and "k \<le> 32" and "table_ok nA ds n"
    and "distinct (map fst (filter nonzero rest))"
    and "\<forall>p \<in> set rest. nonzero p \<longrightarrow> fst p \<notin> set nA"
    and "n + length (filter nonzero rest) < 2 ^ k"
  shows "\<exists>nA' nE' ds'. grow_loop rest (mask k) (nA, nE, ds) = Some (nA', nE', ds')
     \<and> length nA' = 2 ^ k \<and> length nE' = 2 ^ k
     \<and> table_ok nA' ds' (n + length (filter nonzero rest))
     \<and> (\<forall>x. x \<noteq> 0 \<longrightarrow> map_of (zip nA' nE') x =
           (case map_of rest x of Some e \<Rightarrow> Some e | None \<Rightarrow> map_of (zip nA nE) x))"
  using assms
proof (induction rest "mask k :: u64" "(nA, nE, ds)" arbitrary: nA nE ds n rule: grow_loop.induct)
  case (1 nA nE ds n)
  then show ?case by simp
next
  case (2 a e rest nA nE ds n)
  show ?case
  proof (cases "a = 0")
    case True
    then show ?thesis using 2 by auto
  next
    case False
    have "card (used_buckets nA) < length nA"
      using "2.prems"(1,4,7) by (simp add: table_ok_def)
    then obtain z where z: "z < 2 ^ k" "nA ! z = 0"
      using empty_bucket_exists "2.prems"(1) by metis
    have fresh: "a \<notin> set nA" using "2.prems"(6) False by auto
    obtain idx d where idx: "probe_find nA (mask k) a (HashAddress a AND mask k) = Some (False, idx)"
      "unat idx < 2 ^ k" "nA ! unat idx = 0" "d < 2 ^ k"
      "unat idx = (home (2 ^ k) a + d) mod 2 ^ k" "probe_path nA a d"
      using probe_find_absent [OF "2.prems"(1) _ z fresh] "2.prems"(3) by auto
    then have pe: "probe_empty nA (mask k) (HashAddress a AND mask k) = Some idx"
      using probe_empty_eq_probe_find [OF fresh] by fastforce
    have ok: "table_ok (nA[unat idx := a]) (ds @ [ucast idx]) (n + 1)"
      by (rule table_ok_insert [OF "2.prems"(4,1,3)]) (use idx fresh False in auto)
    have na: "a \<notin> fst ` set (filter nonzero rest)"
      using "2.prems"(5) False by simp
    have IH: "\<exists>nA' nE' ds'. grow_loop rest (mask k) (nA[unat idx := a], nE[unat idx := e], ds @ [ucast idx])
          = Some (nA', nE', ds') \<and> length nA' = 2 ^ k \<and> length nE' = 2 ^ k
     \<and> table_ok nA' ds' ((n + 1) + length (filter nonzero rest))
     \<and> (\<forall>x. x \<noteq> 0 \<longrightarrow> map_of (zip nA' nE') x =
           (case map_of rest x of Some e \<Rightarrow> Some e
            | None \<Rightarrow> map_of (zip (nA[unat idx := a]) (nE[unat idx := e])) x))"
    proof (rule "2.hyps"(2) [OF False pe _ _ _ ok])
      show "\<forall>p\<in>set rest. nonzero p \<longrightarrow> fst p \<notin> set (nA[unat idx := a])"
        using "2.prems"(6) na by (auto dest!: set_update_subset_insert [THEN subsetD])
    qed (use "2.prems" False in auto)
    have ins: "map_of (zip (nA[unat idx := a]) (nE[unat idx := e])) x
        = (if x = a then Some e else map_of (zip nA nE) x)" if "x \<noteq> 0" for x
      by (rule lookup_insert) (use idx fresh False that "2.prems" in \<open>auto simp: table_ok_def\<close>)
    have none: "map_of rest a = None"
      using na False by (auto simp: map_of_eq_None_iff)
    have cases_eq: "(case map_of rest x of Some e' \<Rightarrow> Some e'
          | None \<Rightarrow> map_of (zip (nA[unat idx := a]) (nE[unat idx := e])) x)
        = (case map_of ((a, e) # rest) x of Some e' \<Rightarrow> Some e' | None \<Rightarrow> map_of (zip nA nE) x)"
      if "x \<noteq> 0" for x
      using ins [OF that] none by (auto split: option.splits)
    show ?thesis
      using IH False pe cases_eq by auto
  qed
qed

lemma table_ok_replicate: "table_ok (replicate m 0) [] 0"
  by (simp add: table_ok_def chained_def unique_addresses_def used_buckets_def)

lemma of_nat_pow2_minus: "(of_nat (2 ^ k) - 1 :: u64) = mask k"
  by (simp add: mask_eq_decr_exp)

lemma Grow_ok:
  assumes shape: "table_shape s k" and k: "k < 32"
    and ok: "table_ok (vs_addresses s) (vs_dirtyIndices s) (vs_count s)"
  shows "\<exists>s'. Grow s = Some s' \<and> table_shape s' (Suc k)
     \<and> table_ok (vs_addresses s') (vs_dirtyIndices s') (vs_count s')
     \<and> vs_count s' = vs_count s \<and> visited_map s' = visited_map s
     \<and> vs_needsFullClear s' = vs_needsFullClear s"
proof -
  let ?A = "vs_addresses s" and ?E = "vs_entries s"
  have len: "length ?A = 2 ^ k" "length ?E = 2 ^ k" using shape by (auto simp: table_shape_def)
  have cnt: "vs_count s = card (used_buckets ?A)" using ok by (simp add: table_ok_def)
  have used: "length (filter nonzero (zip ?A ?E)) = vs_count s"
    using map_fst_filter_zip [of ?A ?E] len length_filter_used [of ?A] cnt by (metis length_map)
  have "card (used_buckets ?A) \<le> card {..<length ?A}"
    by (rule card_mono) (auto simp: used_buckets_def)
  then have le: "vs_count s \<le> 2 ^ k" using len cnt by simp
  have lt: "0 + length (filter nonzero (zip ?A ?E)) < 2 ^ Suc k"
    using le used by (simp add: le_less_trans)
  have dist: "distinct (map fst (filter nonzero (zip ?A ?E)))"
    using map_fst_filter_zip [of ?A ?E] len ok unique_addresses_distinct [of ?A]
    by (simp add: table_ok_def)
  obtain nA nE ds where g: "grow_loop (zip ?A ?E) (mask (Suc k))
      (replicate (2 ^ Suc k) 0, replicate (2 ^ Suc k) empty_entry, []) = Some (nA, nE, ds)"
    "length nA = 2 ^ Suc k" "length nE = 2 ^ Suc k" "table_ok nA ds (vs_count s)"
    "\<forall>x. x \<noteq> 0 \<longrightarrow> map_of (zip nA nE) x = (case map_of (zip ?A ?E) x of Some e \<Rightarrow> Some e
        | None \<Rightarrow> map_of (zip (replicate (2 ^ Suc k) 0) (replicate (2 ^ Suc k) empty_entry)) x)"
    using grow_loop_ok [of "replicate (2 ^ Suc k) 0" "Suc k" "replicate (2 ^ Suc k) empty_entry" "[]" 0
        "zip ?A ?E", OF _ _ _ table_ok_replicate dist _ lt] used k by auto
  have cap: "length ?A * 2 = 2 ^ Suc k" using len by simp
  have "Grow s = Some (s\<lparr>vs_growCount := vs_growCount s + 1, vs_addresses := nA,
      vs_entries := nE, vs_dirtyIndices := ds, vs_mask := mask (Suc k)\<rparr>)"
    unfolding Grow_def Let_def cap of_nat_pow2_minus g(1) by simp
  moreover have "map_of (zip nA nE) x = map_of (zip ?A ?E) x" if "x \<noteq> 0" for x
    using g(5) that lookup_none [of x "replicate (2 ^ Suc k) 0" "replicate (2 ^ Suc k) empty_entry"]
    by (cases "map_of (zip ?A ?E) x") (simp_all del: zip_replicate power_Suc)
  ultimately show ?thesis
    using g shape k by (auto simp: table_shape_def visited_map_def fun_eq_iff)
qed

section \<open>The constructor\<close>

lemma cap_loop_pow2:
  assumes "k \<le> m" and "m < 64" and "initialCapacity \<le> 2 ^ m"
  shows "\<exists>j. k \<le> j \<and> j \<le> m \<and> cap_loop (2 ^ k) initialCapacity = Some (2 ^ j)
          \<and> initialCapacity \<le> 2 ^ j"
  using assms
proof (induction "m - k" arbitrary: k)
  case 0
  then have "\<not> (2 ^ k :: u64) < initialCapacity" by simp
  with 0 show ?case by (subst cap_loop.simps) auto
next
  case (Suc d)
  show ?case
  proof (cases "(2 ^ k :: u64) < initialCapacity")
    case True
    have "\<exists>j. Suc k \<le> j \<and> j \<le> m \<and> cap_loop (2 ^ Suc k) initialCapacity = Some (2 ^ j)
          \<and> initialCapacity \<le> 2 ^ j"
      by (rule Suc.hyps(1)) (use Suc in auto)
    moreover have "cap_loop (2 ^ k) initialCapacity = cap_loop (2 ^ Suc k) initialCapacity"
      using True by (subst cap_loop.simps) (simp add: mult.commute)
    ultimately show ?thesis by (auto intro: Suc_leD)
  next
    case False
    then show ?thesis using Suc by (subst cap_loop.simps) auto
  qed
qed

text \<open>Past the largest power of two the capacity wraps to 0 and the loop never ends.\<close>

lemma cap_loop_zero:
  assumes "0 < initialCapacity"
  shows "cap_loop 0 initialCapacity = None"
proof (rule ccontr)
  assume "cap_loop 0 initialCapacity \<noteq> None"
  then obtain r where ret: "cap_loop 0 initialCapacity = Some r" by auto
  have "\<not> ((0 :: u64) = 0 \<and> 0 < initialCapacity)"
  proof (rule cap_loop.raw_induct [where P = "\<lambda>c i r. \<not> (c = 0 \<and> 0 < i)", OF _ ret])
    fix f and c i r :: u64
    assume "\<And>c i r. f c i = Some r \<Longrightarrow> \<not> (c = 0 \<and> 0 < i)"
      and "(if c < i then f (c * 2) i else Some c) = Some r"
    then show "\<not> (c = 0 \<and> 0 < i)"
      by (cases "c < i") force+
  qed
  with assms show False by simp
qed

lemma visited_map_empty:
  "set (vs_addresses s) \<subseteq> {0} \<Longrightarrow> visited_map s = Map.empty"
  by (rule ext) (auto simp: visited_map_def intro!: lookup_none)

lemma newVisitedObjectSet_ok:
  assumes "initialCapacity \<le> 2 ^ 32"
  shows "\<exists>s. newVisitedObjectSet initialCapacity = Some s \<and> wf_visited s
           \<and> visited_map s = Map.empty \<and> unat initialCapacity \<le> GetBucketCount s
           \<and> VisitedSize s = 0 \<and> \<not> vs_needsFullClear s"
proof -
  obtain j where j: "9 \<le> j" "j \<le> 32" "cap_loop (2 ^ 9) initialCapacity = Some (2 ^ j)"
    "initialCapacity \<le> 2 ^ j"
    using cap_loop_pow2 [of 9 32 initialCapacity] assms by auto
  have u: "unat (2 ^ j :: u64) = 2 ^ j" by (rule unat_pow2) (use j in simp)
  have le: "unat initialCapacity \<le> 2 ^ j" using j(4) u by (simp add: word_le_nat_alt)
  let ?s = "\<lparr>vs_addresses = replicate (2 ^ j) 0, vs_entries = replicate (2 ^ j) empty_entry,
        vs_dirtyIndices = [], vs_count = 0, vs_peakCount = 0, vs_growCount = 0,
        vs_needsFullClear = False, vs_mask = 2 ^ j - 1 :: u64\<rparr>"
  have n: "newVisitedObjectSet initialCapacity = Some ?s"
    using j(3) u by (simp add: newVisitedObjectSet_def DefaultCapacity_def)
  have "table_shape ?s j" using j by (simp add: table_shape_def pow2_minus_one_mask)
  then have "wf_visited ?s" using table_ok_replicate by (auto simp: wf_visited_def)
  moreover have "visited_map ?s = Map.empty" by (rule visited_map_empty) auto
  ultimately show ?thesis
    using n le by (auto simp: GetBucketCount_def VisitedSize_def)
qed

section \<open>Insertion, lookup and clearing\<close>

lemma grow_if_needed_ok:
  assumes wf: "wf_visited s" and room: "has_room s"
  shows "\<exists>s' k. grow_if_needed s = Some s' \<and> table_shape s' k
     \<and> table_ok (vs_addresses s') (vs_dirtyIndices s') (vs_count s)
     \<and> vs_count s' = vs_count s \<and> visited_map s' = visited_map s
     \<and> vs_count s * 10 < length (vs_addresses s') * 7
     \<and> vs_needsFullClear s' = vs_needsFullClear s"
proof -
  obtain k where shape: "table_shape s k" using wf by (auto simp: wf_visited_def)
  then have len: "length (vs_addresses s) = 2 ^ k" and k9: "9 \<le> k" by (auto simp: table_shape_def)
  show ?thesis
  proof (cases "NeedsGrow s")
    case False
    then show ?thesis
      using wf shape by (auto simp: grow_if_needed_def NeedsGrow_def wf_visited_def)
  next
    case True
    have "(2::nat) ^ k < 2 ^ 32" using True room len by (auto simp: has_room_def)
    then have "k < 32" by (rule power_less_imp_less_exp [rotated]) simp
    then obtain s' where s': "Grow s = Some s'" "table_shape s' (Suc k)"
      "table_ok (vs_addresses s') (vs_dirtyIndices s') (vs_count s')"
      "vs_count s' = vs_count s" "visited_map s' = visited_map s"
      "vs_needsFullClear s' = vs_needsFullClear s"
      using Grow_ok [OF shape] wf by (auto simp: wf_visited_def)
    have "length (vs_addresses s') = 2 * length (vs_addresses s)"
      using s'(2) len by (simp add: table_shape_def)
    moreover have "(512::nat) \<le> length (vs_addresses s)"
      using power_increasing [OF k9, of "2::nat"] len by simp
    moreover have "vs_count s * 10 < length (vs_addresses s) * 7 + 10"
      using wf by (simp add: wf_visited_def)
    ultimately have "vs_count s * 10 < length (vs_addresses s') * 7" by linarith
    then show ?thesis using s' True by (auto simp: grow_if_needed_def)
  qed
qed

lemma present_iff:
  assumes "table_shape s k" and "table_ok (vs_addresses s) ds n" and "a \<noteq> 0"
  shows "visited_map s a = Some c \<longleftrightarrow>
           (\<exists>i<2 ^ k. vs_addresses s ! i = a \<and> classID (vs_entries s ! i) = c)"
  using assms lookup_iff [of "vs_addresses s" "vs_entries s" a]
  by (auto simp: visited_map_def table_shape_def table_ok_def)

lemma dom_visited_map:
  assumes "table_shape s k" and "table_ok (vs_addresses s) ds n"
  shows "dom (visited_map s) = set (vs_addresses s) - {0}"
proof -
  have "a \<in> dom (visited_map s) \<longleftrightarrow> a \<in> set (vs_addresses s) - {0}" for a
  proof (cases "a = 0")
    case True
    then show ?thesis by (simp add: visited_map_def domIff)
  next
    case False
    then show ?thesis
      using present_iff [OF assms False] assms(1)
      by (auto simp: dom_def in_set_conv_nth table_shape_def)
  qed
  then show ?thesis by blast
qed

text \<open>The probe of an address in a well-formed table, in terms of the abstract map.\<close>

lemma probe_find_spec:
  assumes shape: "table_shape s k" and ok: "table_ok (vs_addresses s) ds n"
    and free: "n < 2 ^ k" and a: "a \<noteq> 0"
  shows "\<exists>idx. probe_find (vs_addresses s) (vs_mask s) a (HashAddress a AND vs_mask s)
             = Some (a \<in> dom (visited_map s), idx)
           \<and> unat idx < 2 ^ k
           \<and> (a \<in> dom (visited_map s) \<longrightarrow> vs_addresses s ! unat idx = a)
           \<and> (a \<notin> dom (visited_map s) \<longrightarrow> vs_addresses s ! unat idx = 0 \<and>
                (\<exists>d<2 ^ k. unat idx = (home (2 ^ k) a + d) mod 2 ^ k \<and> probe_path (vs_addresses s) a d))"
proof -
  let ?A = "vs_addresses s"
  have len: "length ?A = 2 ^ k" and k: "k < 64" and m: "vs_mask s = mask k"
    using shape by (auto simp: table_shape_def)
  obtain e where e: "e < 2 ^ k" "?A ! e = 0"
    using empty_bucket_exists [of ?A] ok free len by (auto simp: table_ok_def)
  show ?thesis
  proof (cases "a \<in> dom (visited_map s)")
    case True
    then obtain i where i: "i < 2 ^ k" "?A ! i = a"
      using present_iff [OF shape ok a] by blast
    then show ?thesis
      using probe_find_present [OF len k _ _ e i(1,2) a] ok True m by (auto simp: table_ok_def)
  next
    case False
    then have "a \<notin> set ?A" using dom_visited_map [OF shape ok] a by blast
    then show ?thesis
      using probe_find_absent [OF len k e] False m by auto
  qed
qed

lemma wf_count_less:
  assumes "wf_visited s" and "table_shape s k"
  shows "vs_count s < 2 ^ k"
proof -
  have "(512::nat) \<le> 2 ^ k"
    using assms(2) power_increasing [of 9 k "2::nat"] by (auto simp: table_shape_def)
  then show ?thesis using assms by (auto simp: wf_visited_def table_shape_def)
qed

lemma has_room_small: "vs_count s < max_entries \<Longrightarrow> has_room s"
  by (auto simp: has_room_def NeedsGrow_def max_entries_def)

lemma insert_bucket_ok:
  assumes shape: "table_shape s k" and ok: "table_ok (vs_addresses s) (vs_dirtyIndices s) (vs_count s)"
    and load: "vs_count s * 10 < length (vs_addresses s) * 7"
    and a: "a \<noteq> 0" "a \<notin> dom (visited_map s)" and i: "unat idx < 2 ^ k" "vs_addresses s ! unat idx = 0"
    and d: "d < 2 ^ k" "unat idx = (home (2 ^ k) a + d) mod 2 ^ k" "probe_path (vs_addresses s) a d"
  shows "wf_visited (insert_bucket s idx a e) \<and> slot_of (insert_bucket s idx a e) a idx
     \<and> visited_map (insert_bucket s idx a e) = (visited_map s)(a \<mapsto> classID e)"
proof -
  let ?A = "vs_addresses s" and ?s = "insert_bucket s idx a e"
  have len: "length ?A = 2 ^ k" "length (vs_entries s) = 2 ^ k" and k: "k \<le> 32"
    using shape by (auto simp: table_shape_def)
  have na: "a \<notin> set ?A" using a dom_visited_map [OF shape ok] by blast
  have "table_ok (?A[unat idx := a]) (vs_dirtyIndices s @ [ucast idx]) (vs_count s + 1)"
    by (rule table_ok_insert [OF ok len(1) k i a(1) na d])
  moreover have "table_shape ?s k" using shape by (simp add: table_shape_def insert_bucket_def)
  ultimately have "wf_visited ?s"
    using load by (auto simp: wf_visited_def insert_bucket_def)
  moreover have "visited_map ?s = (visited_map s)(a \<mapsto> classID e)"
    using lookup_insert [of ?A "vs_entries s" "unat idx" a _ e] ok len i a(1) na
    by (auto simp: visited_map_def insert_bucket_def table_ok_def fun_eq_iff)
  ultimately show ?thesis using i len by (simp add: slot_of_def insert_bucket_def)
qed

lemma slot_store_ok:
  assumes wf: "wf_visited s" and sl: "slot_of s a idx" and a: "a \<noteq> 0"
  shows "wf_visited (slot_store s idx c) \<and> slot_of (slot_store s idx c) a idx
     \<and> visited_map (slot_store s idx c) = (visited_map s)(a \<mapsto> c)"
proof -
  let ?s = "slot_store s idx c"
  obtain k where shape: "table_shape s k" and ok: "table_ok (vs_addresses s) (vs_dirtyIndices s) (vs_count s)"
    using wf by (auto simp: wf_visited_def)
  have addr: "vs_addresses ?s = vs_addresses s" by (simp add: slot_store_def)
  have shape': "table_shape ?s k" using shape by (simp add: table_shape_def slot_store_def)
  have wf': "wf_visited ?s" using wf shape' by (auto simp: wf_visited_def slot_store_def)
  have i: "unat idx < 2 ^ k" "vs_addresses s ! unat idx = a"
    using sl shape by (auto simp: slot_of_def table_shape_def)
  have ent: "vs_entries ?s ! j = (if j = unat idx then (vs_entries s ! j)\<lparr>classID := c\<rparr> else vs_entries s ! j)" for j
    using i(1) shape by (simp add: slot_store_def nth_list_update table_shape_def)
  have "visited_map ?s x = ((visited_map s)(a \<mapsto> c)) x" for x
  proof (cases "x = a")
    case True
    have "visited_map ?s a = Some c"
      unfolding present_iff [OF shape' ok [folded addr] a] addr
      by (rule exI [of _ "unat idx"]) (use i ent in simp)
    then show ?thesis using True by simp
  next
    case False
    have "map_of (zip (vs_addresses ?s) (vs_entries ?s)) x = map_of (zip (vs_addresses s) (vs_entries s)) x" if "x \<noteq> 0"
    proof -
      have "map_of (zip (vs_addresses ?s) (vs_entries ?s)) x = Some y
          \<longleftrightarrow> map_of (zip (vs_addresses s) (vs_entries s)) x = Some y" for y
        using lookup_iff [of "vs_addresses s" "vs_entries ?s" x y]
          lookup_iff [of "vs_addresses s" "vs_entries s" x y] that ok shape shape' ent i(2) False
        unfolding addr table_ok_def table_shape_def by metis
      then show ?thesis by (metis option.exhaust)
    qed
    then show ?thesis using False by (simp add: visited_map_def)
  qed
  then show ?thesis using wf' sl by (auto simp: slot_of_def slot_store_def)
qed

lemma slot_class_ok:
  assumes "wf_visited s" and "slot_of s a idx" and "a \<noteq> 0"
  shows "visited_map s a = Some (slot_class s idx)"
proof -
  obtain k where "table_shape s k" "table_ok (vs_addresses s) (vs_dirtyIndices s) (vs_count s)"
    using assms(1) by (auto simp: wf_visited_def)
  then show ?thesis
    using assms present_iff [of s k _ _ a "slot_class s idx"]
    by (auto simp: slot_of_def slot_class_def table_shape_def)
qed

lemma wf_visited_of:
  assumes "table_shape s k" and "table_ok (vs_addresses s) (vs_dirtyIndices s) n" and "n = vs_count s"
    and "n * 10 < length (vs_addresses s) * 7"
  shows "wf_visited s"
  using assms by (auto simp: wf_visited_def)

lemma VisitedSize_card:
  assumes "wf_visited s"
  shows "VisitedSize s = card (dom (visited_map s))"
proof -
  obtain k where shape: "table_shape s k" and ok: "table_ok (vs_addresses s) (vs_dirtyIndices s) (vs_count s)"
    using assms by (auto simp: wf_visited_def)
  let ?A = "vs_addresses s"
  have "dom (visited_map s) = (\<lambda>i. ?A ! i) ` used_buckets ?A"
    unfolding dom_visited_map [OF shape ok] used_buckets_def by (auto simp: in_set_conv_nth)
  moreover have "inj_on (\<lambda>i. ?A ! i) (used_buckets ?A)"
    using ok by (auto simp: inj_on_def table_ok_def unique_addresses_def used_buckets_def)
  ultimately show ?thesis
    using ok by (simp add: card_image VisitedSize_def table_ok_def)
qed

lemma TryInsert_ok:
  assumes wf: "wf_visited s" and room: "has_room s" and a: "a \<noteq> 0"
  shows "\<exists>r idx s'. TryInsert s a = Some (r, idx, s') \<and> wf_visited s' \<and> slot_of s' a idx
     \<and> (r = Inserted \<longleftrightarrow> a \<notin> dom (visited_map s))
     \<and> visited_map s' = (if a \<in> dom (visited_map s) then visited_map s else (visited_map s)(a \<mapsto> 0))"
proof -
  obtain t k where t: "grow_if_needed s = Some t" "table_shape t k"
    "table_ok (vs_addresses t) (vs_dirtyIndices t) (vs_count t)"
    "visited_map t = visited_map s" "vs_count t * 10 < length (vs_addresses t) * 7"
    using grow_if_needed_ok [OF wf room] by metis
  have wft: "wf_visited t" by (rule wf_visited_of [OF t(2,3) refl t(5)])
  have "vs_count t < 2 ^ k" by (rule wf_count_less [OF wft t(2)])
  then obtain idx where p: "probe_find (vs_addresses t) (vs_mask t) a (HashAddress a AND vs_mask t)
      = Some (a \<in> dom (visited_map t), idx)" "unat idx < 2 ^ k"
    "a \<in> dom (visited_map t) \<longrightarrow> vs_addresses t ! unat idx = a"
    "a \<notin> dom (visited_map t) \<longrightarrow> vs_addresses t ! unat idx = 0 \<and>
       (\<exists>d<2 ^ k. unat idx = (home (2 ^ k) a + d) mod 2 ^ k \<and> probe_path (vs_addresses t) a d)"
    using probe_find_spec [OF t(2,3) _ a] by metis
  show ?thesis
  proof (cases "a \<in> dom (visited_map t)")
    case True
    then have "TryInsert s a = Some (AlreadyPresent, idx, t)"
      using t(1) p(1) by (simp add: TryInsert_def)
    moreover have "slot_of t a idx" using True p t(2) by (simp add: slot_of_def table_shape_def)
    ultimately show ?thesis using True wft t(4) by auto
  next
    case False
    then have "TryInsert s a = Some (Inserted, idx, insert_bucket t idx a empty_entry)"
      using t(1) p(1) by (simp add: TryInsert_def)
    then show ?thesis
      using insert_bucket_ok [OF t(2,3,5) a False p(2)] p(4) False t(4)
      by (auto simp: empty_entry_def)
  qed
qed

lemma MarkVisitedAndStore_ok:
  assumes wf: "wf_visited s" and room: "has_room s" and a: "a \<noteq> 0"
  shows "\<exists>s'. MarkVisitedAndStore s a c = Some s' \<and> wf_visited s'
     \<and> visited_map s' = (visited_map s)(a \<mapsto> c)"
proof -
  obtain t k where t: "grow_if_needed s = Some t" "table_shape t k"
    "table_ok (vs_addresses t) (vs_dirtyIndices t) (vs_count t)"
    "visited_map t = visited_map s" "vs_count t * 10 < length (vs_addresses t) * 7"
    using grow_if_needed_ok [OF wf room] by metis
  have wft: "wf_visited t" by (rule wf_visited_of [OF t(2,3) refl t(5)])
  have "vs_count t < 2 ^ k" by (rule wf_count_less [OF wft t(2)])
  then obtain idx where f: "probe_find (vs_addresses t) (vs_mask t) a (HashAddress a AND vs_mask t)
      = Some (a \<in> dom (visited_map t), idx)" "unat idx < 2 ^ k"
    "a \<in> dom (visited_map t) \<longrightarrow> vs_addresses t ! unat idx = a"
    "a \<notin> dom (visited_map t) \<longrightarrow> vs_addresses t ! unat idx = 0 \<and>
       (\<exists>d<2 ^ k. unat idx = (home (2 ^ k) a + d) mod 2 ^ k \<and> probe_path (vs_addresses t) a d)"
    using probe_find_spec [OF t(2,3) _ a] by metis
  note p = probe_mark_eq_probe_find [OF a f(1)]
  show ?thesis
  proof (cases "a \<in> dom (visited_map t)")
    case True
    then have "MarkVisitedAndStore s a c = Some (slot_store t idx c)"
      using t(1) p by (simp add: MarkVisitedAndStore_def)
    moreover have "slot_of t a idx" using True f t(2) by (simp add: slot_of_def table_shape_def)
    ultimately show ?thesis using slot_store_ok [OF wft _ a] t(4) by auto
  next
    case False
    then have "MarkVisitedAndStore s a c =
        Some (insert_bucket t idx a ((vs_entries t ! unat idx)\<lparr>classID := c\<rparr>))"
      using t(1) p by (simp add: MarkVisitedAndStore_def)
    then show ?thesis
      using insert_bucket_ok [OF t(2,3,5) a False f(2)] f(4) False t(4) by auto
  qed
qed

lemma zero_buckets_length [simp]: "length (zero_buckets ds A) = length A"
  by (induction ds A rule: zero_buckets.induct) auto

lemma zero_buckets_nth:
  "i < length A \<Longrightarrow> zero_buckets ds A ! i = (if i \<in> unat ` set ds then 0 else A ! i)"
  by (induction ds A rule: zero_buckets.induct) (auto simp: nth_list_update)

lemma zero_buckets_used:
  assumes "used_buckets A \<subseteq> unat ` set ds"
  shows "zero_buckets ds A = replicate (length A) 0"
  by (rule nth_equalityI) (use assms in \<open>auto simp: zero_buckets_nth used_buckets_def\<close>)

lemma ClearVisited_ok:
  assumes shape: "table_shape s k"
    and dirty: "\<not> vs_needsFullClear s \<Longrightarrow> used_buckets (vs_addresses s) \<subseteq> unat ` set (vs_dirtyIndices s)"
  shows "wf_visited (ClearVisited s) \<and> visited_map (ClearVisited s) = Map.empty
     \<and> VisitedSize (ClearVisited s) = 0 \<and> GetBucketCount (ClearVisited s) = GetBucketCount s
     \<and> GetPeakEntryCount (ClearVisited s) = GetPeakEntryCount s
     \<and> \<not> vs_needsFullClear (ClearVisited s)"
proof -
  have A: "vs_addresses (ClearVisited s) = replicate (length (vs_addresses s)) 0"
    using dirty zero_buckets_used by (simp add: ClearVisited_def)
  have "table_shape (ClearVisited s) k"
    using shape A by (simp add: table_shape_def ClearVisited_def)
  moreover have "table_ok (vs_addresses (ClearVisited s)) (vs_dirtyIndices (ClearVisited s))
      (vs_count (ClearVisited s))"
    unfolding A using table_ok_replicate by (simp add: ClearVisited_def)
  moreover have "vs_count (ClearVisited s) = 0" by (simp add: ClearVisited_def)
  moreover have "0 < length (vs_addresses s)" using shape by (simp add: table_shape_def)
  moreover have "visited_map (ClearVisited s) = Map.empty"
    by (rule visited_map_empty) (use A in auto)
  ultimately show ?thesis
    using A by (auto simp: wf_visited_def VisitedSize_def GetBucketCount_def GetPeakEntryCount_def
        ClearVisited_def max_def)
qed

section \<open>The interface of the traversal\<close>

text \<open>
  What the reference-chain traversal relies on: an insertion reports whether the object is new and
  hands out the slot of the object, and a slot can be given its class.
\<close>

locale visited_objects =
  fixes invar :: "'s \<Rightarrow> bool"
    and contents :: "'s \<Rightarrow> uintptr \<rightharpoonup> ClassID"
    and try_insert :: "'s \<Rightarrow> uintptr \<Rightarrow> (InsertResult \<times> 'i \<times> 's) option"
    and slot :: "'s \<Rightarrow> uintptr \<Rightarrow> 'i \<Rightarrow> bool"
    and store :: "'s \<Rightarrow> 'i \<Rightarrow> ClassID \<Rightarrow> 's"
    and limit :: nat
  assumes finite_contents: "invar s \<Longrightarrow> finite (dom (contents s))"
    and try_insert: "invar s \<Longrightarrow> card (dom (contents s)) < limit \<Longrightarrow> a \<noteq> 0 \<Longrightarrow>
      \<exists>r i s'. try_insert s a = Some (r, i, s') \<and> invar s' \<and> slot s' a i
        \<and> (r = Inserted \<longleftrightarrow> a \<notin> dom (contents s))
        \<and> contents s' = (if a \<in> dom (contents s) then contents s else (contents s)(a \<mapsto> 0))"
    and store: "invar s \<Longrightarrow> slot s a i \<Longrightarrow> a \<noteq> 0 \<Longrightarrow>
      invar (store s i c) \<and> contents (store s i c) = (contents s)(a \<mapsto> c)"
begin

lemma insert_card:
  assumes "invar s" and "contents s' = (if a \<in> dom (contents s) then contents s else (contents s)(a \<mapsto> 0))"
  shows "dom (contents s') = insert a (dom (contents s))"
    and "card (dom (contents s')) \<le> Suc (card (dom (contents s)))"
  using assms finite_contents [OF assms(1)] by (auto simp: insert_absorb card_insert_if)

lemma visit_all_once:
  assumes "invar s" and "card (dom (contents s)) + length as \<le> limit" and "\<forall>a \<in> set as. a \<noteq> 0"
  shows "\<exists>rs s'. visit_all try_insert s as = Some (rs, s') \<and> invar s'
     \<and> dom (contents s') = dom (contents s) \<union> set as
     \<and> length (filter (\<lambda>r. r = Inserted) rs) = card (set as - dom (contents s))"
  using assms
proof (induction as arbitrary: s)
  case Nil
  then show ?case by simp
next
  case (Cons a as)
  then obtain r i s' where r: "try_insert s a = Some (r, i, s')" "invar s'"
    "r = Inserted \<longleftrightarrow> a \<notin> dom (contents s)"
    and c: "contents s' = (if a \<in> dom (contents s) then contents s else (contents s)(a \<mapsto> 0))"
    using try_insert [of s a] by auto
  note dom' = insert_card [OF Cons.prems(1) c]
  obtain rs s'' where rs: "visit_all try_insert s' as = Some (rs, s'')" "invar s''"
    "dom (contents s'') = dom (contents s') \<union> set as"
    "length (filter (\<lambda>r. r = Inserted) rs) = card (set as - dom (contents s'))"
    using Cons.IH [OF r(2)] dom'(2) Cons.prems by auto
  have "card (set (a # as) - dom (contents s)) =
      (if a \<in> dom (contents s) then 0 else 1) + card (set as - dom (contents s'))"
  proof (cases "a \<in> dom (contents s)")
    case True
    then show ?thesis using dom'(1) by (simp add: insert_absorb)
  next
    case False
    then have "set (a # as) - dom (contents s) = insert a (set as - dom (contents s'))"
      using dom'(1) by auto
    then show ?thesis using False dom'(1) by simp
  qed
  then show ?case using r rs dom'(1) by auto
qed

end

lemma visited_map_finite: "finite (dom (visited_map s))"
proof (rule finite_subset)
  show "dom (visited_map s) \<subseteq> set (vs_addresses s)"
    by (auto simp: visited_map_def dest!: map_of_SomeD set_zip_leftD split: if_splits)
qed simp

interpretation vset: visited_objects wf_visited visited_map TryInsert slot_of slot_store max_entries
proof unfold_locales
  fix s and a :: uintptr
  assume "wf_visited s" and "card (dom (visited_map s)) < max_entries" and "a \<noteq> 0"
  moreover from this have "has_room s"
    using VisitedSize_card [of s] has_room_small by (simp add: VisitedSize_def)
  ultimately show "\<exists>r i s'. TryInsert s a = Some (r, i, s') \<and> wf_visited s' \<and> slot_of s' a i
        \<and> (r = Inserted \<longleftrightarrow> a \<notin> dom (visited_map s))
        \<and> visited_map s' = (if a \<in> dom (visited_map s) then visited_map s else (visited_map s)(a \<mapsto> 0))"
    using TryInsert_ok by blast
qed (simp_all add: visited_map_finite slot_store_ok)

section \<open>Properties\<close>

text \<open>
  The constructor returns a well-formed empty table, of at least the requested capacity,
  for every requested capacity of up to \<open>2 ^ 32\<close> buckets.
\<close>

lemma newVisitedObjectSet_correct:
  assumes "initialCapacity \<le> 2 ^ 32"
  shows "\<exists>s. newVisitedObjectSet initialCapacity = Some s \<and> wf_visited s
           \<and> visited_map s = Map.empty \<and> unat initialCapacity \<le> GetBucketCount s
           \<and> VisitedSize s = 0 \<and> \<not> vs_needsFullClear s"
  by (rule newVisitedObjectSet_ok [OF assms])

text \<open>
  C8. \<open>TryInsert\<close> always returns on a well-formed table: it reports \<open>Inserted\<close> exactly for a
  new address, adds that address with class 0 and keeps every other entry (also when it grows the
  table), keeps the table well formed, and the slot it returns is the one of the address.
\<close>

theorem TryInsert_correct:
  assumes "wf_visited s" and "vs_count s < max_entries" and "address \<noteq> 0"
  shows "\<exists>r idx s'. TryInsert s address = Some (r, idx, s') \<and> wf_visited s' \<and> slot_of s' address idx
     \<and> (r = Inserted \<longleftrightarrow> address \<notin> dom (visited_map s))
     \<and> visited_map s' = (if address \<in> dom (visited_map s) then visited_map s
                          else (visited_map s)(address \<mapsto> 0))"
  by (rule TryInsert_ok [OF assms(1) has_room_small [OF assms(2)] assms(3)])

theorem TryInsert_correct_witness:
  "\<exists>s. newVisitedObjectSet 0 = Some s \<and> (\<exists>r idx s'. TryInsert s 0x10008 = Some (r, idx, s')
     \<and> wf_visited s' \<and> r = Inserted \<and> visited_map s' = [0x10008 \<mapsto> 0])"
proof -
  obtain s where s: "newVisitedObjectSet 0 = Some s" "wf_visited s" "visited_map s = Map.empty"
    "VisitedSize s = 0"
    using newVisitedObjectSet_ok [of 0] by auto
  have "vs_count s < max_entries" using s(4) by (simp add: VisitedSize_def max_entries_def)
  then show ?thesis using TryInsert_correct [OF s(2), of "0x10008"] s by auto
qed

text \<open>
  C26. A run of insertions reports \<open>Inserted\<close> once for each distinct address that was not visited
  before, whatever the order and the repetitions: every object of a root is scanned once.
\<close>

theorem visit_once:
  assumes "wf_visited s" and "card (dom (visited_map s)) + length as \<le> max_entries"
    and "\<forall>a \<in> set as. a \<noteq> 0"
  shows "\<exists>rs s'. visit_all TryInsert s as = Some (rs, s') \<and> wf_visited s'
     \<and> dom (visited_map s') = dom (visited_map s) \<union> set as
     \<and> length (filter (\<lambda>r. r = Inserted) rs) = card (set as - dom (visited_map s))"
  by (rule vset.visit_all_once [OF assms])

theorem visit_once_witness:
  "\<exists>s. newVisitedObjectSet 0 = Some s \<and> (\<exists>rs s'. visit_all TryInsert s [8, 16, 8] = Some (rs, s')
     \<and> length (filter (\<lambda>r. r = Inserted) rs) = 2)"
proof -
  obtain s where s: "newVisitedObjectSet 0 = Some s" "wf_visited s" "visited_map s = Map.empty"
    using newVisitedObjectSet_ok [of 0] by auto
  have "card (set [8, 16, 8 :: uintptr]) = 2" by (simp add: card_insert_if)
  then show ?thesis using visit_once [OF s(2), of "[8, 16, 8]"] s by (auto simp: max_entries_def)
qed

text \<open>
  \<open>MarkVisitedAndStore\<close> returns and is an update of the abstract map, whether or not the
  address was there.
\<close>

lemma MarkVisitedAndStore_correct:
  assumes "wf_visited s" and "vs_count s < max_entries" and "address \<noteq> 0"
  shows "\<exists>s'. MarkVisitedAndStore s address c = Some s' \<and> wf_visited s'
     \<and> visited_map s' = (visited_map s)(address \<mapsto> c)"
  by (rule MarkVisitedAndStore_ok [OF assms(1) has_room_small [OF assms(2)] assms(3)])

text \<open>
  The lookups return on every well-formed table and agree with the abstract map:
  \<open>IsVisited\<close> is membership, \<open>GetClassID\<close> is the stored class, and \<open>StoreClassID\<close> changes the class
  of a visited address and nothing else.
\<close>

lemma lookups_correct:
  assumes "wf_visited s" and "address \<noteq> 0"
  shows "IsVisited s address = Some (address \<in> dom (visited_map s))
     \<and> GetClassID s address = Some (visited_map s address)
     \<and> (\<exists>s'. StoreClassID s address c = Some s' \<and> wf_visited s'
          \<and> visited_map s' = (if address \<in> dom (visited_map s) then (visited_map s)(address \<mapsto> c)
                               else visited_map s))"
proof -
  obtain k where k: "table_shape s k" "table_ok (vs_addresses s) (vs_dirtyIndices s) (vs_count s)"
    using assms(1) by (auto simp: wf_visited_def)
  obtain idx where p: "probe_find (vs_addresses s) (vs_mask s) address (HashAddress address AND vs_mask s)
      = Some (address \<in> dom (visited_map s), idx)" "unat idx < 2 ^ k"
    "address \<in> dom (visited_map s) \<longrightarrow> vs_addresses s ! unat idx = address"
    using probe_find_spec [OF k wf_count_less [OF assms(1) k(1)] assms(2)] by metis
  show ?thesis
  proof (cases "address \<in> dom (visited_map s)")
    case True
    then have "slot_of s address idx" using p k(1) by (simp add: slot_of_def table_shape_def)
    then show ?thesis
      using True p(1) slot_class_ok [OF assms(1) _ assms(2)] slot_store_ok [OF assms(1) _ assms(2)]
      by (auto simp: IsVisited_def GetClassID_def StoreClassID_def slot_class_def)
  next
    case False
    then show ?thesis
      using p(1) assms(1) by (auto simp: IsVisited_def GetClassID_def StoreClassID_def domIff)
  qed
qed

text \<open>
  C23. \<open>Clear\<close> empties the table although it only zeroes the recorded buckets; after a memory
  fault that interrupted an insertion, which leaves an address whose bucket was not recorded, the
  call of \<open>MarkPossiblyInconsistent\<close> makes the next \<open>Clear\<close> empty the table all the same.
\<close>

theorem Clear_correct:
  assumes "wf_visited s"
  shows "visited_map (ClearVisited s) = Map.empty \<and> wf_visited (ClearVisited s)
     \<and> visited_map (ClearVisited (MarkPossiblyInconsistent (interrupted_insert s idx a))) = Map.empty
     \<and> wf_visited (ClearVisited (MarkPossiblyInconsistent (interrupted_insert s idx a)))
     \<and> \<not> vs_needsFullClear (ClearVisited (MarkPossiblyInconsistent (interrupted_insert s idx a)))
     \<and> GetPeakEntryCount (ClearVisited s) = GetPeakEntryCount s"
proof -
  obtain k where k: "table_shape s k" "table_ok (vs_addresses s) (vs_dirtyIndices s) (vs_count s)"
    using assms by (auto simp: wf_visited_def)
  have "table_shape (MarkPossiblyInconsistent (interrupted_insert s idx a)) k"
    using k(1) by (simp add: table_shape_def MarkPossiblyInconsistent_def interrupted_insert_def)
  from ClearVisited_ok [OF this] ClearVisited_ok [OF k(1)] k(2) show ?thesis
    by (auto simp: table_ok_def MarkPossiblyInconsistent_def)
qed

theorem Clear_correct_witness:
  "\<exists>s. newVisitedObjectSet 0 = Some s
     \<and> visited_map (ClearVisited (MarkPossiblyInconsistent (interrupted_insert s 3 0x10008))) = Map.empty"
proof -
  obtain s where s: "newVisitedObjectSet 0 = Some s" "wf_visited s"
    using newVisitedObjectSet_ok [of 0] by auto
  then show ?thesis using Clear_correct [OF s(2), of 3 "0x10008"] by auto
qed

end
