(* ===== verification/Traverser.thy ===== *)
theory Traverser
  imports VTCache RefTree VisitedSet
begin

unbundle bit_operations_syntax

text \<open>
  The traversal of the object graph from one root (\<open>ReferenceChainTraverser.cpp\<close>): it composes the
  fault guard, the GC descriptor reader, the visited set, the inline value type cache and the type
  reference tree. The answers of the profiling interface are functions in a record; a call can abort
  with a fault or an exception, and \<open>Inr None\<close> is a failed call, which leaves its output variable as it
  was. A \<open>TypeTreeNode*\<close> is the key of a root and a path of types below it. The traversal stack is a
  list with its top first. Durations and the capacity of the stack are not part of the state.
\<close>

section \<open>Model\<close>

record ProfilerInfo =
  pi_IsArrayClass :: "ClassID \<Rightarrow> abort + (u32 \<times> ClassID \<times> u32) option"
  pi_GetClassLayout :: "ClassID \<Rightarrow> abort + u32 option"
  pi_GetArrayObjectInfo :: "u64 \<Rightarrow> u32 \<Rightarrow> abort + (nat \<Rightarrow> u32) option"
  pi_GetClassFromObject :: "u64 \<Rightarrow> abort + ClassID option"
  pi_GetObjectSize2 :: "u64 \<Rightarrow> abort + u64 option"

definition ELEMENT_TYPE_VALUETYPE :: u32 where
  "ELEMENT_TYPE_VALUETYPE = 0x11"

datatype TraversalStopReason = NoStop | FaultBudgetExhausted | UnexpectedException | FaultGuardUnavailable

type_synonym node_ptr = "RootKey \<times> ClassID list"

record TraversalFrame =
  fr_objectAddress :: u64
  fr_treeNode :: node_ptr
  fr_depth :: u32
  fr_classID :: ClassID
  fr_objectSize :: u64

record RootInfo =
  ri_address :: u64
  ri_category :: RootCategory
  ri_classID :: ClassID
  ri_objectSize :: u64
  ri_fieldName :: "u16 list option"

record ReferenceChainTraverser =
  rt_tree :: TypeReferenceTree
  rt_inlineVTCache :: InlineVTCache
  rt_visited :: VisitedObjectSet
  rt_traversalStack :: "TraversalFrame list"
  rt_objectsTraversed :: u64
  rt_rootsProcessed :: u64
  rt_rootCategoryCounts :: "RootCategory \<Rightarrow> u64"
  rt_gcDescTrusted :: bool
  rt_selfTest :: SelfTestResult
  rt_selfTestObjectsChecked :: u32
  rt_selfTestFailedClassID :: ClassID
  rt_selfTestFailureLogged :: bool
  rt_faultCount :: u32
  rt_stopReason :: TraversalStopReason

definition MaxSelfTestObjects :: u32 where
  "MaxSelfTestObjects = 8"

definition MaxFaultsPerDump :: u32 where
  "MaxFaultsPerDump = 16"

definition newReferenceChainTraverser :: "TypeReferenceTree \<Rightarrow> InlineVTCache \<Rightarrow> u64 \<Rightarrow> ReferenceChainTraverser option" where
  "newReferenceChainTraverser tree inlineVTCache visitedSetInitialCapacity =
     map_option (\<lambda>visited. \<lparr>rt_tree = tree, rt_inlineVTCache = inlineVTCache, rt_visited = visited, rt_traversalStack = [],
       rt_objectsTraversed = 0, rt_rootsProcessed = 0, rt_rootCategoryCounts = (\<lambda>_. 0), rt_gcDescTrusted = True,
       rt_selfTest = Pending, rt_selfTestObjectsChecked = 0, rt_selfTestFailedClassID = 0, rt_selfTestFailureLogged = False,
       rt_faultCount = 0, rt_stopReason = NoStop\<rparr>) (newVisitedObjectSet visitedSetInitialCapacity)"

definition IsValidObjectAddress :: "u64 \<Rightarrow> bool" where
  "IsValidObjectAddress address \<longleftrightarrow> \<not> (address = 0 \<or> address < 0x10000) \<and> address mod 8 = 0"

text \<open>The components inside the state of the traverser: a node of the tree, the cache, the visited set.\<close>

definition on_node :: "node_ptr \<Rightarrow> (TypeTreeNode \<Rightarrow> TypeTreeNode) \<Rightarrow> TypeReferenceTree \<Rightarrow> TypeReferenceTree" where
  "on_node node f = update_root (fst node) (\<lambda>r. r\<lparr>rn_node := update_at (snd node) f (rn_node r)\<rparr>)"

definition node_GetOrCreateChild :: "node_ptr \<Rightarrow> ClassID \<Rightarrow> (ReferenceChainTraverser, node_ptr) act" where
  "node_GetOrCreateChild node cls =
     bnd (upd (\<lambda>s. s\<lparr>rt_tree := on_node node (GetOrCreateChild cls) (rt_tree s)\<rparr>)) (\<lambda>_. ret (fst node, snd node @ [cls]))"

definition node_AddInstance :: "node_ptr \<Rightarrow> u64 \<Rightarrow> (ReferenceChainTraverser, unit) act" where
  "node_AddInstance node sz = upd (\<lambda>s. s\<lparr>rt_tree := on_node node (AddInstance sz) (rt_tree s)\<rparr>)"

definition cache_GetInlineVTInfo :: "memory \<Rightarrow> ClassID \<Rightarrow> (ReferenceChainTraverser, InlineVTInfo option) act" where
  "cache_GetInlineVTInfo mem cls s =
     map_option (\<lambda>(r, c). (r, s\<lparr>rt_inlineVTCache := c\<rparr>)) (GetInlineVTInfo mem cls (rt_inlineVTCache s))"

definition visited_TryInsert :: "u64 \<Rightarrow> (ReferenceChainTraverser, InsertResult \<times> u64) act" where
  "visited_TryInsert address s =
     map_option (\<lambda>(r, slot, v). (Inr (r, slot), s\<lparr>rt_visited := v\<rparr>)) (TryInsert (rt_visited s) address)"

definition visited_MarkVisitedAndStore :: "u64 \<Rightarrow> ClassID \<Rightarrow> (ReferenceChainTraverser, unit) act" where
  "visited_MarkVisitedAndStore address cls s =
     map_option (\<lambda>v. (Inr (), s\<lparr>rt_visited := v\<rparr>)) (MarkVisitedAndStore (rt_visited s) address cls)"

definition PushTraversalFrameIfScannable ::
  "memory \<Rightarrow> u64 \<Rightarrow> node_ptr \<Rightarrow> u32 \<Rightarrow> ClassID \<Rightarrow> u64 \<Rightarrow> (ReferenceChainTraverser, unit) act" where
  "PushTraversalFrameIfScannable mem objectAddress treeNode depth cls objectSize =
     bnd (call (ContainsGCPointers mem cls)) (\<lambda>containsPointers.
     if containsPointers
     then upd (\<lambda>s. s\<lparr>rt_traversalStack := \<lparr>fr_objectAddress = objectAddress, fr_treeNode = treeNode, fr_depth = depth,
            fr_classID = cls, fr_objectSize = objectSize\<rparr> # rt_traversalStack s\<rparr>)
     else ret ())"

text \<open>
  \<open>ProcessDiscoveredRef\<close>, with its two cases: a reference that is new and one that was visited. The
  callback of \<open>EnqueueValueTypeArrayChildren\<close> repeats its statements.
\<close>

definition process_new_ref ::
  "memory \<Rightarrow> ProfilerInfo \<Rightarrow> u64 \<Rightarrow> u64 \<Rightarrow> node_ptr \<Rightarrow> u32 \<Rightarrow> (ReferenceChainTraverser, bool) act" where
  "process_new_ref mem pInfo slot refAddress parentNode depth =
     bnd (call (pi_GetClassFromObject pInfo refAddress)) (\<lambda>cls.
     case cls of
       None \<Rightarrow> ret False
     | Some targetClassID \<Rightarrow>
         if targetClassID = 0 then ret False
         else bnd (call (pi_GetObjectSize2 pInfo refAddress)) (\<lambda>sz.
           case sz of
             None \<Rightarrow> ret False
           | Some targetSize \<Rightarrow>
               if targetSize = 0 then ret False
               else bnd (upd (\<lambda>s. s\<lparr>rt_visited := slot_store (rt_visited s) slot targetClassID\<rparr>)) (\<lambda>_.
                 bnd (node_GetOrCreateChild parentNode targetClassID) (\<lambda>childNode.
                 bnd (node_AddInstance childNode targetSize) (\<lambda>_.
                 bnd (PushTraversalFrameIfScannable mem refAddress childNode (depth + 1) targetClassID targetSize) (\<lambda>_.
                 ret True))))))"

definition process_known_ref :: "ProfilerInfo \<Rightarrow> u64 \<Rightarrow> u64 \<Rightarrow> node_ptr \<Rightarrow> (ReferenceChainTraverser, bool) act" where
  "process_known_ref pInfo slot refAddress parentNode =
     bnd (get (\<lambda>s. slot_class (rt_visited s) slot)) (\<lambda>cls.
     if cls \<noteq> 0 then
       bnd (call (pi_GetObjectSize2 pInfo refAddress)) (\<lambda>sz.
       bnd (node_GetOrCreateChild parentNode cls) (\<lambda>childNode.
       bnd (node_AddInstance childNode (case sz of None \<Rightarrow> 0 | Some revisitSize \<Rightarrow> revisitSize)) (\<lambda>_.
       ret False)))
     else ret False)"

definition ProcessDiscoveredRef ::
  "memory \<Rightarrow> ProfilerInfo \<Rightarrow> u64 \<Rightarrow> node_ptr \<Rightarrow> u32 \<Rightarrow> (ReferenceChainTraverser, bool) act" where
  "ProcessDiscoveredRef mem pInfo refAddress parentNode depth =
     bnd (visited_TryInsert refAddress) (\<lambda>(result, slot).
     if result = Inserted then process_new_ref mem pInfo slot refAddress parentNode depth
     else process_known_ref pInfo slot refAddress parentNode)"

text \<open>
  The number of elements of an array, \<open>None\<close> when it overflows; then \<open>EnqueueValueTypeArrayChildren\<close>,
  with its checks and the enumeration apart from the callback.
\<close>

fun total_elements :: "(nat \<Rightarrow> u32) \<Rightarrow> u64 \<Rightarrow> nat list \<Rightarrow> u64 option" where
  "total_elements dimensionSizes totalElements [] = Some totalElements"
| "total_elements dimensionSizes totalElements (d # ds) =
     (let dim = dimensionSizes d
      in if dim \<noteq> 0 \<and> totalElements > - 1 div ucast dim then None
         else total_elements dimensionSizes (totalElements * ucast dim) ds)"

definition EnumerateValueTypeArray ::
  "memory \<Rightarrow> ProfilerInfo \<Rightarrow> u64 \<Rightarrow> ClassID \<Rightarrow> 's ref_callback \<Rightarrow> ('s, unit) act" where
  "EnumerateValueTypeArray mem pInfo arrayAddress arrayClassID callback =
     bnd (call (pi_IsArrayClass pInfo arrayClassID)) (\<lambda>array.
     case array of
       None \<Rightarrow> ret ()
     | Some (elementType, elementClassID, rank) \<Rightarrow>
         if rank = 0 \<or> elementType \<noteq> ELEMENT_TYPE_VALUETYPE then ret ()
         else if elementClassID = 0 then ret ()
         else bnd (call (ContainsGCPointers mem elementClassID)) (\<lambda>containsPointers.
           if \<not> containsPointers then ret ()
           else bnd (call (pi_GetArrayObjectInfo pInfo arrayAddress rank)) (\<lambda>info.
             case info of
               None \<Rightarrow> ret ()
             | Some dimensionSizes \<Rightarrow>
                 (case total_elements dimensionSizes 1 [0..<unat rank] of
                    None \<Rightarrow> ret ()
                  | Some totalElements \<Rightarrow>
                      if totalElements = 0 then ret ()
                      else EnumerateVTArrayRefs mem arrayClassID arrayAddress totalElements callback))))"

definition EnqueueValueTypeArrayChildren ::
  "memory \<Rightarrow> ProfilerInfo \<Rightarrow> u64 \<Rightarrow> ClassID \<Rightarrow> node_ptr \<Rightarrow> u32 \<Rightarrow> (ReferenceChainTraverser, unit) act" where
  "EnqueueValueTypeArrayChildren mem pInfo arrayAddress arrayClassID currentNode depth =
     EnumerateValueTypeArray mem pInfo arrayAddress arrayClassID
       (\<lambda>slot refAddr offset.
          if refAddr = 0 \<or> \<not> IsValidObjectAddress refAddr then ret ()
          else bnd (ProcessDiscoveredRef mem pInfo refAddr currentNode depth) (\<lambda>_. ret ()))"

text \<open>
  The two recursions over the inline value types follow the cache, so they end only when the cache
  does not nest a type in itself.
\<close>

partial_function (option) AddInlineValueTypeInstances ::
  "memory \<Rightarrow> node_ptr \<Rightarrow> InlineVTInfo \<Rightarrow> (ReferenceChainTraverser, unit) act" where
  "AddInlineValueTypeInstances mem currentNode vtFields s =
     (case vtFields of
        [] \<Rightarrow> Some (Inr (), s)
      | field # vtFields1 \<Rightarrow>
          Option.bind
            (bnd (node_GetOrCreateChild currentNode (vf_classID field)) (\<lambda>vtNode.
             bnd (node_AddInstance vtNode 0) (\<lambda>_.
             cache_GetInlineVTInfo mem (vf_classID field))) s)
            (\<lambda>(r, s1). case r of
               Inl e \<Rightarrow> Some (Inl e, s1)
             | Inr nestedInfo \<Rightarrow>
                 Option.bind
                   (case nestedInfo of
                      None \<Rightarrow> Some (Inr (), s1)
                    | Some nested \<Rightarrow> AddInlineValueTypeInstances mem (fst currentNode, snd currentNode @ [vf_classID field]) nested s1)
                   (\<lambda>(r2, s2). case r2 of
                      Inl e \<Rightarrow> Some (Inl e, s2)
                    | Inr _ \<Rightarrow> AddInlineValueTypeInstances mem currentNode vtFields1 s2)))"

partial_function (option) GetInlineValueTypeOwner ::
  "memory \<Rightarrow> node_ptr \<Rightarrow> u32 \<Rightarrow> u32 \<Rightarrow> InlineVTInfo \<Rightarrow> u32 \<Rightarrow> (ReferenceChainTraverser, node_ptr \<times> u32) act" where
  "GetInlineValueTypeOwner mem currentNode depth refOffset vtFields baseOffset s =
     (case vtFields of
        [] \<Rightarrow> Some (Inr (currentNode, depth), s)
      | field # vtFields1 \<Rightarrow>
          (let vtStart = baseOffset + vf_offset field
           in if vtStart < baseOffset then GetInlineValueTypeOwner mem currentNode depth refOffset vtFields1 baseOffset s
              else if refOffset < vtStart \<or> refOffset - vtStart \<ge> vf_size field
              then GetInlineValueTypeOwner mem currentNode depth refOffset vtFields1 baseOffset s
              else Option.bind
                (bnd (node_GetOrCreateChild currentNode (vf_classID field)) (\<lambda>_.
                 cache_GetInlineVTInfo mem (vf_classID field)) s)
                (\<lambda>(r, s1). case r of
                   Inl e \<Rightarrow> Some (Inl e, s1)
                 | Inr nestedInfo \<Rightarrow>
                     (case nestedInfo of
                        None \<Rightarrow> Some (Inr ((fst currentNode, snd currentNode @ [vf_classID field]), depth + 1), s1)
                      | Some nested \<Rightarrow>
                          GetInlineValueTypeOwner mem (fst currentNode, snd currentNode @ [vf_classID field]) (depth + 1)
                            refOffset nested vtStart s1))))"

text \<open>The self-test of the first scannable objects; the result says whether the drain goes on.\<close>

definition self_test :: "memory \<Rightarrow> ProfilerInfo \<Rightarrow> ClassID \<Rightarrow> u64 \<Rightarrow> (ReferenceChainTraverser, bool) act" where
  "self_test mem pInfo cls objectSize =
     bnd (get (\<lambda>s. rt_selfTest s = Pending \<and> rt_selfTestObjectsChecked s < MaxSelfTestObjects)) (\<lambda>run.
     if \<not> run then ret True
     else bnd (upd (\<lambda>s. s\<lparr>rt_selfTestObjectsChecked := rt_selfTestObjectsChecked s + 1\<rparr>)) (\<lambda>_.
       bnd (ValidateAgainstMetadata mem
              (Some (\<lambda>c. map_sum id (\<lambda>array. array \<noteq> None) (pi_IsArrayClass pInfo c), pi_GetClassLayout pInfo)) cls objectSize) (\<lambda>result.
       case result of
         Failed \<Rightarrow> bnd (upd (\<lambda>s. s\<lparr>rt_gcDescTrusted := False, rt_selfTest := Failed, rt_selfTestFailedClassID := cls\<rparr>)) (\<lambda>_. ret False)
       | Passed \<Rightarrow> bnd (upd (\<lambda>s. s\<lparr>rt_selfTest := Passed\<rparr>)) (\<lambda>_. ret True)
       | Pending \<Rightarrow> ret True)))"

text \<open>
  One iteration of \<open>DrainTraversalStack\<close>, on a frame that has been popped: the references of the object,
  after the checks and the self-test.
\<close>

definition scan_references :: "memory \<Rightarrow> ProfilerInfo \<Rightarrow> TraversalFrame \<Rightarrow> u64 \<Rightarrow> (ReferenceChainTraverser, unit) act" where
  "scan_references mem pInfo frame seriesCount =
     (if sint seriesCount < 0
      then EnqueueValueTypeArrayChildren mem pInfo (fr_objectAddress frame) (fr_classID frame) (fr_treeNode frame) (fr_depth frame)
      else if seriesCount = 0 then ret ()
      else
        bnd (cache_GetInlineVTInfo mem (fr_classID frame)) (\<lambda>vtInfo.
        case vtInfo of
          None \<Rightarrow>
            EnumerateObjectRefs mem (fr_classID frame) (fr_objectAddress frame) (fr_objectSize frame)
              (\<lambda>slot refAddr offset.
                 if IsValidObjectAddress refAddr
                 then bnd (ProcessDiscoveredRef mem pInfo refAddr (fr_treeNode frame) (fr_depth frame)) (\<lambda>_. ret ())
                 else ret ())
        | Some vtFields \<Rightarrow>
            bnd (AddInlineValueTypeInstances mem (fr_treeNode frame) vtFields) (\<lambda>_.
            EnumerateObjectRefs mem (fr_classID frame) (fr_objectAddress frame) (fr_objectSize frame)
              (\<lambda>slot refAddr offset.
                 if \<not> IsValidObjectAddress refAddr then ret ()
                 else bnd (GetInlineValueTypeOwner mem (fr_treeNode frame) (fr_depth frame) offset vtFields 0) (\<lambda>(owner, d).
                   bnd (ProcessDiscoveredRef mem pInfo refAddr owner d) (\<lambda>_. ret ()))))))"

definition scan_frame :: "memory \<Rightarrow> ProfilerInfo \<Rightarrow> TraversalFrame \<Rightarrow> (ReferenceChainTraverser, bool) act" where
  "scan_frame mem pInfo frame =
     (if fr_depth frame > MaxTreeDepth then ret True
      else
        bnd (upd (\<lambda>s. s\<lparr>rt_objectsTraversed := rt_objectsTraversed s + 1\<rparr>)) (\<lambda>_.
        bnd (call (ContainsGCPointers mem (fr_classID frame))) (\<lambda>containsPointers.
        if \<not> containsPointers then ret True
        else
          bnd (self_test mem pInfo (fr_classID frame) (fr_objectSize frame)) (\<lambda>continue.
          if \<not> continue then ret False
          else
            bnd (call (GetSeriesCount mem (fr_classID frame))) (\<lambda>seriesCount.
            bnd (scan_references mem pInfo frame seriesCount) (\<lambda>_. ret True))))))"

partial_function (option) DrainTraversalStack :: "memory \<Rightarrow> ProfilerInfo \<Rightarrow> (ReferenceChainTraverser, unit) act" where
  "DrainTraversalStack mem pInfo s =
     (case rt_traversalStack s of
        [] \<Rightarrow> Some (Inr (), s)
      | frame # frames \<Rightarrow>
          Option.bind (scan_frame mem pInfo frame (s\<lparr>rt_traversalStack := frames\<rparr>))
            (\<lambda>(r, s1). case r of
               Inl e \<Rightarrow> Some (Inl e, s1)
             | Inr continue \<Rightarrow> if continue then DrainTraversalStack mem pInfo s1 else Some (Inr (), s1)))"

definition OnTraversalFault :: "ReferenceChainTraverser \<Rightarrow> ReferenceChainTraverser" where
  "OnTraversalFault s =
     (let s1 = s\<lparr>rt_faultCount := rt_faultCount s + 1\<rparr>;
          s2 = (if rt_faultCount s1 \<ge> MaxFaultsPerDump then s1\<lparr>rt_stopReason := FaultBudgetExhausted\<rparr> else s1)
      in s2\<lparr>rt_visited := MarkPossiblyInconsistent (rt_visited s2)\<rparr>)"

definition OnFaultGuardUnavailable :: "ReferenceChainTraverser \<Rightarrow> ReferenceChainTraverser" where
  "OnFaultGuardUnavailable s =
     s\<lparr>rt_stopReason := FaultGuardUnavailable, rt_visited := MarkPossiblyInconsistent (rt_visited s)\<rparr>"

definition OnTraversalAborted :: "ReferenceChainTraverser \<Rightarrow> ReferenceChainTraverser" where
  "OnTraversalAborted s =
     s\<lparr>rt_stopReason := UnexpectedException, rt_visited := MarkPossiblyInconsistent (rt_visited s)\<rparr>"

definition LogPendingSelfTestFailure :: "ReferenceChainTraverser \<Rightarrow> ReferenceChainTraverser" where
  "LogPendingSelfTestFailure s =
     (if rt_selfTestFailedClassID s = 0 \<or> rt_selfTestFailureLogged s then s else s\<lparr>rt_selfTestFailureLogged := True\<rparr>)"

definition RunGuarded ::
  "bool \<Rightarrow> bool \<Rightarrow> (ReferenceChainTraverser, unit) act \<Rightarrow> (GuardState \<times> ReferenceChainTraverser, bool) act" where
  "RunGuarded segv bus body =
     bnd (Run segv bus body) (\<lambda>result.
     case result of
       Completed \<Rightarrow> ret True
     | Faulted \<Rightarrow> bnd (upd (apsnd OnTraversalFault)) (\<lambda>_. ret False)
     | Unavailable \<Rightarrow> bnd (upd (apsnd OnFaultGuardUnavailable)) (\<lambda>_. ret False))"

definition SeedRoot :: "memory \<Rightarrow> RootInfo \<Rightarrow> (ReferenceChainTraverser, unit) act" where
  "SeedRoot mem root =
     bnd (upd (\<lambda>s. s\<lparr>rt_rootCategoryCounts := (rt_rootCategoryCounts s)
                       (ri_category root := rt_rootCategoryCounts s (ri_category root) + 1)\<rparr>)) (\<lambda>_.
     bnd (upd (\<lambda>s. s\<lparr>rt_tree := AddRoot (ri_classID root) (ri_category root) (ri_objectSize root) (ri_fieldName root) (rt_tree s)\<rparr>)) (\<lambda>_.
     bnd (upd (\<lambda>s. s\<lparr>rt_visited := ClearVisited (rt_visited s), rt_traversalStack := []\<rparr>)) (\<lambda>_.
     bnd (visited_MarkVisitedAndStore (ri_address root) (ri_classID root)) (\<lambda>_.
     PushTraversalFrameIfScannable mem (ri_address root) (\<lparr>rk_typeID = ri_classID root, rk_category = ri_category root\<rparr>, [])
       1 (ri_classID root) (ri_objectSize root)))))"

text \<open>The resume loop of \<open>TraverseFromSingleRootCore\<close>: it enters the drain again after a fault.\<close>

partial_function (option) resume_loop ::
  "bool \<Rightarrow> bool \<Rightarrow> memory \<Rightarrow> ProfilerInfo \<Rightarrow> (GuardState \<times> ReferenceChainTraverser, unit) act" where
  "resume_loop segv bus mem pInfo gs =
     (if rt_traversalStack (snd gs) \<noteq> [] \<and> rt_gcDescTrusted (snd gs) \<and> rt_stopReason (snd gs) = NoStop
      then Option.bind (RunGuarded segv bus (DrainTraversalStack mem pInfo) gs)
        (\<lambda>(r, gs1). case r of
           Inl e \<Rightarrow> Some (Inl e, gs1)
         | Inr _ \<Rightarrow>
             resume_loop segv bus mem pInfo
               (if rt_faultCount (snd gs1) \<noteq> rt_faultCount (snd gs) \<and> rt_objectsTraversed (snd gs1) = rt_objectsTraversed (snd gs)
                   \<and> rt_traversalStack (snd gs1) \<noteq> []
                then (fst gs1, (snd gs1)\<lparr>rt_traversalStack := tl (rt_traversalStack (snd gs1))\<rparr>) else gs1))
      else Some (Inr (), gs))"

definition TraverseFromSingleRootCore ::
  "bool \<Rightarrow> bool \<Rightarrow> memory \<Rightarrow> ProfilerInfo \<Rightarrow> RootInfo \<Rightarrow> (GuardState \<times> ReferenceChainTraverser, unit) act" where
  "TraverseFromSingleRootCore segv bus mem pInfo root =
     bnd (get (\<lambda>gs. \<not> rt_gcDescTrusted (snd gs) \<or> rt_stopReason (snd gs) \<noteq> NoStop)) (\<lambda>skip.
     if skip then ret ()
     else bnd (RunGuarded segv bus (SeedRoot mem root)) (\<lambda>seeded.
       if \<not> seeded then ret ()
       else bnd (resume_loop segv bus mem pInfo) (\<lambda>_.
         upd (apsnd (\<lambda>s. s\<lparr>rt_rootsProcessed := rt_rootsProcessed s + 1\<rparr>)))))"

text \<open>An exception is caught; a fault that the guard did not take is not.\<close>

definition TraverseFromSingleRoot ::
  "bool \<Rightarrow> bool \<Rightarrow> memory \<Rightarrow> ProfilerInfo \<Rightarrow> RootInfo \<Rightarrow> (GuardState \<times> ReferenceChainTraverser, unit) act" where
  "TraverseFromSingleRoot segv bus mem pInfo root gs =
     (case TraverseFromSingleRootCore segv bus mem pInfo root gs of
        None \<Rightarrow> None
      | Some (Inl Fault, gs1) \<Rightarrow> Some (Inl Fault, gs1)
      | Some (Inl Thrown, gs1) \<Rightarrow> Some (Inr (), apsnd (\<lambda>s. LogPendingSelfTestFailure (OnTraversalAborted s)) gs1)
      | Some (Inr _, gs1) \<Rightarrow> Some (Inr (), apsnd LogPendingSelfTestFailure gs1))"

section \<open>Enumerations as lists of calls\<close>

text \<open>
  Every enumeration calls its callback on a list of references that does not depend on the callback,
  and then returns or faults; the list is what a callback that only takes notes collects.
\<close>

fun run_calls :: "'s ref_callback \<Rightarrow> (u64 \<times> u64 \<times> u32) list \<Rightarrow> ('s, unit) act" where
  "run_calls cb [] = ret ()"
| "run_calls cb ((slot, v, off) # calls) = bnd (cb slot v off) (\<lambda>_. run_calls cb calls)"

definition note_ref :: "(u64 \<times> u64 \<times> u32) list ref_callback" where
  "note_ref slot v off = upd (\<lambda>calls. calls @ [(slot, v, off)])"

definition collected :: "((u64 \<times> u64 \<times> u32) list ref_callback \<Rightarrow> ((u64 \<times> u64 \<times> u32) list, unit) act) \<Rightarrow> (u64 \<times> u64 \<times> u32) list" where
  "collected enum = (case enum note_ref [] of None \<Rightarrow> [] | Some (_, calls) \<Rightarrow> calls)"

definition calls_as :: "(('s, 'a) act) \<Rightarrow> 's ref_callback \<Rightarrow> ((u64 \<times> u64 \<times> u32) list, 'a) act
    \<Rightarrow> (u64 \<times> u64 \<times> u32) list \<Rightarrow> abort + 'a \<Rightarrow> bool" where
  "calls_as m cb notes calls r \<longleftrightarrow>
     m = bnd (run_calls cb calls) (\<lambda>_. call r) \<and> (\<forall>acc. notes acc = Some (r, acc @ calls))"

lemma run_calls_append: "run_calls cb (xs @ ys) = bnd (run_calls cb xs) (\<lambda>_. run_calls cb ys)"
  by (induction xs) (auto simp: bnd_assoc bnd_ret)

lemma calls_as_call: "calls_as (call r) cb (call r) [] r"
  by (auto simp: calls_as_def call_def)

lemma calls_as_ret: "calls_as (ret a) cb (ret a) [] (Inr a)"
  by (auto simp: calls_as_def bnd_ret call_def ret_def)

lemma calls_as_callback: "calls_as (cb slot v off) cb (note_ref slot v off) [(slot, v, off)] (Inr ())"
  by (auto simp: calls_as_def bnd_def ret_def call_def note_ref_def upd_def fun_eq_iff split: option.splits sum.splits)

lemma calls_as_bnd_Inl:
  assumes "calls_as m cb n calls (Inl e)"
  shows "calls_as (bnd m f) cb (bnd n g) calls (Inl e)"
  using assms by (auto simp: calls_as_def bnd_def call_def fun_eq_iff split: option.splits sum.splits)

lemma calls_as_bnd_Inr:
  assumes "calls_as m cb n calls (Inr a)" and "calls_as (f a) cb (g a) calls' r"
  shows "calls_as (bnd m f) cb (bnd n g) (calls @ calls') r"
  using assms by (auto simp: calls_as_def bnd_assoc run_calls_append bnd_call) (auto simp: bnd_def)

text \<open>The composition rule with the lists hidden.\<close>

definition noted :: "(('s, 'a) act) \<Rightarrow> 's ref_callback \<Rightarrow> ((u64 \<times> u64 \<times> u32) list, 'a) act \<Rightarrow> bool" where
  "noted m cb n \<longleftrightarrow> (\<exists>calls r. calls_as m cb n calls r)"

lemma noted_bnd:
  assumes "noted m cb n" and "\<And>a. noted (f a) cb (g a)"
  shows "noted (bnd m f) cb (bnd n g)"
proof -
  obtain calls r where m: "calls_as m cb n calls r" using assms(1) by (auto simp: noted_def)
  show ?thesis
  proof (cases r)
    case (Inl e)
    then show ?thesis using calls_as_bnd_Inl [of m cb n calls e f g] m by (auto simp: noted_def)
  next
    case (Inr a)
    obtain calls' r' where "calls_as (f a) cb (g a) calls' r'" using assms(2) [of a] by (auto simp: noted_def)
    then show ?thesis using calls_as_bnd_Inr [of m cb n calls a f g calls' r'] m Inr by (auto simp: noted_def)
  qed
qed

lemma noted_base: "noted (ret a) cb (ret a)" "noted (call r) cb (call r)" "noted (cb slot v off) cb (note_ref slot v off)"
  using calls_as_ret [of a cb] calls_as_call [of r cb] calls_as_callback [of cb slot v off] by (auto simp: noted_def)

lemma noted_if: "noted m cb n \<Longrightarrow> noted m' cb n' \<Longrightarrow> noted (if b then m else m') cb (if b then n else n')"
  by simp

lemma noted_slot_loop: "noted (slot_loop mem cb a off j n) cb (slot_loop mem note_ref a off j n)"
  by (induction n arbitrary: j) (auto intro!: noted_bnd noted_base)

lemma noted_series_loop: "noted (series_loop mem cb cls obj sz i n) cb (series_loop mem note_ref cls obj sz i n)"
  by (induction n arbitrary: i)
    (auto simp: enumerate_series_def Let_def intro!: noted_bnd noted_base noted_slot_loop)

lemma noted_ptr_loop: "noted (ptr_loop mem cb arr cur n) cb (ptr_loop mem note_ref arr cur n)"
  by (induction n arbitrary: cur) (auto intro!: noted_bnd noted_base)

lemma noted_item_loop: "noted (item_loop mem cb cls arr cur v n) cb (item_loop mem note_ref cls arr cur v n)"
  by (induction n arbitrary: cur v) (auto intro!: noted_bnd noted_base noted_ptr_loop)

lemma noted_elem_loop: "noted (elem_loop mem cb cls arr k cur n) cb (elem_loop mem note_ref cls arr k cur n)"
  by (induction n arbitrary: cur) (auto intro!: noted_bnd noted_base noted_item_loop)

lemma noted_EnumerateObjectRefs: "noted (EnumerateObjectRefs mem cls obj sz cb) cb (EnumerateObjectRefs mem cls obj sz note_ref)"
  by (auto simp: EnumerateObjectRefs_def intro!: noted_bnd noted_base noted_series_loop)

lemma noted_EnumerateValueTypeArray:
  "noted (EnumerateValueTypeArray mem pInfo arr cls cb) cb (EnumerateValueTypeArray mem pInfo arr cls note_ref)"
  by (auto simp: EnumerateValueTypeArray_def EnumerateVTArrayRefs_def Let_def
      intro!: noted_bnd noted_base noted_elem_loop split: option.split prod.split)

lemma hoare_run_calls:
  assumes "\<And>slot v off X. (slot, v, off) \<in> set calls \<Longrightarrow> hoare (I X) (cb slot v off) (\<lambda>_. I (insert v X)) E"
  shows "hoare (I X) (run_calls cb calls) (\<lambda>_. I (X \<union> (\<lambda>c. fst (snd c)) ` set calls)) E"
  using assms
proof (induction calls arbitrary: X)
  case (Cons c calls)
  obtain slot v off where c: "c = (slot, v, off)" by (cases c)
  have "hoare (I X) (cb slot v off) (\<lambda>_. I (insert v X)) E" using Cons.prems c by simp
  moreover have "hoare (I (insert v X)) (run_calls cb calls) (\<lambda>_. I (insert v X \<union> (\<lambda>c. fst (snd c)) ` set calls)) E"
    by (rule Cons.IH) (use Cons.prems in auto)
  ultimately show ?case using c by (auto intro: hoare_bnd)
qed (simp add: hoare_ret)

text \<open>An invariant over the references that have been passed to the callback.\<close>

lemma hoare_noted:
  assumes "noted (e cb) cb (e' note_ref)"
    and "\<And>slot v off X. v \<in> (\<lambda>c. fst (snd c)) ` set (collected e') \<Longrightarrow> hoare (I X) (cb slot v off) (\<lambda>_. I (insert v X)) E"
    and "\<And>x s. I ((\<lambda>c. fst (snd c)) ` set (collected e')) s \<Longrightarrow> E x s"
  shows "hoare (I {}) (e cb) (\<lambda>_. I ((\<lambda>c. fst (snd c)) ` set (collected e'))) E"
proof -
  obtain calls r where c: "e cb = bnd (run_calls cb calls) (\<lambda>_. call r)" "\<And>acc. e' note_ref acc = Some (r, acc @ calls)"
    using assms(1) by (auto simp: noted_def calls_as_def)
  have col: "collected e' = calls" using c(2) [of "[]"] by (simp add: collected_def)
  have "hoare (I {}) (run_calls cb calls) (\<lambda>_. I ({} \<union> (\<lambda>c. fst (snd c)) ` set calls)) E"
    by (rule hoare_run_calls) (use assms(2) col in force)
  then show ?thesis unfolding c(1) col using assms(3) col by (auto intro!: hoare_bnd hoare_call)
qed

section \<open>Pointers into the tree stay valid\<close>

definition valid_ptr :: "TypeReferenceTree \<Rightarrow> node_ptr \<Rightarrow> bool" where
  "valid_ptr tree node \<longleftrightarrow> (\<exists>r n. map_of tree (fst node) = Some r \<and> node_at (snd node) (rn_node r) = Some n)"

definition grows :: "(TypeTreeNode \<Rightarrow> TypeTreeNode) \<Rightarrow> bool" where
  "grows f \<longleftrightarrow> (\<forall>p n. node_at p n \<noteq> None \<longrightarrow> node_at p (f n) \<noteq> None)"

lemma growsI: "(\<And>t n c. GetChild t n = Some c \<Longrightarrow> GetChild t (f n) = Some c) \<Longrightarrow> grows f"
  unfolding grows_def
proof (intro allI impI)
  fix p n assume f: "\<And>t n c. GetChild t n = Some c \<Longrightarrow> GetChild t (f n) = Some c" and n: "node_at p n \<noteq> None"
  show "node_at p (f n) \<noteq> None"
  proof (cases p)
    case (Cons t p')
    then obtain c where "GetChild t n = Some c" using n by (auto split: option.splits)
    then show ?thesis using f [of t n c] n Cons by simp
  qed simp
qed

lemma grows_AddInstance: "grows (AddInstance sz)"
  by (rule growsI) (simp add: GetChild_def)

lemma grows_GetOrCreateChild: "grows (GetOrCreateChild t)"
  by (rule growsI) (auto simp: GetChild_GetOrCreateChild)

lemma grows_update_at: "grows f \<Longrightarrow> grows (update_at q f)"
proof (induction q)
  case Nil
  then show ?case by (auto simp: grows_def)
next
  case (Cons t q)
  show ?case unfolding grows_def
  proof (intro allI impI)
    fix p n assume n: "node_at p n \<noteq> None"
    show "node_at p (update_at (t # q) f n) \<noteq> None"
    proof (cases p)
      case p: (Cons u p')
      then obtain c where c: "GetChild u n = Some c" "node_at p' c \<noteq> None" using n by (auto split: option.splits)
      then have "node_at p' (update_at q f c) \<noteq> None" using Cons by (auto simp: grows_def)
      then show ?thesis using c p by (auto simp: GetChild_update_at)
    qed simp
  qed
qed

lemma valid_ptr_on_node: "grows f \<Longrightarrow> valid_ptr tree p \<Longrightarrow> valid_ptr (on_node q f tree) p"
  using grows_update_at [of f "snd q"] by (auto simp: valid_ptr_def on_node_def map_of_update_root grows_def)

lemma valid_ptr_child:
  assumes "valid_ptr tree node"
  shows "valid_ptr (on_node node (GetOrCreateChild cls) tree) (fst node, snd node @ [cls])"
proof -
  obtain r n where r: "map_of tree (fst node) = Some r" "node_at (snd node) (rn_node r) = Some n"
    using assms by (auto simp: valid_ptr_def)
  then have "node_at (snd node @ [cls]) (update_at (snd node) (GetOrCreateChild cls) (rn_node r)) \<noteq> None"
    using node_at_update_at_same [OF r(2), of "GetOrCreateChild cls"] by (simp add: node_at_snoc GetChild_GetOrCreateChild)
  then show ?thesis using r by (auto simp: valid_ptr_def on_node_def map_of_update_root)
qed

lemma wf_tree_on_node:
  assumes "\<And>n. wf_node n \<Longrightarrow> wf_node (f n)" and "\<And>n. typeID (f n) = typeID n" and "wf_tree tree"
  shows "wf_tree (on_node q f tree)"
proof -
  have "wf_root kr" if kr: "kr \<in> set (on_node q f tree)" for kr
  proof -
    consider "kr \<in> set tree"
      | r where "(fst q, r) \<in> set tree" "kr = (fst q, r\<lparr>rn_node := update_at (snd q) f (rn_node r)\<rparr>)"
      using set_update_root [OF kr [unfolded on_node_def]] by auto
    then show ?thesis
    proof cases
      case 2
      then have "wf_root (fst q, r)" using assms(3) by (auto simp: wf_tree_def)
      then show ?thesis using 2 wf_update_at [OF assms(1,2)] typeID_update_at [of f, OF assms(2)] by (auto simp: wf_root_def)
    qed (use assms(3) in \<open>auto simp: wf_tree_def\<close>)
  qed
  then show ?thesis using assms(3) by (simp add: wf_tree_def on_node_def)
qed

lemma AddRoot_ptr:
  assumes "wf_tree tree"
  shows "wf_tree (AddRoot t cat sz fn tree) \<and> valid_ptr (AddRoot t cat sz fn tree) (\<lparr>rk_typeID = t, rk_category = cat\<rparr>, [])"
  using AddRoot_spec [OF assms, of t cat sz fn] by (auto simp: valid_ptr_def)

section \<open>The reference graph and the invariant of the traversal\<close>

text \<open>
  The objects reachable from the root, by the CLR's answers and the GC descriptors: the reference
  description of what the traversal explores.
\<close>

definition references :: "memory \<Rightarrow> ProfilerInfo \<Rightarrow> ClassID \<Rightarrow> u64 \<Rightarrow> u64 \<Rightarrow> u64 set" where
  "references mem pInfo cls obj sz =
     {v \<in> (\<lambda>c. fst (snd c)) ` set (case GetSeriesCount mem cls of
              Inl _ \<Rightarrow> []
            | Inr count \<Rightarrow>
                if sint count < 0 then collected (EnumerateValueTypeArray mem pInfo obj cls)
                else if count = 0 then [] else collected (EnumerateObjectRefs mem cls obj sz)). IsValidObjectAddress v}"

definition object_type :: "ProfilerInfo \<Rightarrow> RootInfo \<Rightarrow> u64 \<Rightarrow> (ClassID \<times> u64) option" where
  "object_type pInfo root a =
     (if a = ri_address root then Some (ri_classID root, ri_objectSize root)
      else case pi_GetClassFromObject pInfo a of
             Inr (Some cls) \<Rightarrow> (case pi_GetObjectSize2 pInfo a of
                 Inr (Some sz) \<Rightarrow> if cls = 0 \<or> sz = 0 then None else Some (cls, sz)
               | _ \<Rightarrow> None)
           | _ \<Rightarrow> None)"

inductive heap_reachable :: "memory \<Rightarrow> ProfilerInfo \<Rightarrow> RootInfo \<Rightarrow> u64 \<Rightarrow> bool" for mem pInfo root where
  at_root: "heap_reachable mem pInfo root (ri_address root)"
| by_ref: "heap_reachable mem pInfo root a \<Longrightarrow> object_type pInfo root a = Some (cls, sz) \<Longrightarrow>
    ContainsGCPointers mem cls = Inr True \<Longrightarrow> b \<in> references mem pInfo cls a sz \<Longrightarrow> heap_reachable mem pInfo root b"

text \<open>Inline value types do not nest in themselves.\<close>

definition vt_ranked :: "(ClassID \<Rightarrow> nat) \<Rightarrow> InlineVTCache \<Rightarrow> bool" where
  "vt_ranked rank c \<longleftrightarrow> (\<forall>cls vtFields. vc_cache c cls = Some (Some vtFields) \<longrightarrow> (\<forall>f \<in> set vtFields. rank (vf_classID f) < rank cls))"

definition no_inline :: "InlineVTCache \<Rightarrow> bool" where
  "no_inline c \<longleftrightarrow> (\<forall>cls vtFields. vc_cache c cls \<noteq> Some (Some vtFields))"

text \<open>What holds between roots.\<close>

definition traverser_ok :: "(ClassID \<Rightarrow> nat) \<Rightarrow> ReferenceChainTraverser \<Rightarrow> bool" where
  "traverser_ok rank s \<longleftrightarrow> wf_tree (rt_tree s) \<and> wf_visited (rt_visited s) \<and> wf_vtcache (rt_inlineVTCache s)
     \<and> vt_ranked rank (rt_inlineVTCache s) \<and> rt_selfTestObjectsChecked s \<le> MaxSelfTestObjects
     \<and> (rt_gcDescTrusted s \<longleftrightarrow> rt_selfTest s \<noteq> Failed) \<and> (rt_selfTestFailedClassID s = 0 \<longleftrightarrow> rt_gcDescTrusted s)"

record env =
  e_mem :: memory
  e_pInfo :: ProfilerInfo
  e_root :: RootInfo
  e_rank :: "ClassID \<Rightarrow> nat"
  e_faults :: u32
  e_stop :: TraversalStopReason
  e_plain :: bool

definition heap :: "env \<Rightarrow> u64 set" where
  "heap e = {a. heap_reachable (e_mem e) (e_pInfo e) (e_root e) a}"

definition seen :: "ReferenceChainTraverser \<Rightarrow> u64 set" where
  "seen s = dom (visited_map (rt_visited s))"

definition frame_ok :: "env \<Rightarrow> TypeReferenceTree \<Rightarrow> TraversalFrame \<Rightarrow> bool" where
  "frame_ok e tree f \<longleftrightarrow> valid_ptr tree (fr_treeNode f) \<and> fr_objectAddress f \<in> heap e
     \<and> object_type (e_pInfo e) (e_root e) (fr_objectAddress f) = Some (fr_classID f, fr_objectSize f)
     \<and> ContainsGCPointers (e_mem e) (fr_classID f) = Inr True"

definition settled :: "env \<Rightarrow> u64 \<Rightarrow> ReferenceChainTraverser \<Rightarrow> bool" where
  "settled e a s \<longleftrightarrow> a \<in> fr_objectAddress ` set (rt_traversalStack s)
     \<or> (\<forall>cls sz. object_type (e_pInfo e) (e_root e) a = Some (cls, sz) \<longrightarrow> ContainsGCPointers (e_mem e) cls = Inr True \<longrightarrow>
          references (e_mem e) (e_pInfo e) cls a sz \<subseteq> seen s)"

text \<open>
  The invariant of a drain. \<open>n\<close> bounds the frames on the stack and the objects not seen yet, \<open>P\<close> are tree
  nodes in use and \<open>D\<close> are objects whose references may be lost. Unless there are inline value types,
  the depth of a frame is at most the number of objects seen.
\<close>

definition drain_inv :: "env \<Rightarrow> nat \<Rightarrow> node_ptr set \<Rightarrow> u64 set \<Rightarrow> ReferenceChainTraverser \<Rightarrow> bool" where
  "drain_inv e n P D s \<longleftrightarrow> traverser_ok (e_rank e) s \<and> ri_address (e_root e) \<in> seen s \<and> seen s \<subseteq> heap e
     \<and> (\<forall>f \<in> set (rt_traversalStack s). frame_ok e (rt_tree s) f) \<and> (\<forall>q \<in> P. valid_ptr (rt_tree s) q)
     \<and> length (rt_traversalStack s) + card (heap e - seen s) \<le> n
     \<and> (e_plain e \<longrightarrow> (\<forall>f \<in> set (rt_traversalStack s). unat (fr_depth f) \<le> card (seen s)))
     \<and> (e_plain e \<and> card (heap e) \<le> unat MaxTreeDepth \<longrightarrow> (\<forall>a \<in> seen s - D. settled e a s))
     \<and> rt_faultCount s = e_faults e \<and> rt_stopReason s = e_stop e \<and> (no_inline (rt_inlineVTCache s) \<longleftrightarrow> e_plain e)"

definition scan_inv :: "env \<Rightarrow> nat \<Rightarrow> node_ptr set \<Rightarrow> u64 set \<Rightarrow> u64 set \<Rightarrow> u32 \<Rightarrow> ReferenceChainTraverser \<Rightarrow> bool" where
  "scan_inv e n P D W d s \<longleftrightarrow> drain_inv e n P D s \<and> W \<subseteq> seen s \<and> (e_plain e \<longrightarrow> unat d \<le> card (seen s))"

definition lost :: "env \<Rightarrow> nat \<Rightarrow> abort \<Rightarrow> ReferenceChainTraverser \<Rightarrow> bool" where
  "lost e n x s \<longleftrightarrow> drain_inv e n {} UNIV s"

lemma heap_finite [simp]: "finite (heap e)"
  by (rule finite_subset [OF subset_UNIV]) simp

lemma seen_finite [simp]: "finite (seen s)"
  by (simp add: seen_def visited_map_finite)

lemma drain_inv_mono: "drain_inv e n P D s \<Longrightarrow> n \<le> n' \<Longrightarrow> P' \<subseteq> P \<Longrightarrow> D \<subseteq> D' \<Longrightarrow> drain_inv e n' P' D' s"
  unfolding drain_inv_def by (elim conjE, intro conjI) auto

lemma drain_inv_lost: "drain_inv e n P D s \<Longrightarrow> lost e n x s"
  unfolding lost_def by (rule drain_inv_mono) auto

lemma scan_inv_lost: "scan_inv e n P D W d s \<Longrightarrow> lost e n x s"
  unfolding scan_inv_def by (auto intro: drain_inv_lost)

lemma lost_mono: "lost e n x s \<Longrightarrow> n \<le> n' \<Longrightarrow> lost e n' x s"
  unfolding lost_def by (erule drain_inv_mono) auto

lemma hoare_scan_call:
  "(\<And>a. r = Inr a \<Longrightarrow> hoare (scan_inv e n P D W d) (f a) Q (lost e n)) \<Longrightarrow> hoare (scan_inv e n P D W d) (bnd (call r) f) Q (lost e n)"
  by (cases r) (auto simp: hoare_def bnd_def call_def intro: scan_inv_lost)

section \<open>The operations keep the invariant\<close>

lemma seen_simps [simp]:
  "seen (s\<lparr>rt_tree := t\<rparr>) = seen s" "seen (s\<lparr>rt_inlineVTCache := c\<rparr>) = seen s" "seen (s\<lparr>rt_traversalStack := fs\<rparr>) = seen s"
  "seen (s\<lparr>rt_objectsTraversed := k\<rparr>) = seen s" "seen (s\<lparr>rt_selfTestObjectsChecked := j\<rparr>) = seen s"
  "seen (s\<lparr>rt_selfTest := r\<rparr>) = seen s" "seen (s\<lparr>rt_visited := v\<rparr>) = dom (visited_map v)"
  by (simp_all add: seen_def)

lemma settled_simps [simp]:
  "settled e a (s\<lparr>rt_tree := t\<rparr>) = settled e a s" "settled e a (s\<lparr>rt_inlineVTCache := c\<rparr>) = settled e a s"
  "settled e a (s\<lparr>rt_objectsTraversed := k\<rparr>) = settled e a s" "settled e a (s\<lparr>rt_selfTestObjectsChecked := j\<rparr>) = settled e a s"
  "settled e a (s\<lparr>rt_selfTest := r\<rparr>) = settled e a s"
  by (simp_all add: settled_def)

lemma drain_inv_tree:
  assumes "drain_inv e n P D s" and "wf_tree t" and "\<And>q. valid_ptr (rt_tree s) q \<Longrightarrow> valid_ptr t q" and "\<forall>q \<in> P'. valid_ptr t q"
  shows "drain_inv e n P' D (s\<lparr>rt_tree := t\<rparr>)"
  using assms unfolding drain_inv_def traverser_ok_def by (elim conjE, intro conjI) (auto simp: frame_ok_def)

lemma drain_inv_wf_tree: "drain_inv e n P D s \<Longrightarrow> wf_tree (rt_tree s)"
  by (simp add: drain_inv_def traverser_ok_def)

lemma drain_inv_ptr: "drain_inv e n P D s \<Longrightarrow> q \<in> P \<Longrightarrow> valid_ptr (rt_tree s) q"
  by (simp add: drain_inv_def)

lemma node_GetOrCreateChild_hoare:
  assumes "q \<in> P"
  shows "hoare (scan_inv e n P D W d) (node_GetOrCreateChild q cls)
    (\<lambda>c s. c = (fst q, snd q @ [cls]) \<and> scan_inv e n (insert (fst q, snd q @ [cls]) P) D W d s) E"
proof (rule hoareI)
  fix s assume s: "scan_inv e n P D W d s"
  let ?t = "on_node q (GetOrCreateChild cls) (rt_tree s)"
  have inv: "drain_inv e n P D s" using s by (simp add: scan_inv_def)
  have "drain_inv e n (insert (fst q, snd q @ [cls]) P) D (s\<lparr>rt_tree := ?t\<rparr>)"
  proof (rule drain_inv_tree [OF inv])
    show "wf_tree ?t" using drain_inv_wf_tree [OF inv] by (intro wf_tree_on_node) (auto intro: wf_GetOrCreateChild)
    show "valid_ptr ?t p" if "valid_ptr (rt_tree s) p" for p
      using valid_ptr_on_node [OF grows_GetOrCreateChild] that by blast
    then show "\<forall>p \<in> insert (fst q, snd q @ [cls]) P. valid_ptr ?t p"
      using valid_ptr_child drain_inv_ptr [OF inv] assms by auto
  qed
  then show "\<exists>r s'. node_GetOrCreateChild q cls s = Some (r, s') \<and>
      (case r of Inl x \<Rightarrow> E x s'
       | Inr c \<Rightarrow> c = (fst q, snd q @ [cls]) \<and> scan_inv e n (insert (fst q, snd q @ [cls]) P) D W d s')"
    using s by (simp add: node_GetOrCreateChild_def bnd_def upd_def ret_def scan_inv_def)
qed

lemma node_AddInstance_hoare: "hoare (scan_inv e n P D W d) (node_AddInstance q sz) (\<lambda>_. scan_inv e n P D W d) E"
proof (rule hoareI)
  fix s assume s: "scan_inv e n P D W d s"
  let ?t = "on_node q (AddInstance sz) (rt_tree s)"
  have inv: "drain_inv e n P D s" using s by (simp add: scan_inv_def)
  have "drain_inv e n P D (s\<lparr>rt_tree := ?t\<rparr>)"
  proof (rule drain_inv_tree [OF inv])
    show "wf_tree ?t" using drain_inv_wf_tree [OF inv] by (intro wf_tree_on_node) auto
    show "valid_ptr ?t p" if "valid_ptr (rt_tree s) p" for p
      using valid_ptr_on_node [OF grows_AddInstance] that by blast
    then show "\<forall>p \<in> P. valid_ptr ?t p" using drain_inv_ptr [OF inv] by auto
  qed
  then show "\<exists>r s'. node_AddInstance q sz s = Some (r, s') \<and> (case r of Inl x \<Rightarrow> E x s' | Inr _ \<Rightarrow> scan_inv e n P D W d s')"
    using s by (simp add: node_AddInstance_def upd_def scan_inv_def)
qed

lemma GetInlineVTInfo_answer:
  "GetInlineVTInfo mem cls c = Some (Inr (Some vtFields), c') \<Longrightarrow> vc_cache c cls = Some (Some vtFields)"
  by (auto simp: GetInlineVTInfo_def bnd_def call_def get_def upd_def ret_def split: sum.splits option.splits if_splits)

lemma GetInlineVTInfo_entries:
  "GetInlineVTInfo mem cls c = Some (r, c') \<Longrightarrow> vc_cache c' k = Some (Some vtFields) \<longleftrightarrow> vc_cache c k = Some (Some vtFields)"
  by (auto simp: GetInlineVTInfo_def bnd_def call_def get_def upd_def ret_def split: sum.splits option.splits if_splits)

lemma cache_GetInlineVTInfo_hoare:
  "hoare (scan_inv e n P D W d) (cache_GetInlineVTInfo mem cls)
     (\<lambda>r s. scan_inv e n P D W d s \<and> (\<forall>vtFields. r = Some vtFields \<longrightarrow> \<not> e_plain e
        \<and> (\<forall>f \<in> set vtFields. e_rank e (vf_classID f) < e_rank e cls))) (lost e n)"
proof (rule hoareI)
  fix s assume s: "scan_inv e n P D W d s"
  let ?c = "rt_inlineVTCache s"
  have ok: "wf_vtcache ?c" "vt_ranked (e_rank e) ?c" using s by (auto simp: scan_inv_def drain_inv_def traverser_ok_def)
  obtain r c' where r: "GetInlineVTInfo mem cls ?c = Some (r, c')" "wf_vtcache c'"
    using GetInlineVTInfo_hoare [OF ok(1)] by blast
  note same = GetInlineVTInfo_entries [OF r(1)]
  have ranked: "vt_ranked (e_rank e) c'" using ok(2) same by (simp add: vt_ranked_def)
  have plain: "no_inline ?c \<longleftrightarrow> e_plain e" using s by (simp add: scan_inv_def drain_inv_def)
  have none: "no_inline c' \<longleftrightarrow> no_inline ?c" using same by (simp add: no_inline_def)
  have "drain_inv e n P D (s\<lparr>rt_inlineVTCache := c'\<rparr>)"
    using s r(2) ranked none unfolding scan_inv_def drain_inv_def traverser_ok_def by simp
  then have inv: "scan_inv e n P D W d (s\<lparr>rt_inlineVTCache := c'\<rparr>)"
    using s by (simp add: scan_inv_def)
  moreover have "\<not> e_plain e \<and> (\<forall>f \<in> set vtFields. e_rank e (vf_classID f) < e_rank e cls)" if "r = Inr (Some vtFields)" for vtFields
    using GetInlineVTInfo_answer [of mem cls ?c vtFields c'] r(1) that ok(2) plain unfolding no_inline_def vt_ranked_def by blast
  ultimately show "\<exists>r s'. cache_GetInlineVTInfo mem cls s = Some (r, s') \<and>
     (case r of Inl x \<Rightarrow> lost e n x s'
      | Inr r \<Rightarrow> scan_inv e n P D W d s' \<and> (\<forall>vtFields. r = Some vtFields \<longrightarrow> \<not> e_plain e
         \<and> (\<forall>f \<in> set vtFields. e_rank e (vf_classID f) < e_rank e cls)))"
    using r(1) scan_inv_lost [OF inv] by (cases r) (auto simp: cache_GetInlineVTInfo_def)
qed

text \<open>A new entry of the visited set: the object is seen, and its references are not looked at yet.\<close>

lemma drain_inv_insert:
  assumes inv: "drain_inv e n P D s" and v: "v \<in> heap e" "v \<notin> seen s"
    and s': "wf_visited vis" "dom (visited_map vis) = insert v (seen s)"
  shows "0 < n \<and> drain_inv e (n - 1) P (insert v D) (s\<lparr>rt_visited := vis\<rparr>)"
proof -
  have heap: "heap e - insert v (seen s) = (heap e - seen s) - {v}" by auto
  have card: "card (heap e - seen s) = Suc (card (heap e - insert v (seen s)))"
    unfolding heap using v card_Suc_Diff1 [of "heap e - seen s" v] by simp
  have bound: "length (rt_traversalStack s) + card (heap e - insert v (seen s)) \<le> n - 1" "0 < n"
    using inv card by (auto simp: drain_inv_def)
  have settled: "settled e a s \<Longrightarrow> settled e a (s\<lparr>rt_visited := vis\<rparr>)" for a
    using s'(2) by (auto simp: settled_def)
  have le: "card (seen s) \<le> card (insert v (seen s))" by (simp add: card_insert_le)
  have "drain_inv e (n - 1) P (insert v D) (s\<lparr>rt_visited := vis\<rparr>)"
    unfolding drain_inv_def seen_simps s'(2)
  proof (intro conjI)
    show "insert v (seen s) \<subseteq> heap e" using inv v(1) by (simp add: drain_inv_def)
    show "traverser_ok (e_rank e) (s\<lparr>rt_visited := vis\<rparr>)" using inv s'(1) by (simp add: drain_inv_def traverser_ok_def)
    show "e_plain e \<longrightarrow> (\<forall>f \<in> set (rt_traversalStack (s\<lparr>rt_visited := vis\<rparr>)). unat (fr_depth f) \<le> card (insert v (seen s)))"
      using inv le by (auto simp: drain_inv_def intro: order_trans)
    show "e_plain e \<and> card (heap e) \<le> unat MaxTreeDepth \<longrightarrow> (\<forall>a \<in> insert v (seen s) - insert v D. settled e a (s\<lparr>rt_visited := vis\<rparr>))"
      using inv settled by (auto simp: drain_inv_def)
  qed (use inv bound in \<open>simp_all add: drain_inv_def\<close>)
  then show ?thesis using bound by simp
qed

lemma drain_inv_visited_same:
  assumes inv: "drain_inv e n P D s" and s': "wf_visited vis" "dom (visited_map vis) = seen s"
  shows "drain_inv e n P D (s\<lparr>rt_visited := vis\<rparr>)"
proof -
  have "settled e a (s\<lparr>rt_visited := vis\<rparr>) = settled e a s" for a using s'(2) by (simp add: settled_def)
  then show ?thesis using inv s' unfolding drain_inv_def traverser_ok_def seen_simps s'(2) by simp
qed

lemma visited_TryInsert_hoare:
  assumes v: "v \<in> heap e" "v \<noteq> 0" and room: "card (heap e) < max_entries" and d: "e_plain e \<longrightarrow> d \<le> MaxTreeDepth"
  shows "hoare (scan_inv e n P D W d) (visited_TryInsert v)
    (\<lambda>(r, slot) s. slot_of (rt_visited s) v slot \<and>
       (if r = Inserted then v \<noteq> ri_address (e_root e) \<and> 0 < n \<and> scan_inv e (n - 1) P (insert v D) (insert v W) (d + 1) s
        else scan_inv e n P D (insert v W) d s)) E"
proof (rule hoareI)
  fix s assume s: "scan_inv e n P D W d s"
  then have inv: "drain_inv e n P D s" and W: "W \<subseteq> seen s" and dep: "e_plain e \<longrightarrow> unat d \<le> card (seen s)"
    by (auto simp: scan_inv_def)
  have wf: "wf_visited (rt_visited s)" and sub: "seen s \<subseteq> heap e" using inv by (auto simp: drain_inv_def traverser_ok_def)
  have "card (dom (visited_map (rt_visited s))) < max_entries"
    using card_mono [OF heap_finite sub] room by (simp add: seen_def)
  from vset.try_insert [OF wf this v(2)] obtain r slot vis where
    t: "TryInsert (rt_visited s) v = Some (r, slot, vis)" "wf_visited vis" "slot_of vis v slot"
      "r = Inserted \<longleftrightarrow> v \<notin> seen s" "visited_map vis = (if v \<in> seen s then visited_map (rt_visited s) else (visited_map (rt_visited s))(v \<mapsto> 0))"
    by (auto simp: seen_def)
  let ?Q = "\<lambda>(r, slot) s. slot_of (rt_visited s) v slot \<and>
       (if r = Inserted then v \<noteq> ri_address (e_root e) \<and> 0 < n \<and> scan_inv e (n - 1) P (insert v D) (insert v W) (d + 1) s
        else scan_inv e n P D (insert v W) d s)"
  show "\<exists>r s'. visited_TryInsert v s = Some (r, s') \<and> (case r of Inl x \<Rightarrow> E x s' | Inr a \<Rightarrow> ?Q a s')"
  proof (cases "v \<in> seen s")
    case True
    have "drain_inv e n P D (s\<lparr>rt_visited := vis\<rparr>)"
      using drain_inv_visited_same [OF inv t(2)] t(5) True by (simp add: seen_def)
    then show ?thesis using t True W dep by (auto simp: visited_TryInsert_def scan_inv_def seen_def)
  next
    case False
    have dom: "dom (visited_map vis) = insert v (seen s)" using t(5) False by (auto simp: seen_def)
    have "unat (d + 1) \<le> Suc (unat d)" by (simp add: unat_word_ariths)
    then have "e_plain e \<longrightarrow> unat (d + 1) \<le> card (insert v (seen s))" using dep False by auto
    moreover have "v \<noteq> ri_address (e_root e)" using inv False by (auto simp: drain_inv_def)
    ultimately show ?thesis using t False W drain_inv_insert [OF inv v(1) False t(2) dom] dom
      by (auto simp: visited_TryInsert_def scan_inv_def)
  qed
qed

lemma slot_store_hoare:
  assumes "v \<noteq> 0" "v \<in> W"
  shows "hoare (\<lambda>s. slot_of (rt_visited s) v slot \<and> scan_inv e n P D W d s)
    (upd (\<lambda>s. s\<lparr>rt_visited := slot_store (rt_visited s) slot cls\<rparr>)) (\<lambda>_. scan_inv e n P D W d) E"
proof (rule hoare_upd)
  fix s assume s: "slot_of (rt_visited s) v slot \<and> scan_inv e n P D W d s"
  then have inv: "drain_inv e n P D s" and W: "v \<in> seen s" using assms(2) by (auto simp: scan_inv_def)
  have wf: "wf_visited (rt_visited s)" using inv by (simp add: drain_inv_def traverser_ok_def)
  have st: "wf_visited (slot_store (rt_visited s) slot cls)" "dom (visited_map (slot_store (rt_visited s) slot cls)) = seen s"
    using slot_store_ok [OF wf _ assms(1), of slot cls] s W by (auto simp: seen_def)
  show "scan_inv e n P D W d (s\<lparr>rt_visited := slot_store (rt_visited s) slot cls\<rparr>)"
    using drain_inv_visited_same [OF inv st] s st(2) by (simp add: scan_inv_def)
qed

text \<open>An object that was seen is settled when it goes on the stack, or when it has no references to follow.\<close>

lemma drain_inv_settle:
  assumes "drain_inv e n P (insert v D) s" and "settled e v s"
  shows "drain_inv e n P D s"
  using assms unfolding drain_inv_def by (elim conjE, intro conjI) auto

lemma PushTraversalFrameIfScannable_hoare:
  assumes q: "q \<in> P" and t: "object_type (e_pInfo e) (e_root e) v = Some (cls, sz)" and v: "v \<in> heap e"
  shows "hoare (scan_inv e n P (insert v D) W d) (PushTraversalFrameIfScannable (e_mem e) v q d cls sz)
    (\<lambda>_ s. drain_inv e (Suc n) P D s \<and> W \<subseteq> seen s \<and> (e_plain e \<longrightarrow> unat d \<le> card (seen s))) (lost e (Suc n))"
  unfolding PushTraversalFrameIfScannable_def
proof (rule hoare_bnd)
  show "hoare (scan_inv e n P (insert v D) W d) (call (ContainsGCPointers (e_mem e) cls))
     (\<lambda>b s. ContainsGCPointers (e_mem e) cls = Inr b \<and> scan_inv e n P (insert v D) W d s) (lost e (Suc n))"
    by (rule hoare_call) (auto intro: lost_mono [OF scan_inv_lost])
next
  fix b
  let ?f = "\<lparr>fr_objectAddress = v, fr_treeNode = q, fr_depth = d, fr_classID = cls, fr_objectSize = sz\<rparr>"
  let ?Q = "\<lambda>_ s. drain_inv e (Suc n) P D s \<and> W \<subseteq> seen s \<and> (e_plain e \<longrightarrow> unat d \<le> card (seen s))"
  have push: "?Q () (s\<lparr>rt_traversalStack := ?f # rt_traversalStack s\<rparr>)"
    if b: "b" "ContainsGCPointers (e_mem e) cls = Inr b" and s: "scan_inv e n P (insert v D) W d s" for s
  proof -
    let ?s = "s\<lparr>rt_traversalStack := ?f # rt_traversalStack s\<rparr>"
    have inv: "drain_inv e n P (insert v D) s" and dep: "e_plain e \<longrightarrow> unat d \<le> card (seen s)" using s by (auto simp: scan_inv_def)
    have "frame_ok e (rt_tree s) ?f" using drain_inv_ptr [OF inv q] t v b by (auto simp: frame_ok_def)
    moreover have "settled e a s \<Longrightarrow> settled e a ?s" for a by (auto simp: settled_def)
    ultimately have "drain_inv e (Suc n) P (insert v D) ?s"
      using inv dep unfolding drain_inv_def traverser_ok_def by (elim conjE, intro conjI) auto
    moreover have "settled e v ?s" by (simp add: settled_def)
    ultimately show ?thesis using drain_inv_settle s by (auto simp: scan_inv_def)
  qed
  have skip: "?Q () s" if b: "\<not> b" "ContainsGCPointers (e_mem e) cls = Inr b" and s: "scan_inv e n P (insert v D) W d s" for s
  proof -
    have "settled e v s" using b t by (auto simp: settled_def)
    then have "drain_inv e n P D s" using s drain_inv_settle by (auto simp: scan_inv_def)
    then have "drain_inv e (Suc n) P D s" by (rule drain_inv_mono) auto
    then show ?thesis using s by (auto simp: scan_inv_def)
  qed
  show "hoare (\<lambda>s. ContainsGCPointers (e_mem e) cls = Inr b \<and> scan_inv e n P (insert v D) W d s)
     (if b then upd (\<lambda>s. s\<lparr>rt_traversalStack := ?f # rt_traversalStack s\<rparr>) else ret ()) ?Q (lost e (Suc n))"
  proof (cases b)
    case True
    have "hoare (\<lambda>s. ContainsGCPointers (e_mem e) cls = Inr b \<and> scan_inv e n P (insert v D) W d s)
        (upd (\<lambda>s. s\<lparr>rt_traversalStack := ?f # rt_traversalStack s\<rparr>)) ?Q (lost e (Suc n))"
      by (rule hoare_upd) (use push True in blast)
    then show ?thesis using True by simp
  next
    case False
    have "hoare (\<lambda>s. ContainsGCPointers (e_mem e) cls = Inr b \<and> scan_inv e n P (insert v D) W d s) (ret ()) ?Q (lost e (Suc n))"
      by (rule hoare_ret) (use skip False in blast)
    then show ?thesis using False by simp
  qed
qed

lemma bnd_call_Inl [simp]: "bnd (call (Inl x)) f = call (Inl x)"
  by (rule ext) (simp add: bnd_def call_def)

lemma hoare_abort: "(\<And>s. P s \<Longrightarrow> E x s) \<Longrightarrow> hoare P (call (Inl x)) Q E"
  by (simp add: hoare_def call_def)

lemma scan_inv_after_insert:
  assumes "drain_inv e (Suc n) P D s" "W \<subseteq> seen s" "e_plain e \<longrightarrow> unat (d + 1) \<le> card (seen s)" "e_plain e \<longrightarrow> d \<le> MaxTreeDepth"
  shows "scan_inv e (Suc n) P D W d s"
proof -
  have "unat (d + 1) = Suc (unat d)" if "d \<le> MaxTreeDepth"
    using that by (simp add: MaxTreeDepth_def word_le_nat_alt unat_word_ariths)
  then show ?thesis using assms by (auto simp: scan_inv_def)
qed

lemma scan_inv_untyped:
  assumes "scan_inv e n P (insert v D) W (d + 1) s" and "object_type (e_pInfo e) (e_root e) v = None" and "e_plain e \<longrightarrow> d \<le> MaxTreeDepth"
  shows "scan_inv e (Suc n) P D W d s"
proof (rule scan_inv_after_insert)
  have "drain_inv e n P D s" using assms(1,2) by (auto simp: scan_inv_def settled_def intro: drain_inv_settle)
  then show "drain_inv e (Suc n) P D s" by (rule drain_inv_mono) auto
qed (use assms in \<open>auto simp: scan_inv_def\<close>)

lemma inserted_hoare:
  assumes v: "v \<in> heap e" "v \<noteq> 0" "v \<noteq> ri_address (e_root e)" "v \<in> W" and d: "e_plain e \<longrightarrow> d \<le> MaxTreeDepth" and q: "q \<in> P"
    and t: "pi_GetClassFromObject (e_pInfo e) v = Inr (Some cls)" "cls \<noteq> 0" "pi_GetObjectSize2 (e_pInfo e) v = Inr (Some sz)" "sz \<noteq> 0"
  shows "hoare (\<lambda>s. slot_of (rt_visited s) v slot \<and> scan_inv e n P (insert v D) W (d + 1) s)
    (bnd (upd (\<lambda>s. s\<lparr>rt_visited := slot_store (rt_visited s) slot cls\<rparr>)) (\<lambda>_.
     bnd (node_GetOrCreateChild q cls) (\<lambda>childNode.
     bnd (node_AddInstance childNode sz) (\<lambda>_.
     bnd (PushTraversalFrameIfScannable (e_mem e) v childNode (d + 1) cls sz) (\<lambda>_. ret True)))))
    (\<lambda>_. scan_inv e (Suc n) P D W d) (lost e (Suc n))"
proof -
  let ?c = "(fst q, snd q @ [cls])"
  have ty: "object_type (e_pInfo e) (e_root e) v = Some (cls, sz)" using t v(3) by (simp add: object_type_def)
  have "hoare (scan_inv e n (insert ?c P) (insert v D) W (d + 1)) (PushTraversalFrameIfScannable (e_mem e) v ?c (d + 1) cls sz)
     (\<lambda>_. scan_inv e (Suc n) P D W d) (lost e (Suc n))"
  proof (rule hoare_weaken [OF PushTraversalFrameIfScannable_hoare [OF _ ty v(1), of ?c "insert ?c P" n D W "d + 1"]])
    fix s assume "drain_inv e (Suc n) (insert ?c P) D s \<and> W \<subseteq> seen s \<and> (e_plain e \<longrightarrow> unat (d + 1) \<le> card (seen s))"
    moreover from this have "drain_inv e (Suc n) P D s" using drain_inv_mono [of e "Suc n" "insert ?c P" D s "Suc n" P D] by auto
    ultimately show "scan_inv e (Suc n) P D W d s" using scan_inv_after_insert d by blast
  qed auto
  then have push: "hoare (scan_inv e n (insert ?c P) (insert v D) W (d + 1))
     (bnd (PushTraversalFrameIfScannable (e_mem e) v ?c (d + 1) cls sz) (\<lambda>_. ret True)) (\<lambda>_. scan_inv e (Suc n) P D W d) (lost e (Suc n))"
    by (rule hoare_bnd) (simp add: hoare_ret)
  show ?thesis
    by (rule hoare_bnd [OF slot_store_hoare [OF v(2,4)]], rule hoare_bnd [OF node_GetOrCreateChild_hoare [OF q]], rule hoare_fact)
      (use push in \<open>auto intro: hoare_bnd [OF node_AddInstance_hoare]\<close>)
qed

lemma process_new_ref_hoare:
  assumes v: "v \<in> heap e" "v \<noteq> 0" "v \<noteq> ri_address (e_root e)" "v \<in> W" and d: "e_plain e \<longrightarrow> d \<le> MaxTreeDepth" and q: "q \<in> P"
  shows "hoare (\<lambda>s. slot_of (rt_visited s) v slot \<and> scan_inv e n P (insert v D) W (d + 1) s)
    (process_new_ref (e_mem e) (e_pInfo e) slot v q d) (\<lambda>_. scan_inv e (Suc n) P D W d) (lost e (Suc n))"
proof -
  let ?cls = "pi_GetClassFromObject (e_pInfo e) v" and ?sz = "pi_GetObjectSize2 (e_pInfo e) v"
  let ?P = "\<lambda>s. slot_of (rt_visited s) v slot \<and> scan_inv e n P (insert v D) W (d + 1) s"
  have fail: "hoare ?P (call (Inl x)) (\<lambda>_. scan_inv e (Suc n) P D W d) (lost e (Suc n))" for x
    by (rule hoare_abort) (auto intro: lost_mono [OF scan_inv_lost])
  have skip: "hoare ?P (ret False) (\<lambda>_. scan_inv e (Suc n) P D W d) (lost e (Suc n))"
    if "object_type (e_pInfo e) (e_root e) v = None"
    by (rule hoare_ret) (use scan_inv_untyped that d in blast)
  consider (faulty) x where "?cls = Inl x" | (no_class) "?cls = Inr None \<or> ?cls = Inr (Some 0)"
    | (no_size) c x where "?cls = Inr (Some c)" "c \<noteq> 0" "?sz = Inl x"
    | (bad_size) c where "?cls = Inr (Some c)" "c \<noteq> 0" "?sz = Inr None \<or> ?sz = Inr (Some 0)"
    | (known) c z where "?cls = Inr (Some c)" "c \<noteq> 0" "?sz = Inr (Some z)" "z \<noteq> 0"
    by (metis Inl_Inr_False option.exhaust old.sum.exhaust)
  then show ?thesis
  proof cases
    case no_class
    then show ?thesis using skip v(3) by (auto simp: process_new_ref_def object_type_def split: sum.splits option.splits)
  next
    case (bad_size c)
    then show ?thesis using skip v(3) by (auto simp: process_new_ref_def object_type_def)
  next
    case (known c z)
    then show ?thesis using inserted_hoare [OF v d q known] by (simp add: process_new_ref_def)
  qed (use fail in \<open>simp_all add: process_new_ref_def\<close>)
qed

lemma process_known_ref_hoare:
  assumes "q \<in> P"
  shows "hoare (scan_inv e n P D W d) (process_known_ref (e_pInfo e) slot v q) (\<lambda>_. scan_inv e n P D W d) (lost e n)"
  unfolding process_known_ref_def
proof (rule hoare_bnd [OF hoare_get])
  show "scan_inv e n P D W d s" if "scan_inv e n P D W d s" for s by (rule that)
  fix cls
  have child: "hoare (scan_inv e n P D W d) (bnd (node_GetOrCreateChild q cls) (\<lambda>c. bnd (node_AddInstance c z) (\<lambda>_. ret False)))
      (\<lambda>_. scan_inv e n P D W d) (lost e n)" for z
  proof (rule hoare_bnd [OF node_GetOrCreateChild_hoare [OF assms]], rule hoare_fact)
    fix c
    show "hoare (scan_inv e n (insert (fst q, snd q @ [cls]) P) D W d) (bnd (node_AddInstance c z) (\<lambda>_. ret False))
        (\<lambda>_. scan_inv e n P D W d) (lost e n)"
      by (rule hoare_bnd [OF node_AddInstance_hoare], rule hoare_ret)
        (auto simp: scan_inv_def intro: drain_inv_mono)
  qed
  show "hoare (scan_inv e n P D W d)
      (if cls \<noteq> 0 then bnd (call (pi_GetObjectSize2 (e_pInfo e) v)) (\<lambda>sz. bnd (node_GetOrCreateChild q cls) (\<lambda>childNode.
         bnd (node_AddInstance childNode (case sz of None \<Rightarrow> 0 | Some z \<Rightarrow> z)) (\<lambda>_. ret False))) else ret False)
      (\<lambda>_. scan_inv e n P D W d) (lost e n)"
    by (intro hoare_if hoare_scan_call child hoare_ret)
qed

lemma ProcessDiscoveredRef_hoare:
  assumes v: "v \<in> heap e" "v \<noteq> 0" and room: "card (heap e) < max_entries" and d: "e_plain e \<longrightarrow> d \<le> MaxTreeDepth" and q: "q \<in> P"
  shows "hoare (scan_inv e n P D W d) (ProcessDiscoveredRef (e_mem e) (e_pInfo e) v q d) (\<lambda>_. scan_inv e n P D (insert v W) d) (lost e n)"
  unfolding ProcessDiscoveredRef_def
proof (rule hoare_bnd [OF visited_TryInsert_hoare [OF v room d]])
  fix rs :: "InsertResult \<times> u64"
  obtain r slot where rs: "rs = (r, slot)" by (cases rs)
  show "hoare ((\<lambda>(r, slot) s. slot_of (rt_visited s) v slot \<and>
      (if r = Inserted then v \<noteq> ri_address (e_root e) \<and> 0 < n \<and> scan_inv e (n - 1) P (insert v D) (insert v W) (d + 1) s
       else scan_inv e n P D (insert v W) d s)) rs)
    ((\<lambda>(result, slot). if result = Inserted then process_new_ref (e_mem e) (e_pInfo e) slot v q d
        else process_known_ref (e_pInfo e) slot v q) rs) (\<lambda>_. scan_inv e n P D (insert v W) d) (lost e n)"
  proof (cases "r = Inserted")
    case True
    have "hoare (\<lambda>s. (v \<noteq> ri_address (e_root e) \<and> 0 < n) \<and> slot_of (rt_visited s) v slot
        \<and> scan_inv e (n - 1) P (insert v D) (insert v W) (d + 1) s)
      (process_new_ref (e_mem e) (e_pInfo e) slot v q d) (\<lambda>_. scan_inv e n P D (insert v W) d) (lost e n)"
      by (rule hoare_fact) (use process_new_ref_hoare [OF v _ _ d q, of "insert v W" slot "n - 1" D] in simp)
    then show ?thesis using rs True by (auto elim: hoare_pre)
  next
    case False
    have "hoare (\<lambda>s. slot_of (rt_visited s) v slot \<and> scan_inv e n P D (insert v W) d s)
      (process_known_ref (e_pInfo e) slot v q) (\<lambda>_. scan_inv e n P D (insert v W) d) (lost e n)"
      by (rule hoare_pre [OF process_known_ref_hoare [OF q]]) simp
    then show ?thesis using rs False by simp
  qed
qed

section \<open>Inline value types\<close>

lemma scan_inv_mono: "scan_inv e n P D W d s \<Longrightarrow> P' \<subseteq> P \<Longrightarrow> W' \<subseteq> W \<Longrightarrow> scan_inv e n P' D W' d s"
  by (auto simp: scan_inv_def intro: drain_inv_mono)

lemma AddInline_Nil: "AddInlineValueTypeInstances mem q [] = ret ()"
  by (rule ext) (simp add: AddInlineValueTypeInstances.simps ret_def)

lemma AddInline_Cons:
  "AddInlineValueTypeInstances mem q (f # fs) =
     bnd (node_GetOrCreateChild q (vf_classID f)) (\<lambda>vtNode.
     bnd (node_AddInstance vtNode 0) (\<lambda>_.
     bnd (cache_GetInlineVTInfo mem (vf_classID f)) (\<lambda>nested.
     bnd (case nested of None \<Rightarrow> ret ()
          | Some fs' \<Rightarrow> AddInlineValueTypeInstances mem (fst q, snd q @ [vf_classID f]) fs') (\<lambda>_.
     AddInlineValueTypeInstances mem q fs))))"
proof (rule ext)
  fix s
  show "AddInlineValueTypeInstances mem q (f # fs) s =
     bnd (node_GetOrCreateChild q (vf_classID f)) (\<lambda>vtNode.
     bnd (node_AddInstance vtNode 0) (\<lambda>_.
     bnd (cache_GetInlineVTInfo mem (vf_classID f)) (\<lambda>nested.
     bnd (case nested of None \<Rightarrow> ret ()
          | Some fs' \<Rightarrow> AddInlineValueTypeInstances mem (fst q, snd q @ [vf_classID f]) fs') (\<lambda>_.
     AddInlineValueTypeInstances mem q fs)))) s"
    by (subst AddInlineValueTypeInstances.simps)
      (auto simp: bnd_def ret_def split: option.split sum.split prod.split)
qed

lemma AddInline_hoare:
  assumes "q \<in> P" and "\<forall>f \<in> set fs. e_rank e (vf_classID f) < R"
  shows "hoare (scan_inv e n P D W d) (AddInlineValueTypeInstances (e_mem e) q fs) (\<lambda>_. scan_inv e n P D W d) (lost e n)"
  using assms
proof (induction R arbitrary: P q fs rule: less_induct)
  case (less R)
  from less.prems(2) show ?case
  proof (induction fs)
    case Nil
    then show ?case by (simp add: AddInline_Nil hoare_ret)
  next
    case (Cons f fs)
    let ?c = "(fst q, snd q @ [vf_classID f])"
    have nested: "hoare (\<lambda>s. scan_inv e n (insert ?c P) D W d s \<and> (\<forall>fs'. nst = Some fs' \<longrightarrow> \<not> e_plain e
          \<and> (\<forall>g \<in> set fs'. e_rank e (vf_classID g) < e_rank e (vf_classID f))))
        (case nst of None \<Rightarrow> ret () | Some fs' \<Rightarrow> AddInlineValueTypeInstances (e_mem e) ?c fs')
        (\<lambda>_. scan_inv e n P D W d) (lost e n)" for nst
    proof (cases nst)
      case None
      then show ?thesis by (auto intro!: hoare_ret elim: scan_inv_mono)
    next
      case (Some fs')
      have "hoare (\<lambda>s. (\<forall>g \<in> set fs'. e_rank e (vf_classID g) < e_rank e (vf_classID f)) \<and> scan_inv e n (insert ?c P) D W d s)
          (AddInlineValueTypeInstances (e_mem e) ?c fs') (\<lambda>_. scan_inv e n P D W d) (lost e n)"
      proof (rule hoare_fact)
        assume "\<forall>g \<in> set fs'. e_rank e (vf_classID g) < e_rank e (vf_classID f)"
        with Cons.prems have "hoare (scan_inv e n (insert ?c P) D W d) (AddInlineValueTypeInstances (e_mem e) ?c fs')
            (\<lambda>_. scan_inv e n (insert ?c P) D W d) (lost e n)"
          by (intro less.IH [of "e_rank e (vf_classID f)"]) auto
        then show "hoare (scan_inv e n (insert ?c P) D W d) (AddInlineValueTypeInstances (e_mem e) ?c fs')
            (\<lambda>_. scan_inv e n P D W d) (lost e n)"
          by (rule hoare_weaken) (auto elim: scan_inv_mono)
      qed
      then show ?thesis unfolding Some option.case by (rule hoare_pre) auto
    qed
    show ?case
      unfolding AddInline_Cons
    proof (rule hoare_bnd [OF node_GetOrCreateChild_hoare [OF less.prems(1)]], rule hoare_fact)
      fix c assume "c = ?c"
      show "hoare (scan_inv e n (insert ?c P) D W d)
        (bnd (node_AddInstance c 0) (\<lambda>_. bnd (cache_GetInlineVTInfo (e_mem e) (vf_classID f)) (\<lambda>nested.
          bnd (case nested of None \<Rightarrow> ret () | Some fs' \<Rightarrow> AddInlineValueTypeInstances (e_mem e) ?c fs')
          (\<lambda>_. AddInlineValueTypeInstances (e_mem e) q fs)))) (\<lambda>_. scan_inv e n P D W d) (lost e n)"
        using Cons by (intro hoare_bnd [OF node_AddInstance_hoare] hoare_bnd [OF cache_GetInlineVTInfo_hoare] hoare_bnd [OF nested]) auto
    qed
  qed
qed

lemma Owner_Nil: "GetInlineValueTypeOwner mem q d off [] base = ret (q, d)"
  by (rule ext) (simp add: GetInlineValueTypeOwner.simps ret_def)

lemma Owner_skip:
  "base + vf_offset f < base \<or> off < base + vf_offset f \<or> vf_size f \<le> off - (base + vf_offset f) \<Longrightarrow>
     GetInlineValueTypeOwner mem q d off (f # fs) base = GetInlineValueTypeOwner mem q d off fs base"
  by (rule ext, subst GetInlineValueTypeOwner.simps) (auto simp: Let_def)

lemma Owner_found:
  assumes "\<not> (base + vf_offset f < base \<or> off < base + vf_offset f \<or> vf_size f \<le> off - (base + vf_offset f))"
  shows "GetInlineValueTypeOwner mem q d off (f # fs) base =
     bnd (node_GetOrCreateChild q (vf_classID f)) (\<lambda>_.
     bnd (cache_GetInlineVTInfo mem (vf_classID f)) (\<lambda>nested.
     case nested of None \<Rightarrow> ret ((fst q, snd q @ [vf_classID f]), d + 1)
     | Some fs' \<Rightarrow> GetInlineValueTypeOwner mem (fst q, snd q @ [vf_classID f]) (d + 1) off fs' (base + vf_offset f)))"
proof (rule ext)
  fix s
  show "GetInlineValueTypeOwner mem q d off (f # fs) base s =
     bnd (node_GetOrCreateChild q (vf_classID f)) (\<lambda>_.
     bnd (cache_GetInlineVTInfo mem (vf_classID f)) (\<lambda>nested.
     case nested of None \<Rightarrow> ret ((fst q, snd q @ [vf_classID f]), d + 1)
     | Some fs' \<Rightarrow> GetInlineValueTypeOwner mem (fst q, snd q @ [vf_classID f]) (d + 1) off fs' (base + vf_offset f))) s"
    using assms by (subst GetInlineValueTypeOwner.simps)
      (auto simp: bnd_def ret_def Let_def split: option.split sum.split prod.split)
qed

lemma Owner_hoare:
  assumes "q \<in> P" and "\<forall>f \<in> set fs. e_rank e (vf_classID f) < R"
  shows "hoare (scan_inv e n P D W d) (GetInlineValueTypeOwner (e_mem e) q dp off fs base)
    (\<lambda>(owner, _). scan_inv e n (insert owner P) D W d) (lost e n)"
  using assms
proof (induction R arbitrary: P q dp fs base rule: less_induct)
  case (less R)
  from less.prems(2) show ?case
  proof (induction fs)
    case Nil
    have "insert q P = P" using less.prems(1) by auto
    then show ?case by (simp add: Owner_Nil hoare_ret)
  next
    case (Cons f fs)
    show ?case
    proof (cases "base + vf_offset f < base \<or> off < base + vf_offset f \<or> vf_size f \<le> off - (base + vf_offset f)")
      case True
      then show ?thesis using Cons by (simp add: Owner_skip)
    next
      case False
      let ?c = "(fst q, snd q @ [vf_classID f])"
      let ?Q = "\<lambda>(owner, _). scan_inv e n (insert owner P) D W d"
      have nested: "hoare (\<lambda>s. scan_inv e n (insert ?c P) D W d s \<and> (\<forall>fs'. nst = Some fs' \<longrightarrow> \<not> e_plain e
          \<and> (\<forall>g \<in> set fs'. e_rank e (vf_classID g) < e_rank e (vf_classID f))))
        (case nst of None \<Rightarrow> ret (?c, dp + 1)
         | Some fs' \<Rightarrow> GetInlineValueTypeOwner (e_mem e) ?c (dp + 1) off fs' (base + vf_offset f)) ?Q (lost e n)" for nst
      proof (cases nst)
        case None
        then show ?thesis by (auto intro!: hoare_ret)
      next
        case (Some fs')
        have "hoare (\<lambda>s. (\<forall>g \<in> set fs'. e_rank e (vf_classID g) < e_rank e (vf_classID f)) \<and> scan_inv e n (insert ?c P) D W d s)
            (GetInlineValueTypeOwner (e_mem e) ?c (dp + 1) off fs' (base + vf_offset f)) ?Q (lost e n)"
        proof (rule hoare_fact)
          assume "\<forall>g \<in> set fs'. e_rank e (vf_classID g) < e_rank e (vf_classID f)"
          with Cons.prems have "hoare (scan_inv e n (insert ?c P) D W d)
              (GetInlineValueTypeOwner (e_mem e) ?c (dp + 1) off fs' (base + vf_offset f))
              (\<lambda>(owner, _). scan_inv e n (insert owner (insert ?c P)) D W d) (lost e n)"
            by (intro less.IH [of "e_rank e (vf_classID f)"]) auto
          then show "hoare (scan_inv e n (insert ?c P) D W d)
              (GetInlineValueTypeOwner (e_mem e) ?c (dp + 1) off fs' (base + vf_offset f)) ?Q (lost e n)"
            by (rule hoare_weaken) (auto elim!: scan_inv_mono)
        qed
        then show ?thesis unfolding Some option.case by (rule hoare_pre) auto
      qed
      show ?thesis unfolding Owner_found [OF False]
        by (rule hoare_bnd [OF node_GetOrCreateChild_hoare [OF less.prems(1)]], rule hoare_fact,
            rule hoare_bnd [OF cache_GetInlineVTInfo_hoare], rule nested)
    qed
  qed
qed

section \<open>Scanning one object\<close>

lemma call_bnd: "(\<And>a. \<exists>r'. f a = call r') \<Longrightarrow> \<exists>r'. bnd (call r) f = call r'"
  by (cases r) auto

lemma call_ret: "\<exists>r. ret a = call r"
  by (rule exI [of _ "Inr a"], rule ext) (simp add: ret_def call_def)

lemma ValidateAgainstMetadata_call: "\<exists>r. ValidateAgainstMetadata mem p cls sz = call r"
  unfolding ValidateAgainstMetadata_def
  by (auto split: option.split prod.split if_split intro!: call_bnd call_ret)

lemma self_test_inv:
  assumes s: "scan_inv e n P D W d s" and cls: "cls \<noteq> 0"
  shows "rt_selfTest s = Pending \<Longrightarrow> rt_selfTestObjectsChecked s < MaxSelfTestObjects \<Longrightarrow>
      scan_inv e n P D W d (s\<lparr>rt_selfTestObjectsChecked := rt_selfTestObjectsChecked s + 1\<rparr>)"
    and "rt_selfTest s = Pending \<Longrightarrow> scan_inv e n P D W d (s\<lparr>rt_selfTest := Passed\<rparr>)"
    and "lost e n x (s\<lparr>rt_gcDescTrusted := False, rt_selfTest := Failed, rt_selfTestFailedClassID := cls\<rparr>)"
proof -
  have inc: "k < MaxSelfTestObjects \<Longrightarrow> k + 1 \<le> MaxSelfTestObjects" for k
    by (simp add: MaxSelfTestObjects_def inc_le)
  have inv: "drain_inv e n P D s" using s by (simp add: scan_inv_def)
  show "scan_inv e n P D W d (s\<lparr>rt_selfTestObjectsChecked := rt_selfTestObjectsChecked s + 1\<rparr>)"
    if "rt_selfTest s = Pending" "rt_selfTestObjectsChecked s < MaxSelfTestObjects"
    using s inc [OF that(2)] by (simp add: scan_inv_def drain_inv_def traverser_ok_def)
  show "scan_inv e n P D W d (s\<lparr>rt_selfTest := Passed\<rparr>)" if "rt_selfTest s = Pending"
    using s that by (simp add: scan_inv_def drain_inv_def traverser_ok_def)
  have "seen (s\<lparr>rt_gcDescTrusted := False, rt_selfTest := Failed, rt_selfTestFailedClassID := cls\<rparr>) = seen s"
    by (simp add: seen_def)
  then show "lost e n x (s\<lparr>rt_gcDescTrusted := False, rt_selfTest := Failed, rt_selfTestFailedClassID := cls\<rparr>)"
    using inv cls by (simp add: lost_def drain_inv_def traverser_ok_def)
qed

lemma self_test_hoare:
  assumes cls: "cls \<noteq> 0"
  shows "hoare (scan_inv e n P D W d) (self_test mem pInfo cls sz)
    (\<lambda>continue s. if continue then scan_inv e n P D W d s else lost e n Fault s \<and> \<not> rt_gcDescTrusted s) (lost e n)"
proof -
  let ?p = "Some (\<lambda>c. map_sum id (\<lambda>array. array \<noteq> None) (pi_IsArrayClass pInfo c), pi_GetClassLayout pInfo)"
  obtain r where r: "(ValidateAgainstMetadata mem ?p cls sz :: (ReferenceChainTraverser, SelfTestResult) act) = call r"
    using ValidateAgainstMetadata_call by blast
  let ?Q = "\<lambda>continue s. if continue then scan_inv e n P D W d s else lost e n Fault s \<and> \<not> rt_gcDescTrusted s"
  show ?thesis
  proof (rule hoareI)
    fix s assume s: "scan_inv e n P D W d s"
    show "\<exists>res s'. self_test mem pInfo cls sz s = Some (res, s') \<and> (case res of Inl x \<Rightarrow> lost e n x s' | Inr b \<Rightarrow> ?Q b s')"
    proof (cases "rt_selfTest s = Pending \<and> rt_selfTestObjectsChecked s < MaxSelfTestObjects")
      case True
      define s1 where "s1 = s\<lparr>rt_selfTestObjectsChecked := rt_selfTestObjectsChecked s + 1\<rparr>"
      have s1: "scan_inv e n P D W d s1" "rt_selfTest s1 = Pending"
        unfolding s1_def using self_test_inv(1) [OF s cls] True by simp_all
      note run = self_test_def [of mem pInfo cls sz, unfolded r] bnd_def get_def upd_def ret_def call_def True s1_def [symmetric]
      show ?thesis
      proof (cases r)
        case (Inl x)
        then show ?thesis using scan_inv_lost [OF s1(1)] by (simp add: run)
      next
        case (Inr t)
        then show ?thesis using s1 self_test_inv(2,3) [OF s1(1) cls] by (cases t) (simp_all add: run)
      qed
    qed (use s in \<open>simp add: self_test_def bnd_def get_def ret_def\<close>)
  qed
qed

lemma heap_refs:
  assumes "frame_ok e tree f" and "v \<in> references (e_mem e) (e_pInfo e) (fr_classID f) (fr_objectAddress f) (fr_objectSize f)"
  shows "v \<in> heap e \<and> v \<noteq> 0"
proof
  show "v \<in> heap e"
    using assms by_ref [of "e_mem e" "e_pInfo e" "e_root e"] unfolding frame_ok_def heap_def by blast
  show "v \<noteq> 0" using assms(2) by (simp add: references_def IsValidObjectAddress_def)
qed

text \<open>The references of a frame, by the sign of its series count.\<close>

lemma references_neg:
  "GetSeriesCount mem cls = Inr count \<Longrightarrow> sint count < 0 \<Longrightarrow> references mem pInfo cls obj sz =
     {v \<in> (\<lambda>c. fst (snd c)) ` set (collected (EnumerateValueTypeArray mem pInfo obj cls)). IsValidObjectAddress v}"
  by (simp add: references_def)

lemma references_pos:
  "GetSeriesCount mem cls = Inr count \<Longrightarrow> \<not> sint count < 0 \<Longrightarrow> count \<noteq> 0 \<Longrightarrow> references mem pInfo cls obj sz =
     {v \<in> (\<lambda>c. fst (snd c)) ` set (collected (EnumerateObjectRefs mem cls obj sz)). IsValidObjectAddress v}"
  by (simp add: references_def)

text \<open>A callback that processes the valid references.\<close>

lemma callback_hoare:
  assumes "IsValidObjectAddress v \<Longrightarrow> hoare (scan_inv e n P D W d) m (\<lambda>_. scan_inv e n P D (insert v W) d) (lost e n)"
  shows "hoare (scan_inv e n P D W d) (if IsValidObjectAddress v then bnd m (\<lambda>_. ret ()) else ret ())
    (\<lambda>_. scan_inv e n P D (W \<union> {u \<in> {v}. IsValidObjectAddress u}) d) (lost e n)"
proof (cases "IsValidObjectAddress v")
  case True
  have "W \<union> {u \<in> {v}. IsValidObjectAddress u} = insert v W" using True by auto
  then show ?thesis using True assms by (auto intro!: hoare_bnd hoare_ret)
next
  case False
  then have w: "W \<union> {u \<in> {v}. IsValidObjectAddress u} = W" by auto
  show ?thesis unfolding w using False by (simp add: hoare_ret)
qed

lemma enumerate_hoare:
  assumes "noted (en cb) cb (en' note_ref)"
    and "\<And>slot v off W. v \<in> (\<lambda>c. fst (snd c)) ` set (collected en') \<Longrightarrow>
      hoare (scan_inv e n P D W d) (cb slot v off) (\<lambda>_. scan_inv e n P D (W \<union> {u \<in> {v}. IsValidObjectAddress u}) d) (lost e n)"
  shows "hoare (scan_inv e n P D {} d) (en cb)
    (\<lambda>_. scan_inv e n P D {v \<in> (\<lambda>c. fst (snd c)) ` set (collected en'). IsValidObjectAddress v} d) (lost e n)"
proof -
  let ?I = "\<lambda>X. scan_inv e n P D {v \<in> X. IsValidObjectAddress v} d"
  have "hoare (?I {}) (en cb) (\<lambda>_. ?I ((\<lambda>c. fst (snd c)) ` set (collected en'))) (lost e n)"
  proof (rule hoare_noted [where e = en and cb = cb and e' = en' and I = ?I])
    show "noted (en cb) cb (en' note_ref)" by (rule assms(1))
  next
    fix slot v off X assume v: "v \<in> (\<lambda>c. fst (snd c)) ` set (collected en')"
    have "{u \<in> insert v X. IsValidObjectAddress u} = {v \<in> X. IsValidObjectAddress v} \<union> {u \<in> {v}. IsValidObjectAddress u}"
      by auto
    then show "hoare (?I X) (cb slot v off) (\<lambda>_. ?I (insert v X)) (lost e n)" using assms(2) [OF v] by simp
  qed (rule scan_inv_lost)
  then show ?thesis by simp
qed

lemmas enumerate_objects_hoare =
  enumerate_hoare [where en = "EnumerateObjectRefs mem cls obj sz" and en' = "EnumerateObjectRefs mem cls obj sz" for mem cls obj sz,
    OF noted_EnumerateObjectRefs]

lemmas enumerate_array_hoare =
  enumerate_hoare [where en = "EnumerateValueTypeArray mem pInfo obj cls" and en' = "EnumerateValueTypeArray mem pInfo obj cls" for mem pInfo obj cls,
    OF noted_EnumerateValueTypeArray]

text \<open>Once all references of an object are seen it is settled.\<close>

lemma scan_settled:
  assumes f: "frame_ok e tree f" and a: "fr_objectAddress f = a"
    and s: "scan_inv e n P (insert a D) (references (e_mem e) (e_pInfo e) (fr_classID f) a (fr_objectSize f)) d s"
  shows "drain_inv e n {} D s"
proof -
  have "settled e a s" using f a s by (auto simp: settled_def frame_ok_def scan_inv_def)
  then have "drain_inv e n P D s" using s drain_inv_settle by (auto simp: scan_inv_def)
  then show ?thesis by (rule drain_inv_mono) auto
qed

lemma scan_array_hoare:
  assumes f: "frame_ok e tree f" and c: "GetSeriesCount (e_mem e) (fr_classID f) = Inr count" "sint count < 0"
    and q: "fr_treeNode f \<in> P" and d: "fr_depth f \<le> MaxTreeDepth" and room: "card (heap e) < max_entries"
  shows "hoare (scan_inv e n P (insert (fr_objectAddress f) D) {} (fr_depth f))
    (EnqueueValueTypeArrayChildren (e_mem e) (e_pInfo e) (fr_objectAddress f) (fr_classID f) (fr_treeNode f) (fr_depth f))
    (\<lambda>_. drain_inv e n {} D) (lost e n)"
proof -
  let ?cb = "\<lambda>slot refAddr offset. if refAddr = 0 \<or> \<not> IsValidObjectAddress refAddr then ret ()
      else bnd (ProcessDiscoveredRef (e_mem e) (e_pInfo e) refAddr (fr_treeNode f) (fr_depth f)) (\<lambda>_. ret ())"
  have cb: "?cb = (\<lambda>slot v off. if IsValidObjectAddress v
      then bnd (ProcessDiscoveredRef (e_mem e) (e_pInfo e) v (fr_treeNode f) (fr_depth f)) (\<lambda>_. ret ()) else ret ())"
    by (auto simp: IsValidObjectAddress_def fun_eq_iff)
  note refs = references_neg [OF c, of "e_pInfo e" "fr_objectAddress f" "fr_objectSize f"]
  let ?D = "insert (fr_objectAddress f) D"
  have "hoare (scan_inv e n P ?D {} (fr_depth f))
     (EnumerateValueTypeArray (e_mem e) (e_pInfo e) (fr_objectAddress f) (fr_classID f) ?cb)
     (\<lambda>_. scan_inv e n P ?D (references (e_mem e) (e_pInfo e) (fr_classID f) (fr_objectAddress f) (fr_objectSize f)) (fr_depth f)) (lost e n)"
    unfolding refs cb
  proof (rule enumerate_array_hoare, rule callback_hoare)
    fix slot :: u64 and v :: u64 and off :: u32 and W
    assume "v \<in> (\<lambda>c. fst (snd c)) ` set (collected (EnumerateValueTypeArray (e_mem e) (e_pInfo e) (fr_objectAddress f) (fr_classID f)))"
      and "IsValidObjectAddress v"
    then have "v \<in> heap e \<and> v \<noteq> 0" using heap_refs [OF f] refs by auto
    then show "hoare (scan_inv e n P ?D W (fr_depth f)) (ProcessDiscoveredRef (e_mem e) (e_pInfo e) v (fr_treeNode f) (fr_depth f))
        (\<lambda>_. scan_inv e n P ?D (insert v W) (fr_depth f)) (lost e n)"
      using ProcessDiscoveredRef_hoare [OF _ _ room _ q] d by simp
  qed
  then show ?thesis unfolding EnqueueValueTypeArrayChildren_def
    by (rule hoare_weaken) (use scan_settled [OF f refl] in auto)
qed

lemma scan_object_hoare:
  assumes f: "frame_ok e tree f" and c: "GetSeriesCount (e_mem e) (fr_classID f) = Inr count" "\<not> sint count < 0" "count \<noteq> 0"
    and cb: "\<And>slot v off W. v \<in> heap e \<Longrightarrow> v \<noteq> 0 \<Longrightarrow> IsValidObjectAddress v \<Longrightarrow>
      hoare (scan_inv e n P (insert (fr_objectAddress f) D) W (fr_depth f)) (m v off)
        (\<lambda>_. scan_inv e n P (insert (fr_objectAddress f) D) (insert v W) (fr_depth f)) (lost e n)"
  shows "hoare (scan_inv e n P (insert (fr_objectAddress f) D) {} (fr_depth f))
    (EnumerateObjectRefs (e_mem e) (fr_classID f) (fr_objectAddress f) (fr_objectSize f)
       (\<lambda>slot v off. if IsValidObjectAddress v then bnd (m v off) (\<lambda>_. ret ()) else ret ()))
    (\<lambda>_. drain_inv e n {} D) (lost e n)"
proof -
  note refs = references_pos [OF c, of "e_pInfo e" "fr_objectAddress f" "fr_objectSize f"]
  let ?D = "insert (fr_objectAddress f) D"
  have "hoare (scan_inv e n P ?D {} (fr_depth f))
     (EnumerateObjectRefs (e_mem e) (fr_classID f) (fr_objectAddress f) (fr_objectSize f)
       (\<lambda>slot v off. if IsValidObjectAddress v then bnd (m v off) (\<lambda>_. ret ()) else ret ()))
     (\<lambda>_. scan_inv e n P ?D (references (e_mem e) (e_pInfo e) (fr_classID f) (fr_objectAddress f) (fr_objectSize f)) (fr_depth f)) (lost e n)"
    unfolding refs
  proof (rule enumerate_objects_hoare, rule callback_hoare)
    fix slot :: u64 and v :: u64 and off :: u32 and W
    assume "v \<in> (\<lambda>c. fst (snd c)) ` set (collected (EnumerateObjectRefs (e_mem e) (fr_classID f) (fr_objectAddress f) (fr_objectSize f)))"
      and val: "IsValidObjectAddress v"
    then have "v \<in> heap e \<and> v \<noteq> 0" using heap_refs [OF f] refs by auto
    then show "hoare (scan_inv e n P ?D W (fr_depth f)) (m v off) (\<lambda>_. scan_inv e n P ?D (insert v W) (fr_depth f)) (lost e n)"
      using cb val by blast
  qed
  then show ?thesis by (rule hoare_weaken) (use scan_settled [OF f refl] in auto)
qed

lemma owner_callback:
  "(\<lambda>slot refAddr offset. if \<not> IsValidObjectAddress refAddr then ret ()
      else bnd (GetInlineValueTypeOwner mem q d offset fs 0) (\<lambda>(owner, d). bnd (ProcessDiscoveredRef mem pInfo refAddr owner d) (\<lambda>_. ret ()))) =
   (\<lambda>slot v off. if IsValidObjectAddress v
      then bnd (bnd (GetInlineValueTypeOwner mem q d off fs 0) (\<lambda>od. ProcessDiscoveredRef mem pInfo v (fst od) (snd od))) (\<lambda>_. ret ())
      else ret ())"
  by (auto simp: fun_eq_iff bnd_assoc split_def)

lemma inline_ref_hoare:
  assumes v: "v \<in> heap e" "v \<noteq> 0" and room: "card (heap e) < max_entries" and "\<not> e_plain e" and q: "q \<in> P"
    and "\<forall>f \<in> set fs. e_rank e (vf_classID f) < R"
  shows "hoare (scan_inv e n P D W d)
    (bnd (GetInlineValueTypeOwner (e_mem e) q d off fs 0) (\<lambda>od. ProcessDiscoveredRef (e_mem e) (e_pInfo e) v (fst od) (snd od)))
    (\<lambda>_. scan_inv e n P D (insert v W) d) (lost e n)"
proof (rule hoare_bnd [OF Owner_hoare [OF q assms(6)]])
  fix od :: "node_ptr \<times> u32"
  have "hoare (scan_inv e n (insert (fst od) P) D W (snd od)) (ProcessDiscoveredRef (e_mem e) (e_pInfo e) v (fst od) (snd od))
     (\<lambda>_. scan_inv e n (insert (fst od) P) D (insert v W) (snd od)) (lost e n)"
    using assms(4) by (intro ProcessDiscoveredRef_hoare v room) auto
  then show "hoare ((\<lambda>(owner, _). scan_inv e n (insert owner P) D W d) od) (ProcessDiscoveredRef (e_mem e) (e_pInfo e) v (fst od) (snd od))
     (\<lambda>_. scan_inv e n P D (insert v W) d) (lost e n)"
    by (rule hoare_weaken) (use assms(4) in \<open>auto simp: scan_inv_def intro: drain_inv_mono split: prod.splits\<close>)
qed

lemma scan_inv_cut:
  assumes "scan_inv e n P D' W d s" and "\<not> d \<le> MaxTreeDepth"
  shows "drain_inv e n {} D s"
proof -
  have inv: "drain_inv e n P D' s" and dep: "e_plain e \<longrightarrow> unat d \<le> card (seen s)" using assms(1) by (auto simp: scan_inv_def)
  have "card (seen s) \<le> card (heap e)" using inv by (intro card_mono) (auto simp: drain_inv_def)
  then have "\<not> (e_plain e \<and> card (heap e) \<le> unat MaxTreeDepth)" using dep assms(2) by (auto simp: word_le_nat_alt)
  then show ?thesis using inv unfolding drain_inv_def by (elim conjE, intro conjI) auto
qed

lemma scan_references_hoare:
  assumes f: "frame_ok e tree f" and room: "card (heap e) < max_entries" and d: "fr_depth f \<le> MaxTreeDepth"
    and c: "GetSeriesCount (e_mem e) (fr_classID f) = Inr count"
  shows "hoare (scan_inv e n {fr_treeNode f} (insert (fr_objectAddress f) D) {} (fr_depth f))
    (scan_references (e_mem e) (e_pInfo e) f count) (\<lambda>_. drain_inv e n {} D) (lost e n)" (is "hoare ?P _ ?Q _")
proof -
  consider "sint count < 0" | "\<not> sint count < 0" "count = 0" | "\<not> sint count < 0" "count \<noteq> 0" by blast
  then show ?thesis
  proof cases
    case 1
    then show ?thesis using scan_array_hoare [OF f c 1 _ d room] by (simp add: scan_references_def)
  next
    case 2
    then have "references (e_mem e) (e_pInfo e) (fr_classID f) (fr_objectAddress f) (fr_objectSize f) = {}"
      using c by (simp add: references_def)
    then have "hoare ?P (ret ()) ?Q (lost e n)"
      using scan_settled [OF f refl, of n "{fr_treeNode f}" D "fr_depth f"] by (intro hoare_ret) simp
    then show ?thesis using 2 by (simp add: scan_references_def)
  next
    case 3
    have plain: "hoare ?P (EnumerateObjectRefs (e_mem e) (fr_classID f) (fr_objectAddress f) (fr_objectSize f)
        (\<lambda>slot v off. if IsValidObjectAddress v
           then bnd (ProcessDiscoveredRef (e_mem e) (e_pInfo e) v (fr_treeNode f) (fr_depth f)) (\<lambda>_. ret ()) else ret ())) ?Q (lost e n)"
      by (rule scan_object_hoare [OF f c 3]) (use d in \<open>auto intro!: ProcessDiscoveredRef_hoare room\<close>)
    have inline: "hoare ?P (bnd (AddInlineValueTypeInstances (e_mem e) (fr_treeNode f) fs) (\<lambda>_.
        EnumerateObjectRefs (e_mem e) (fr_classID f) (fr_objectAddress f) (fr_objectSize f)
          (\<lambda>slot refAddr offset. if \<not> IsValidObjectAddress refAddr then ret ()
             else bnd (GetInlineValueTypeOwner (e_mem e) (fr_treeNode f) (fr_depth f) offset fs 0) (\<lambda>(owner, d).
               bnd (ProcessDiscoveredRef (e_mem e) (e_pInfo e) refAddr owner d) (\<lambda>_. ret ()))))) ?Q (lost e n)"
      if "\<not> e_plain e" and r: "\<forall>g \<in> set fs. e_rank e (vf_classID g) < e_rank e (fr_classID f)" for fs
      unfolding owner_callback
      by (rule hoare_bnd [OF AddInline_hoare [OF _ r]], simp, rule scan_object_hoare [OF f c 3])
        (auto intro!: inline_ref_hoare [OF _ _ room that(1) _ r])
    have branch: "hoare (\<lambda>s. ?P s \<and> (\<forall>fs. i = Some fs \<longrightarrow> \<not> e_plain e \<and> (\<forall>g \<in> set fs. e_rank e (vf_classID g) < e_rank e (fr_classID f))))
        (case i of None \<Rightarrow> EnumerateObjectRefs (e_mem e) (fr_classID f) (fr_objectAddress f) (fr_objectSize f)
           (\<lambda>slot v off. if IsValidObjectAddress v
              then bnd (ProcessDiscoveredRef (e_mem e) (e_pInfo e) v (fr_treeNode f) (fr_depth f)) (\<lambda>_. ret ()) else ret ())
         | Some fs \<Rightarrow> bnd (AddInlineValueTypeInstances (e_mem e) (fr_treeNode f) fs) (\<lambda>_.
             EnumerateObjectRefs (e_mem e) (fr_classID f) (fr_objectAddress f) (fr_objectSize f)
               (\<lambda>slot refAddr offset. if \<not> IsValidObjectAddress refAddr then ret ()
                  else bnd (GetInlineValueTypeOwner (e_mem e) (fr_treeNode f) (fr_depth f) offset fs 0) (\<lambda>(owner, d).
                    bnd (ProcessDiscoveredRef (e_mem e) (e_pInfo e) refAddr owner d) (\<lambda>_. ret ()))))) ?Q (lost e n)" for i
    proof (cases i)
      case None
      then show ?thesis using plain by (auto elim: hoare_pre)
    next
      case (Some fs)
      show ?thesis unfolding Some option.case
        by (rule hoare_pre [where P' = "\<lambda>s. (\<not> e_plain e \<and> (\<forall>g \<in> set fs. e_rank e (vf_classID g) < e_rank e (fr_classID f))) \<and> ?P s"],
            rule hoare_fact, rule inline) auto
    qed
    show ?thesis using 3 by (simp add: scan_references_def) (rule hoare_bnd [OF cache_GetInlineVTInfo_hoare branch])
  qed
qed

lemma scan_frame_hoare:
  assumes f: "frame_ok e tree f" and room: "card (heap e) < max_entries"
  shows "hoare (scan_inv e n {fr_treeNode f} (insert (fr_objectAddress f) D) {} (fr_depth f)) (scan_frame (e_mem e) (e_pInfo e) f)
    (\<lambda>continue s. if continue then drain_inv e n {} D s else lost e n Fault s \<and> \<not> rt_gcDescTrusted s) (lost e n)"
    (is "hoare ?P _ ?Q _")
proof (cases "fr_depth f > MaxTreeDepth")
  case True
  have "hoare ?P (ret True) ?Q (lost e n)"
    by (rule hoare_ret) (use True scan_inv_cut in \<open>auto simp: not_le\<close>)
  then show ?thesis using True by (simp add: scan_frame_def)
next
  case False
  then have d: "fr_depth f \<le> MaxTreeDepth" by simp
  have gc: "ContainsGCPointers (e_mem e) (fr_classID f) = Inr True" using f by (simp add: frame_ok_def)
  then have cls: "fr_classID f \<noteq> 0" by (auto simp: ContainsGCPointers_def)
  have refs: "hoare ?P (bnd (call (GetSeriesCount (e_mem e) (fr_classID f)))
      (\<lambda>count. bnd (scan_references (e_mem e) (e_pInfo e) f count) (\<lambda>_. ret True))) ?Q (lost e n)"
    by (rule hoare_scan_call, rule hoare_bnd [OF scan_references_hoare [OF f room d]], assumption, rule hoare_ret) simp
  have start: "hoare ?P (upd (\<lambda>s. s\<lparr>rt_objectsTraversed := rt_objectsTraversed s + 1\<rparr>)) (\<lambda>_. ?P) (lost e n)"
    by (rule hoare_upd) (simp add: scan_inv_def drain_inv_def traverser_ok_def)
  have rest: "hoare (\<lambda>s. if b then ?P s else lost e n Fault s \<and> \<not> rt_gcDescTrusted s)
      (if \<not> b then ret False else bnd (call (GetSeriesCount (e_mem e) (fr_classID f)))
        (\<lambda>count. bnd (scan_references (e_mem e) (e_pInfo e) f count) (\<lambda>_. ret True))) ?Q (lost e n)" for b
    using refs by (cases b) (auto intro: hoare_ret)
  show ?thesis using False gc
    by (simp add: scan_frame_def split del: if_split) (rule hoare_bnd [OF start], rule hoare_bnd [OF self_test_hoare [OF cls] rest])
qed

section \<open>Draining the stack\<close>

lemma drain_inv_pop:
  assumes inv: "drain_inv e n P D s" and st: "rt_traversalStack s = f # fs"
  shows "0 < n \<and> frame_ok e (rt_tree s) f
    \<and> scan_inv e (n - 1) {fr_treeNode f} (insert (fr_objectAddress f) D) {} (fr_depth f) (s\<lparr>rt_traversalStack := fs\<rparr>)"
proof -
  have f: "frame_ok e (rt_tree s) f" using inv st by (simp add: drain_inv_def)
  have settled: "settled e a (s\<lparr>rt_traversalStack := fs\<rparr>)" if "settled e a s" "a \<noteq> fr_objectAddress f" for a
    using that st by (auto simp: settled_def)
  have "drain_inv e (n - 1) {fr_treeNode f} (insert (fr_objectAddress f) D) (s\<lparr>rt_traversalStack := fs\<rparr>)"
    unfolding drain_inv_def
  proof (intro conjI)
    show "e_plain e \<and> card (heap e) \<le> unat MaxTreeDepth \<longrightarrow>
      (\<forall>a \<in> seen (s\<lparr>rt_traversalStack := fs\<rparr>) - insert (fr_objectAddress f) D. settled e a (s\<lparr>rt_traversalStack := fs\<rparr>))"
      using inv settled unfolding drain_inv_def seen_simps by blast
    show "length (rt_traversalStack (s\<lparr>rt_traversalStack := fs\<rparr>)) + card (heap e - seen (s\<lparr>rt_traversalStack := fs\<rparr>)) \<le> n - 1"
      using inv st by (auto simp: drain_inv_def)
    show "\<forall>q \<in> {fr_treeNode f}. valid_ptr (rt_tree (s\<lparr>rt_traversalStack := fs\<rparr>)) q" using f by (simp add: frame_ok_def)
  qed (use inv st in \<open>simp_all add: drain_inv_def traverser_ok_def\<close>)
  then show ?thesis using inv st f by (auto simp: scan_inv_def drain_inv_def)
qed

lemma DrainTraversalStack_hoare:
  assumes room: "card (heap e) < max_entries"
  shows "hoare (drain_inv e n {} D) (DrainTraversalStack (e_mem e) (e_pInfo e))
    (\<lambda>_ s. rt_traversalStack s = [] \<and> drain_inv e n {} D s \<or> \<not> rt_gcDescTrusted s \<and> lost e n Fault s) (\<lambda>_. lost e n Fault)"
proof (induction n rule: less_induct)
  case (less n)
  show ?case
  proof (rule hoareI)
    fix s assume s: "drain_inv e n {} D s"
    let ?Q = "\<lambda>s. rt_traversalStack s = [] \<and> drain_inv e n {} D s \<or> \<not> rt_gcDescTrusted s \<and> lost e n Fault s"
    show "\<exists>r s'. DrainTraversalStack (e_mem e) (e_pInfo e) s = Some (r, s') \<and> (case r of Inl x \<Rightarrow> lost e n Fault s' | Inr _ \<Rightarrow> ?Q s')"
    proof (cases "rt_traversalStack s")
      case Nil
      then show ?thesis using s by (simp add: DrainTraversalStack.simps)
    next
      case (Cons f fs)
      let ?s = "s\<lparr>rt_traversalStack := fs\<rparr>"
      have pop: "0 < n" "frame_ok e (rt_tree s) f"
        "scan_inv e (n - 1) {fr_treeNode f} (insert (fr_objectAddress f) D) {} (fr_depth f) ?s"
        using drain_inv_pop [OF s Cons] by blast+
      obtain r s1 where r: "scan_frame (e_mem e) (e_pInfo e) f ?s = Some (r, s1)"
        "case r of Inl x \<Rightarrow> lost e (n - 1) x s1
         | Inr c \<Rightarrow> if c then drain_inv e (n - 1) {} D s1 else lost e (n - 1) Fault s1 \<and> \<not> rt_gcDescTrusted s1"
        using hoareD [OF scan_frame_hoare [OF pop(2) room] pop(3)] by blast
      have lost: "lost e (n - 1) x s' \<Longrightarrow> lost e n Fault s'" for x s' using lost_mono [of e "n - 1" Fault s' n] by (simp add: lost_def)
      have drain: "DrainTraversalStack (e_mem e) (e_pInfo e) s = (case r of Inl x \<Rightarrow> Some (Inl x, s1)
          | Inr c \<Rightarrow> if c then DrainTraversalStack (e_mem e) (e_pInfo e) s1 else Some (Inr (), s1))"
        using Cons r(1) by (subst DrainTraversalStack.simps) simp
      show ?thesis
      proof (cases r)
        case (Inl x)
        then show ?thesis using r(2) drain lost by auto
      next
        case (Inr c)
        show ?thesis
        proof (cases c)
          case True
          have "n - 1 < n" using pop(1) by simp
          from hoareD [OF less.IH [OF this], of s1] Inr True r(2) obtain r' s' where
            r': "DrainTraversalStack (e_mem e) (e_pInfo e) s1 = Some (r', s')"
            "case r' of Inl x \<Rightarrow> lost e (n - 1) Fault s' | Inr _ \<Rightarrow> rt_traversalStack s' = [] \<and> drain_inv e (n - 1) {} D s'
               \<or> \<not> rt_gcDescTrusted s' \<and> lost e (n - 1) Fault s'" by auto
          moreover have "drain_inv e (n - 1) {} D s' \<Longrightarrow> drain_inv e n {} D s'" by (erule drain_inv_mono) auto
          ultimately show ?thesis using drain Inr True lost by (cases r') auto
        next
          case False
          then show ?thesis using drain Inr r(2) lost by auto
        qed
      qed
    qed
  qed
qed

lemma RunGuarded_hoare:
  assumes "hoare P body (\<lambda>_. Q) (\<lambda>_. L)"
  shows "hoare (\<lambda>gs. \<not> g_inGuardedRegion (fst gs) \<and> P (snd gs)) (RunGuarded segv bus body)
    (\<lambda>ok gs. \<not> g_inGuardedRegion (fst gs) \<and> (if ok then Q (snd gs)
       else (\<exists>s. L s \<and> snd gs = OnTraversalFault s) \<or> \<not> (segv \<and> bus) \<and> (\<exists>s. P s \<and> snd gs = OnFaultGuardUnavailable s)))
    (\<lambda>x gs. x = Thrown \<and> \<not> g_inGuardedRegion (fst gs) \<and> L (snd gs))"
  unfolding RunGuarded_def
proof (rule hoare_bnd [OF hoare_Run [OF assms]])
  fix r
  show "hoare (\<lambda>gs. \<not> g_inGuardedRegion (fst gs) \<and>
       (case r of Completed \<Rightarrow> Q (snd gs) | Faulted \<Rightarrow> L (snd gs) | Unavailable \<Rightarrow> \<not> (segv \<and> bus) \<and> P (snd gs)))
     (case r of Completed \<Rightarrow> ret True | Faulted \<Rightarrow> bnd (upd (apsnd OnTraversalFault)) (\<lambda>_. ret False)
      | Unavailable \<Rightarrow> bnd (upd (apsnd OnFaultGuardUnavailable)) (\<lambda>_. ret False))
     (\<lambda>ok gs. \<not> g_inGuardedRegion (fst gs) \<and> (if ok then Q (snd gs)
       else (\<exists>s. L s \<and> snd gs = OnTraversalFault s) \<or> \<not> (segv \<and> bus) \<and> (\<exists>s. P s \<and> snd gs = OnFaultGuardUnavailable s)))
     (\<lambda>x gs. x = Thrown \<and> \<not> g_inGuardedRegion (fst gs) \<and> L (snd gs))"
    by (cases r) (auto simp: hoare_def bnd_def ret_def upd_def)
qed

section \<open>Faults, exceptions and the resume loop\<close>

definition env_at :: "env \<Rightarrow> u32 \<Rightarrow> TraversalStopReason \<Rightarrow> env" where
  "env_at e k st = e\<lparr>e_faults := k, e_stop := st\<rparr>"

text \<open>The budget: below the limit as long as the dump goes on.\<close>

definition budget_ok :: "u32 \<Rightarrow> TraversalStopReason \<Rightarrow> bool" where
  "budget_ok k st \<longleftrightarrow> k \<le> MaxFaultsPerDump \<and> (st = NoStop \<longrightarrow> k < MaxFaultsPerDump)"

lemma env_at_simps [simp]:
  "heap (env_at e k st) = heap e" "env_at (env_at e k st) k' st' = env_at e k' st'" "env_at e (e_faults e) (e_stop e) = e"
  "e_faults (env_at e k st) = k" "e_stop (env_at e k st) = st" "e_mem (env_at e k st) = e_mem e" "e_pInfo (env_at e k st) = e_pInfo e"
  by (simp_all add: env_at_def heap_def)

lemma MarkPossiblyInconsistent_same [simp]:
  "wf_visited (MarkPossiblyInconsistent v) \<longleftrightarrow> wf_visited v" "visited_map (MarkPossiblyInconsistent v) = visited_map v"
  by (simp_all add: MarkPossiblyInconsistent_def wf_visited_def table_shape_def visited_map_def fun_eq_iff)

lemma lost_update:
  assumes "lost e n x s" and "rt_faultCount s' = k" and "rt_stopReason s' = st" and "seen s' = seen s" and "rt_tree s' = rt_tree s"
    and "rt_inlineVTCache s' = rt_inlineVTCache s" and "set (rt_traversalStack s') \<subseteq> set (rt_traversalStack s)"
    and "length (rt_traversalStack s') \<le> length (rt_traversalStack s)" and "wf_visited (rt_visited s')"
    and "rt_selfTestObjectsChecked s' = rt_selfTestObjectsChecked s" "rt_gcDescTrusted s' = rt_gcDescTrusted s"
      "rt_selfTest s' = rt_selfTest s" "rt_selfTestFailedClassID s' = rt_selfTestFailedClassID s"
  shows "lost (env_at e k st) n y s'"
proof -
  have "frame_ok (env_at e k st) t f = frame_ok e t f" for t f by (simp add: frame_ok_def heap_def env_at_def)
  then show ?thesis
    using assms unfolding lost_def drain_inv_def traverser_ok_def by (auto simp: env_at_def heap_def)
qed

lemma lost_wf: "lost e n x s \<Longrightarrow> wf_visited (rt_visited s)"
  by (simp add: lost_def drain_inv_def traverser_ok_def)

lemma OnTraversalFault_lost:
  assumes "lost e n x s" and "e_stop e = NoStop" and "e_faults e < MaxFaultsPerDump"
  shows "\<exists>st. budget_ok (e_faults e + 1) st \<and> (st = NoStop \<or> st = FaultBudgetExhausted)
    \<and> lost (env_at e (e_faults e + 1) st) n Fault (OnTraversalFault s)"
proof -
  have fc: "rt_faultCount s = e_faults e" "rt_stopReason s = NoStop" using assms(1,2) by (auto simp: lost_def drain_inv_def)
  let ?st = "if e_faults e + 1 \<ge> MaxFaultsPerDump then FaultBudgetExhausted else NoStop"
  have "e_faults e + 1 \<le> MaxFaultsPerDump" using assms(3) by (simp add: MaxFaultsPerDump_def inc_le)
  then have "budget_ok (e_faults e + 1) ?st" by (auto simp: budget_ok_def)
  moreover have "lost (env_at e (e_faults e + 1) ?st) n Fault (OnTraversalFault s)"
    by (rule lost_update [OF assms(1)]) (use fc lost_wf [OF assms(1)] in \<open>simp_all add: OnTraversalFault_def Let_def seen_def\<close>)
  ultimately show ?thesis by fastforce
qed

lemma OnFaultGuardUnavailable_lost:
  assumes "lost e n x s"
  shows "lost (env_at e (e_faults e) FaultGuardUnavailable) n Fault (OnFaultGuardUnavailable s)"
  by (rule lost_update [OF assms]) (use assms in \<open>simp_all add: lost_def drain_inv_def traverser_ok_def OnFaultGuardUnavailable_def seen_def\<close>)

lemma OnTraversalAborted_lost:
  assumes "lost e n x s"
  shows "lost (env_at e (e_faults e) UnexpectedException) n Fault (OnTraversalAborted s)"
  by (rule lost_update [OF assms]) (use assms in \<open>simp_all add: lost_def drain_inv_def traverser_ok_def OnTraversalAborted_def seen_def\<close>)

lemma lost_pop:
  assumes "lost e n x s"
  shows "lost e n x (s\<lparr>rt_traversalStack := tl (rt_traversalStack s)\<rparr>)"
proof -
  have "lost (env_at e (e_faults e) (e_stop e)) n x (s\<lparr>rt_traversalStack := tl (rt_traversalStack s)\<rparr>)"
    by (rule lost_update [OF assms])
      (use assms lost_wf [OF assms] in \<open>auto simp: lost_def drain_inv_def seen_def intro: list.set_sel(2) set_mono_suffix\<close>)
  then show ?thesis by simp
qed

lemma resume_stop:
  "\<not> (rt_traversalStack (snd gs) \<noteq> [] \<and> rt_gcDescTrusted (snd gs) \<and> rt_stopReason (snd gs) = NoStop) \<Longrightarrow>
     resume_loop segv bus mem pInfo gs = Some (Inr (), gs)"
  by (subst resume_loop.simps) auto

text \<open>What holds when the resume loop is left.\<close>

definition resumed :: "bool \<Rightarrow> env \<Rightarrow> nat \<Rightarrow> u64 set \<Rightarrow> ReferenceChainTraverser \<Rightarrow> bool" where
  "resumed guard e n D s \<longleftrightarrow> (\<exists>k st. budget_ok k st \<and> (guard \<longrightarrow> st \<noteq> FaultGuardUnavailable) \<and> e_faults e \<le> k
     \<and> lost (env_at e k st) n Fault s
     \<and> (k = e_faults e \<and> st = NoStop \<and> rt_gcDescTrusted s \<longrightarrow> rt_traversalStack s = [] \<and> drain_inv e n {} D s))"

definition aborted :: "env \<Rightarrow> nat \<Rightarrow> ReferenceChainTraverser \<Rightarrow> bool" where
  "aborted e n s \<longleftrightarrow> (\<exists>k. budget_ok k NoStop \<and> e_faults e \<le> k \<and> lost (env_at e k NoStop) n Fault s)"

text \<open>One iteration: the drain ends, or a fault is counted, or the guard is not available.\<close>

definition drained :: "env \<Rightarrow> nat \<Rightarrow> u64 set \<Rightarrow> ReferenceChainTraverser \<Rightarrow> bool" where
  "drained e n D s \<longleftrightarrow> rt_traversalStack s = [] \<and> drain_inv e n {} D s \<or> \<not> rt_gcDescTrusted s \<and> lost e n Fault s"

lemma drained_faults: "drained e n D s \<Longrightarrow> rt_faultCount s = e_faults e"
  by (auto simp: drained_def drain_inv_def lost_def)

lemma resume_iteration:
  assumes room: "card (heap e) < max_entries" and e: "e_stop e = NoStop" "e_faults e < MaxFaultsPerDump"
    and gs: "\<not> g_inGuardedRegion (fst gs)" "drain_inv e n {} D (snd gs)"
    and go: "rt_traversalStack (snd gs) \<noteq> []" "rt_gcDescTrusted (snd gs)"
  shows "\<exists>(r :: abort + unit) gs2. resume_loop segv bus (e_mem e) (e_pInfo e) gs = (case r of Inl x \<Rightarrow> Some (Inl x, gs2)
        | Inr _ \<Rightarrow> resume_loop segv bus (e_mem e) (e_pInfo e) gs2)
    \<and> \<not> g_inGuardedRegion (fst gs2)
    \<and> (case r of Inl x \<Rightarrow> x = Thrown \<and> lost e n Fault (snd gs2)
       | Inr _ \<Rightarrow> drained e n D (snd gs2)
           \<or> (\<exists>st. budget_ok (e_faults e + 1) st \<and> (st = NoStop \<or> st = FaultBudgetExhausted) \<and> lost (env_at e (e_faults e + 1) st) n Fault (snd gs2))
           \<or> \<not> (segv \<and> bus) \<and> lost (env_at e (e_faults e) FaultGuardUnavailable) n Fault (snd gs2))"
proof -
  obtain r gs1 where r: "RunGuarded segv bus (DrainTraversalStack (e_mem e) (e_pInfo e)) gs = Some (r, gs1)"
    "case r of Inl x \<Rightarrow> x = Thrown \<and> \<not> g_inGuardedRegion (fst gs1) \<and> lost e n Fault (snd gs1)
     | Inr ok \<Rightarrow> \<not> g_inGuardedRegion (fst gs1) \<and> (if ok then drained e n D (snd gs1)
         else (\<exists>s. lost e n Fault s \<and> snd gs1 = OnTraversalFault s)
           \<or> \<not> (segv \<and> bus) \<and> (\<exists>s. drain_inv e n {} D s \<and> snd gs1 = OnFaultGuardUnavailable s))"
    using hoareD [OF RunGuarded_hoare [OF DrainTraversalStack_hoare [OF room]], of gs n D segv bus] gs unfolding drained_def by blast
  define gs2 where "gs2 = (if rt_faultCount (snd gs1) \<noteq> rt_faultCount (snd gs) \<and> rt_objectsTraversed (snd gs1) = rt_objectsTraversed (snd gs)
         \<and> rt_traversalStack (snd gs1) \<noteq> []
      then (fst gs1, (snd gs1)\<lparr>rt_traversalStack := tl (rt_traversalStack (snd gs1))\<rparr>) else gs1)"
  have fc: "rt_faultCount (snd gs) = e_faults e" "rt_stopReason (snd gs) = NoStop" using gs e by (simp_all add: drain_inv_def)
  have loop: "resume_loop segv bus (e_mem e) (e_pInfo e) gs = (case r of Inl x \<Rightarrow> Some (Inl x, gs1)
      | Inr _ \<Rightarrow> resume_loop segv bus (e_mem e) (e_pInfo e) gs2)"
    using go fc(2) r(1) by (subst resume_loop.simps) (cases r; simp add: gs2_def)
  have gs2: "fst gs2 = fst gs1" "\<And>e'. lost e' n Fault (snd gs1) \<Longrightarrow> lost e' n Fault (snd gs2)"
    "drained e n D (snd gs1) \<Longrightarrow> gs2 = gs1"
    using lost_pop drained_faults fc by (auto simp: gs2_def)
  show ?thesis
  proof (cases r)
    case (Inl x)
    then show ?thesis using r(2) loop by (intro exI [of _ "Inl x"] exI [of _ gs1]) simp
  next
    case (Inr ok)
    have "drained e n D (snd gs2)
       \<or> (\<exists>st. budget_ok (e_faults e + 1) st \<and> (st = NoStop \<or> st = FaultBudgetExhausted) \<and> lost (env_at e (e_faults e + 1) st) n Fault (snd gs2))
       \<or> \<not> (segv \<and> bus) \<and> lost (env_at e (e_faults e) FaultGuardUnavailable) n Fault (snd gs2)"
    proof -
      consider "drained e n D (snd gs1)" | s where "lost e n Fault s" "snd gs1 = OnTraversalFault s"
        | s where "\<not> (segv \<and> bus)" "drain_inv e n {} D s" "snd gs1 = OnFaultGuardUnavailable s"
        using r(2) Inr by (auto split: if_splits)
      then show ?thesis
      proof cases
        case 2
        then show ?thesis using OnTraversalFault_lost [OF 2(1) e] gs2(2) by auto
      next
        case 3
        then show ?thesis using OnFaultGuardUnavailable_lost [OF drain_inv_lost [OF 3(2)]] gs2(2) by auto
      qed (use gs2(3) in simp)
    qed
    then show ?thesis using r(2) Inr loop gs2(1) by (intro exI [of _ "Inr ()"] exI [of _ gs2]) simp
  qed
qed

lemma drained_resumed:
  assumes "drained e n D s" and "e_stop e = NoStop" and "e_faults e < MaxFaultsPerDump"
  shows "resumed guard e n D s"
proof -
  have "env_at e (e_faults e) NoStop = e" using assms(2) env_at_simps(3) [of e] by simp
  then show ?thesis
    using assms drain_inv_lost [of e n "{}" D s Fault] unfolding resumed_def drained_def budget_ok_def
    by (intro exI [of _ "e_faults e"] exI [of _ NoStop]) auto
qed

lemma resumed_later:
  assumes "e_faults e \<le> e_faults e + 1" "e_faults e + 1 \<noteq> e_faults e"
  shows "resumed guard (env_at e (e_faults e + 1) NoStop) n D' s \<Longrightarrow> resumed guard e n D s"
    and "aborted (env_at e (e_faults e + 1) NoStop) n s \<Longrightarrow> aborted e n s"
  using assms unfolding resumed_def aborted_def by fastforce+

lemma stopped_resumed:
  assumes "lost (env_at e k st) n Fault s" and "budget_ok k st" and "e_faults e \<le> k" and "guard \<longrightarrow> st \<noteq> FaultGuardUnavailable" and "st \<noteq> NoStop"
  shows "resumed guard e n D s \<and> rt_stopReason s \<noteq> NoStop"
  using assms unfolding resumed_def by (auto simp: lost_def drain_inv_def)

lemma resume_again:
  assumes ih: "hoare (\<lambda>gs. \<not> g_inGuardedRegion (fst gs) \<and> drain_inv (env_at e (e_faults e + 1) NoStop) n {} UNIV (snd gs)) loop
      (\<lambda>_ gs. \<not> g_inGuardedRegion (fst gs) \<and> resumed guard (env_at e (e_faults e + 1) NoStop) n UNIV (snd gs))
      (\<lambda>x gs. x = Thrown \<and> \<not> g_inGuardedRegion (fst gs) \<and> aborted (env_at e (e_faults e + 1) NoStop) n (snd gs))"
    and gs: "\<not> g_inGuardedRegion (fst gs)" "lost (env_at e (e_faults e + 1) NoStop) n Fault (snd gs)"
    and faults: "e_faults e \<le> e_faults e + 1" "unat (e_faults e + 1) = Suc (unat (e_faults e))"
  shows "\<exists>r gs'. loop gs = Some (r, gs') \<and> (case r of Inl x \<Rightarrow> x = Thrown \<and> \<not> g_inGuardedRegion (fst gs') \<and> aborted e n (snd gs')
     | Inr _ \<Rightarrow> \<not> g_inGuardedRegion (fst gs') \<and> resumed guard e n D (snd gs'))"
proof -
  let ?e = "env_at e (e_faults e + 1) NoStop"
  obtain r gs' where l: "loop gs = Some (r, gs')" "case r of Inl x \<Rightarrow> x = Thrown \<and> \<not> g_inGuardedRegion (fst gs') \<and> aborted ?e n (snd gs')
      | Inr _ \<Rightarrow> \<not> g_inGuardedRegion (fst gs') \<and> resumed guard ?e n UNIV (snd gs')"
    using hoareD [OF ih, of gs] gs by (auto simp: lost_def)
  have ne: "e_faults e + 1 \<noteq> e_faults e" using faults(2) by auto
  show ?thesis using l resumed_later [OF faults(1) ne] by (intro exI [of _ r] exI [of _ gs']) (auto split: sum.splits)
qed

lemma resume_loop_hoare:
  assumes "card (heap e) < max_entries" and "e_stop e = NoStop" and "e_faults e < MaxFaultsPerDump"
  shows "hoare (\<lambda>gs. \<not> g_inGuardedRegion (fst gs) \<and> drain_inv e n {} D (snd gs)) (resume_loop segv bus (e_mem e) (e_pInfo e))
    (\<lambda>_ gs. \<not> g_inGuardedRegion (fst gs) \<and> resumed (segv \<and> bus) e n D (snd gs))
    (\<lambda>x gs. x = Thrown \<and> \<not> g_inGuardedRegion (fst gs) \<and> aborted e n (snd gs))"
  using assms
proof (induction "unat MaxFaultsPerDump - unat (e_faults e)" arbitrary: e D rule: less_induct)
  case less
  let ?loop = "resume_loop segv bus (e_mem e) (e_pInfo e)"
  let ?Q = "\<lambda>(gs :: GuardState \<times> ReferenceChainTraverser). \<not> g_inGuardedRegion (fst gs) \<and> resumed (segv \<and> bus) e n D (snd gs)"
  let ?E = "\<lambda>x (gs :: GuardState \<times> ReferenceChainTraverser). x = Thrown \<and> \<not> g_inGuardedRegion (fst gs) \<and> aborted e n (snd gs)"
  let ?ok = "\<lambda>gs. \<exists>r gs'. ?loop gs = Some (r, gs') \<and> (case r of Inl x \<Rightarrow> ?E x gs' | Inr _ \<Rightarrow> ?Q gs')"
  have now: "budget_ok (e_faults e) NoStop" "env_at e (e_faults e) NoStop = e"
    using less.prems(2,3) env_at_simps(3) [of e] by (auto simp: budget_ok_def)
  have stop: "?ok gs" if "rt_traversalStack (snd gs) = [] \<or> \<not> rt_gcDescTrusted (snd gs) \<or> rt_stopReason (snd gs) \<noteq> NoStop" "?Q gs" for gs
    using resume_stop [of gs segv bus "e_mem e" "e_pInfo e"] that by auto
  have finished: "?ok gs" if "drained e n D (snd gs)" "\<not> g_inGuardedRegion (fst gs)" for gs
    using that drained_resumed [OF that(1) less.prems(2,3)] by (intro stop) (auto simp: drained_def)
  have faults: "e_faults e \<le> e_faults e + 1" "unat (e_faults e + 1) = Suc (unat (e_faults e))"
    using less.prems(3) by (auto simp: MaxFaultsPerDump_def word_less_nat_alt word_le_nat_alt unat_word_ariths)
  show ?case
  proof (rule hoareI)
    fix gs :: "GuardState \<times> ReferenceChainTraverser"
    assume gs: "\<not> g_inGuardedRegion (fst gs) \<and> drain_inv e n {} D (snd gs)"
    show "?ok gs"
    proof (cases "rt_traversalStack (snd gs) \<noteq> [] \<and> rt_gcDescTrusted (snd gs)")
      case False
      then show ?thesis using gs drain_inv_lost by (intro finished) (auto simp: drained_def)
    next
      case True
      obtain r :: "abort + unit" and gs2 where r: "?loop gs = (case r of Inl x \<Rightarrow> Some (Inl x, gs2) | Inr _ \<Rightarrow> ?loop gs2)" "\<not> g_inGuardedRegion (fst gs2)"
        "case r of Inl x \<Rightarrow> x = Thrown \<and> lost e n Fault (snd gs2)
         | Inr _ \<Rightarrow> drained e n D (snd gs2)
           \<or> (\<exists>st. budget_ok (e_faults e + 1) st \<and> (st = NoStop \<or> st = FaultBudgetExhausted) \<and> lost (env_at e (e_faults e + 1) st) n Fault (snd gs2))
           \<or> \<not> (segv \<and> bus) \<and> lost (env_at e (e_faults e) FaultGuardUnavailable) n Fault (snd gs2)"
        using resume_iteration [OF less.prems, of gs n D segv bus] gs True by blast
      show ?thesis
      proof (cases r)
        case (Inl x)
        then show ?thesis using r now by (auto simp: aborted_def)
      next
        case (Inr u)
        then consider "drained e n D (snd gs2)"
          | st where "budget_ok (e_faults e + 1) st" "st = FaultBudgetExhausted" "lost (env_at e (e_faults e + 1) st) n Fault (snd gs2)"
          | "budget_ok (e_faults e + 1) NoStop" "lost (env_at e (e_faults e + 1) NoStop) n Fault (snd gs2)"
          | "\<not> (segv \<and> bus)" "lost (env_at e (e_faults e) FaultGuardUnavailable) n Fault (snd gs2)"
          using r(3) by auto
        then have "?ok gs2"
        proof cases
          case 1
          then show ?thesis using finished r(2) by blast
        next
          case (2 st)
          then show ?thesis using stopped_resumed [of e "e_faults e + 1" st n "snd gs2" "segv \<and> bus" D] r(2) faults(1) by (intro stop) auto
        next
          case 3
          let ?e = "env_at e (e_faults e + 1) NoStop"
          have "unat MaxFaultsPerDump - unat (e_faults ?e) < unat MaxFaultsPerDump - unat (e_faults e)"
            using faults(2) less.prems(3) by (simp add: word_less_nat_alt)
          then have "hoare (\<lambda>gs. \<not> g_inGuardedRegion (fst gs) \<and> drain_inv ?e n {} UNIV (snd gs)) ?loop
              (\<lambda>_ gs. \<not> g_inGuardedRegion (fst gs) \<and> resumed (segv \<and> bus) ?e n UNIV (snd gs))
              (\<lambda>x gs. x = Thrown \<and> \<not> g_inGuardedRegion (fst gs) \<and> aborted ?e n (snd gs))"
            using less.hyps [of ?e UNIV] less.prems(1) 3(1) by (simp add: budget_ok_def)
          then show ?thesis using resume_again [OF _ r(2) 3(2) faults] by blast
        next
          case 4
          moreover have "budget_ok (e_faults e) FaultGuardUnavailable" using now(1) by (auto simp: budget_ok_def)
          ultimately show ?thesis
            using stopped_resumed [of e "e_faults e" FaultGuardUnavailable n "snd gs2" "segv \<and> bus" D] r(2) by (intro stop) auto
        qed
        then show ?thesis using r(1) Inr by simp
      qed
    qed
  qed
qed

section \<open>One root\<close>

definition before_seed :: "env \<Rightarrow> ReferenceChainTraverser \<Rightarrow> bool" where
  "before_seed e s \<longleftrightarrow> traverser_ok (e_rank e) s \<and> rt_faultCount s = e_faults e \<and> rt_stopReason s = e_stop e
     \<and> (no_inline (rt_inlineVTCache s) \<longleftrightarrow> e_plain e)"

lemma ClearVisited_wf:
  assumes "wf_visited v"
  shows "wf_visited (ClearVisited v) \<and> visited_map (ClearVisited v) = Map.empty \<and> has_room (ClearVisited v)"
proof -
  obtain k where k: "table_shape v k" "table_ok (vs_addresses v) (vs_dirtyIndices v) (vs_count v)"
    using assms by (auto simp: wf_visited_def)
  have "has_room (ClearVisited v)" by (rule has_room_small) (simp add: ClearVisited_def max_entries_def)
  then show ?thesis using ClearVisited_ok [OF k(1)] k(2) by (simp add: table_ok_def)
qed

text \<open>The state of the traversal after the root has been entered into the tree and the visited set.\<close>

lemma seeded_inv:
  assumes "before_seed e s" and root: "ri_address (e_root e) \<noteq> 0"
    and v: "MarkVisitedAndStore (ClearVisited (rt_visited s)) (ri_address (e_root e)) (ri_classID (e_root e)) = Some v"
  shows "scan_inv e (card (heap e) - 1) {(\<lparr>rk_typeID = ri_classID (e_root e), rk_category = ri_category (e_root e)\<rparr>, [])}
      {ri_address (e_root e)} {} 1
      (s\<lparr>rt_rootCategoryCounts := c, rt_tree := AddRoot (ri_classID (e_root e)) (ri_category (e_root e)) sz fn (rt_tree s),
         rt_traversalStack := [], rt_visited := v\<rparr>)"
proof -
  let ?a = "ri_address (e_root e)"
  have ok: "traverser_ok (e_rank e) s" using assms(1) by (simp add: before_seed_def)
  then have clear: "wf_visited (ClearVisited (rt_visited s))" "visited_map (ClearVisited (rt_visited s)) = Map.empty"
    "has_room (ClearVisited (rt_visited s))" using ClearVisited_wf by (auto simp: traverser_ok_def)
  have vis: "wf_visited v" "dom (visited_map v) = {?a}"
    using MarkVisitedAndStore_ok [OF clear(1,3) root, of "ri_classID (e_root e)"] v clear(2) by auto
  have root_in: "?a \<in> heap e" by (simp add: heap_def at_root)
  then have "card (heap e - {?a}) = card (heap e) - 1" by simp
  moreover have "wf_tree (rt_tree s)" using ok by (simp add: traverser_ok_def)
  ultimately show ?thesis
    using ok assms(1) vis root_in AddRoot_ptr [of "rt_tree s"]
    by (simp add: scan_inv_def drain_inv_def traverser_ok_def before_seed_def seen_def)
qed

lemma SeedRoot_hoare:
  assumes root: "ri_address (e_root e) \<noteq> 0"
  shows "hoare (before_seed e) (SeedRoot (e_mem e) (e_root e)) (\<lambda>_. drain_inv e (card (heap e)) {} {}) (\<lambda>_. lost e (card (heap e)) Fault)"
proof (rule hoareI)
  fix s assume s: "before_seed e s"
  let ?r = "e_root e"
  have clear: "wf_visited (ClearVisited (rt_visited s))" "has_room (ClearVisited (rt_visited s))"
    using ClearVisited_wf s by (auto simp: before_seed_def traverser_ok_def)
  obtain v where v: "MarkVisitedAndStore (ClearVisited (rt_visited s)) (ri_address ?r) (ri_classID ?r) = Some v"
    using MarkVisitedAndStore_ok [OF clear root] by blast
  let ?q = "(\<lparr>rk_typeID = ri_classID ?r, rk_category = ri_category ?r\<rparr>, [])"
  define s1 where "s1 = s\<lparr>rt_rootCategoryCounts := (rt_rootCategoryCounts s)(ri_category ?r := rt_rootCategoryCounts s (ri_category ?r) + 1),
      rt_tree := AddRoot (ri_classID ?r) (ri_category ?r) (ri_objectSize ?r) (ri_fieldName ?r) (rt_tree s),
      rt_traversalStack := [], rt_visited := v\<rparr>"
  have seed: "SeedRoot (e_mem e) ?r s = PushTraversalFrameIfScannable (e_mem e) (ri_address ?r) ?q 1 (ri_classID ?r) (ri_objectSize ?r) s1"
    using v by (simp add: SeedRoot_def bnd_def upd_def visited_MarkVisitedAndStore_def s1_def)
  have s1: "scan_inv e (card (heap e) - 1) {?q} (insert (ri_address ?r) {}) {} 1 s1"
    unfolding s1_def using seeded_inv [OF s root v] by simp
  have "ri_address ?r \<in> heap e" by (simp add: heap_def at_root)
  moreover from this have "0 < card (heap e)" by (auto simp: card_gt_0_iff)
  ultimately have "hoare (scan_inv e (card (heap e) - 1) {?q} (insert (ri_address ?r) {}) {} 1)
     (PushTraversalFrameIfScannable (e_mem e) (ri_address ?r) ?q 1 (ri_classID ?r) (ri_objectSize ?r))
     (\<lambda>_ s. drain_inv e (card (heap e)) {?q} {} s \<and> {} \<subseteq> seen s \<and> (e_plain e \<longrightarrow> unat (1 :: u32) \<le> card (seen s))) (lost e (card (heap e)))"
    using PushTraversalFrameIfScannable_hoare [of ?q "{?q}" e "ri_address ?r" "ri_classID ?r" "ri_objectSize ?r" "card (heap e) - 1" "{}" "{}" 1]
    by (simp add: object_type_def)
  from hoareD [OF this s1] show "\<exists>r s'. SeedRoot (e_mem e) ?r s = Some (r, s') \<and>
      (case r of Inl x \<Rightarrow> lost e (card (heap e)) Fault s' | Inr _ \<Rightarrow> drain_inv e (card (heap e)) {} {} s')"
    unfolding seed using drain_inv_mono [of e "card (heap e)" "{?q}" "{}" _ "card (heap e)" "{}" "{}"]
    by (fastforce simp: lost_def split: sum.splits)
qed

text \<open>What holds after a root, when the traversal was not stopped before it.\<close>

definition root_done :: "bool \<Rightarrow> env \<Rightarrow> ReferenceChainTraverser \<Rightarrow> bool" where
  "root_done guard e s \<longleftrightarrow> traverser_ok (e_rank e) s \<and> budget_ok (rt_faultCount s) (rt_stopReason s) \<and> e_faults e \<le> rt_faultCount s
     \<and> (guard \<longrightarrow> rt_stopReason s \<noteq> FaultGuardUnavailable \<and> seen s \<subseteq> heap e)
     \<and> (rt_faultCount s = e_faults e \<and> rt_stopReason s = NoStop \<and> rt_gcDescTrusted s \<longrightarrow>
          rt_traversalStack s = [] \<and> drain_inv e (card (heap e)) {} {} s)"

lemma lost_root_done:
  assumes "lost (env_at e k st) n x s" and "budget_ok k st" and "e_faults e \<le> k" and "guard \<longrightarrow> st \<noteq> FaultGuardUnavailable"
    and "k = e_faults e \<and> st = NoStop \<and> rt_gcDescTrusted s \<longrightarrow> rt_traversalStack s = [] \<and> drain_inv e (card (heap e)) {} {} s"
  shows "root_done guard e s"
  using assms unfolding root_done_def lost_def drain_inv_def by (auto simp: env_at_def heap_def)

lemma resumed_root_done: "resumed guard e (card (heap e)) {} s \<Longrightarrow> root_done guard e s"
  unfolding resumed_def by (elim exE conjE, rule lost_root_done) auto

lemma statistics_same [simp]:
  "seen (s\<lparr>rt_rootsProcessed := k\<rparr>) = seen s" "seen (s\<lparr>rt_selfTestFailureLogged := b\<rparr>) = seen s"
  "settled e a (s\<lparr>rt_rootsProcessed := k\<rparr>) = settled e a s" "settled e a (s\<lparr>rt_selfTestFailureLogged := b\<rparr>) = settled e a s"
  "traverser_ok rank (s\<lparr>rt_rootsProcessed := k\<rparr>) = traverser_ok rank s" "traverser_ok rank (s\<lparr>rt_selfTestFailureLogged := b\<rparr>) = traverser_ok rank s"
  by (simp_all add: seen_def settled_def traverser_ok_def)

lemma drain_inv_statistics [simp]:
  "drain_inv e n P D (s\<lparr>rt_rootsProcessed := k\<rparr>) = drain_inv e n P D s"
  "drain_inv e n P D (s\<lparr>rt_selfTestFailureLogged := b\<rparr>) = drain_inv e n P D s"
  by (simp_all add: drain_inv_def)

lemma root_done_processed: "root_done guard e s \<Longrightarrow> root_done guard e (s\<lparr>rt_rootsProcessed := k\<rparr>)"
  by (simp add: root_done_def)

lemma root_done_logged: "root_done guard e s \<Longrightarrow> root_done guard e (LogPendingSelfTestFailure s)"
  by (simp add: root_done_def LogPendingSelfTestFailure_def)

lemma seed_failed:
  assumes "e_stop e = NoStop" and "e_faults e < MaxFaultsPerDump"
    and "(\<exists>s. lost e n Fault s \<and> s' = OnTraversalFault s) \<or> \<not> guard \<and> (\<exists>s. before_seed e s \<and> s' = OnFaultGuardUnavailable s)"
  shows "root_done guard e s'"
  using assms(3)
proof (elim disjE exE conjE)
  fix s assume s: "lost e n Fault s" "s' = OnTraversalFault s"
  obtain st where "budget_ok (e_faults e + 1) st" "st = NoStop \<or> st = FaultBudgetExhausted" "lost (env_at e (e_faults e + 1) st) n Fault s'"
    using OnTraversalFault_lost [OF s(1) assms(1,2)] s(2) by blast
  moreover have "e_faults e \<le> e_faults e + 1" "e_faults e + 1 \<noteq> e_faults e"
    using assms(2) by (auto simp: MaxFaultsPerDump_def word_less_nat_alt word_le_nat_alt unat_word_ariths)
  ultimately show ?thesis by (intro lost_root_done [of e "e_faults e + 1" st n Fault]) auto
next
  fix s assume s: "\<not> guard" "before_seed e s" "s' = OnFaultGuardUnavailable s"
  then show ?thesis using assms(1,2)
    by (simp add: root_done_def before_seed_def OnFaultGuardUnavailable_def traverser_ok_def budget_ok_def)
qed

lemma Core_hoare:
  assumes "ri_address (e_root e) \<noteq> 0" and room: "card (heap e) < max_entries" and e: "e_stop e = NoStop" "e_faults e < MaxFaultsPerDump"
  shows "hoare (\<lambda>gs. \<not> g_inGuardedRegion (fst gs) \<and> before_seed e (snd gs) \<and> rt_gcDescTrusted (snd gs))
    (TraverseFromSingleRootCore segv bus (e_mem e) (e_pInfo e) (e_root e))
    (\<lambda>_ gs. \<not> g_inGuardedRegion (fst gs) \<and> root_done (segv \<and> bus) e (snd gs))
    (\<lambda>x gs. x = Thrown \<and> \<not> g_inGuardedRegion (fst gs) \<and> aborted e (card (heap e)) (snd gs))"
    (is "hoare ?P _ ?Q ?E")
proof -
  let ?n = "card (heap e)"
  have now: "env_at e (e_faults e) NoStop = e" "budget_ok (e_faults e) NoStop" using e env_at_simps(3) [of e] by (auto simp: budget_ok_def)
  have seed: "hoare (\<lambda>gs. \<not> g_inGuardedRegion (fst gs) \<and> before_seed e (snd gs)) (RunGuarded segv bus (SeedRoot (e_mem e) (e_root e)))
      (\<lambda>ok gs. \<not> g_inGuardedRegion (fst gs) \<and> (if ok then drain_inv e ?n {} {} (snd gs) else root_done (segv \<and> bus) e (snd gs))) ?E"
  proof (rule hoare_weaken [OF RunGuarded_hoare [OF SeedRoot_hoare [OF assms(1)]]])
    fix ok and gs :: "GuardState \<times> ReferenceChainTraverser"
    assume "\<not> g_inGuardedRegion (fst gs) \<and> (if ok then drain_inv e ?n {} {} (snd gs)
       else (\<exists>s. lost e ?n Fault s \<and> snd gs = OnTraversalFault s) \<or> \<not> (segv \<and> bus) \<and> (\<exists>s. before_seed e s \<and> snd gs = OnFaultGuardUnavailable s))"
    then show "\<not> g_inGuardedRegion (fst gs) \<and> (if ok then drain_inv e ?n {} {} (snd gs) else root_done (segv \<and> bus) e (snd gs))"
      using seed_failed [OF e, of ?n "snd gs" "segv \<and> bus"] by (cases ok) auto
  qed (use now in \<open>auto simp: aborted_def\<close>)
  have drain: "hoare (\<lambda>gs. \<not> g_inGuardedRegion (fst gs) \<and> drain_inv e ?n {} {} (snd gs))
      (bnd (resume_loop segv bus (e_mem e) (e_pInfo e)) (\<lambda>_. upd (apsnd (\<lambda>s. s\<lparr>rt_rootsProcessed := rt_rootsProcessed s + 1\<rparr>)))) ?Q ?E"
    by (rule hoare_bnd [OF resume_loop_hoare [OF room e]], rule hoare_upd)
      (auto intro: root_done_processed resumed_root_done)
  have body: "hoare (\<lambda>gs. \<not> g_inGuardedRegion (fst gs) \<and> before_seed e (snd gs))
      (bnd (RunGuarded segv bus (SeedRoot (e_mem e) (e_root e))) (\<lambda>seeded. if \<not> seeded then ret ()
        else bnd (resume_loop segv bus (e_mem e) (e_pInfo e)) (\<lambda>_. upd (apsnd (\<lambda>s. s\<lparr>rt_rootsProcessed := rt_rootsProcessed s + 1\<rparr>))))) ?Q ?E"
  proof (rule hoare_bnd [OF seed])
    fix ok
    show "hoare (\<lambda>gs. \<not> g_inGuardedRegion (fst gs) \<and> (if ok then drain_inv e ?n {} {} (snd gs) else root_done (segv \<and> bus) e (snd gs)))
       (if \<not> ok then ret () else bnd (resume_loop segv bus (e_mem e) (e_pInfo e))
          (\<lambda>_. upd (apsnd (\<lambda>s. s\<lparr>rt_rootsProcessed := rt_rootsProcessed s + 1\<rparr>)))) ?Q ?E"
      using drain by (cases ok) (auto intro: hoare_ret)
  qed
  have "hoare ?P (get (\<lambda>gs. \<not> rt_gcDescTrusted (snd gs) \<or> rt_stopReason (snd gs) \<noteq> NoStop))
      (\<lambda>skip gs. \<not> skip \<and> \<not> g_inGuardedRegion (fst gs) \<and> before_seed e (snd gs)) ?E"
    by (rule hoare_get) (use e in \<open>auto simp: before_seed_def\<close>)
  then show ?thesis unfolding TraverseFromSingleRootCore_def
    by (rule hoare_bnd) (rule hoare_fact, use body in simp)
qed

lemma TraverseFromSingleRoot_done:
  assumes "ri_address (e_root e) \<noteq> 0" "card (heap e) < max_entries" "e_stop e = NoStop" "e_faults e < MaxFaultsPerDump"
    and "\<not> g_inGuardedRegion g" "before_seed e s" "rt_gcDescTrusted s"
  shows "\<exists>g' s'. TraverseFromSingleRoot segv bus (e_mem e) (e_pInfo e) (e_root e) (g, s) = Some (Inr (), g', s')
    \<and> \<not> g_inGuardedRegion g' \<and> root_done (segv \<and> bus) e s'"
proof -
  have "\<not> g_inGuardedRegion (fst (g, s)) \<and> before_seed e (snd (g, s)) \<and> rt_gcDescTrusted (snd (g, s))" using assms(5-7) by simp
  from hoareD [OF Core_hoare [OF assms(1-4)] this] obtain r gs1 where
    r1: "TraverseFromSingleRootCore segv bus (e_mem e) (e_pInfo e) (e_root e) (g, s) = Some (r, gs1)"
    "case r of Inl x \<Rightarrow> x = Thrown \<and> \<not> g_inGuardedRegion (fst gs1) \<and> aborted e (card (heap e)) (snd gs1)
     | Inr _ \<Rightarrow> \<not> g_inGuardedRegion (fst gs1) \<and> root_done (segv \<and> bus) e (snd gs1)"
    by blast
  obtain g1 s1 where gs1: "gs1 = (g1, s1)" by (cases gs1)
  note r = r1 [unfolded gs1 fst_conv snd_conv]
  have "root_done (segv \<and> bus) e (OnTraversalAborted s1)" if abrt: "aborted e (card (heap e)) s1"
  proof -
    obtain k where k: "budget_ok k NoStop" "e_faults e \<le> k" "lost (env_at e k NoStop) (card (heap e)) Fault s1"
      using abrt by (auto simp: aborted_def)
    have "lost (env_at e k UnexpectedException) (card (heap e)) Fault (OnTraversalAborted s1)"
      using OnTraversalAborted_lost [OF k(3)] by simp
    then show ?thesis by (rule lost_root_done) (use k in \<open>auto simp: budget_ok_def\<close>)
  qed
  then show ?thesis using r root_done_logged by (cases r) (auto simp: TraverseFromSingleRoot_def)
qed

text \<open>When everything has been settled, the objects seen are the reachable ones.\<close>

lemma settled_complete:
  assumes "drain_inv e n P {} s" and "rt_traversalStack s = []" and "e_plain e" and "card (heap e) \<le> unat MaxTreeDepth"
  shows "heap e \<subseteq> seen s"
proof
  fix a assume "a \<in> heap e"
  then have "heap_reachable (e_mem e) (e_pInfo e) (e_root e) a" by (simp add: heap_def)
  then show "a \<in> seen s"
  proof induction
    case at_root
    then show ?case using assms(1) by (simp add: drain_inv_def)
  next
    case (by_ref a cls sz b)
    then have "settled e a s" using assms by (auto simp: drain_inv_def)
    then show ?case using by_ref assms(2) by (auto simp: settled_def)
  qed
qed

section \<open>A heap with a cycle\<close>

text \<open>Two objects of one class that refer to each other, with a profiling interface that always answers.\<close>

definition info_example :: ProfilerInfo where
  "info_example = \<lparr>pi_IsArrayClass = (\<lambda>_. Inr None), pi_GetClassLayout = (\<lambda>_. Inr (Some 1)), pi_GetArrayObjectInfo = (\<lambda>_ _. Inr None),
     pi_GetClassFromObject = (\<lambda>_. Inr (Some 0x10000)), pi_GetObjectSize2 = (\<lambda>_. Inr (Some 24))\<rparr>"

definition root_example :: RootInfo where
  "root_example = \<lparr>ri_address = 0x10008, ri_category = Stack, ri_classID = 0x10000, ri_objectSize = 24, ri_fieldName = None\<rparr>"

lemma references_example:
  "references heap_example info_example 0x10000 0x10008 24 = {0x10020}"
  "references heap_example info_example 0x10000 0x10020 24 = {0x10008}"
proof -
  have s: "series_in_memory heap_example 0x10000 [(- 16, 8)]"
    using heap_example_loads by (simp add: series_in_memory_def)
  have e: "EnumerateObjectRefs heap_example 0x10000 obj 24 cb = visit_slots heap_example cb [(obj + 8, 8)]" for obj cb
    using EnumerateObjectRefs_slots [OF heap_example_loads(3) s, of obj 24 cb]
    by (simp add: LooksLikeValid_iff object_slots_def series_offsets_def)
  have c: "GetSeriesCount heap_example 0x10000 = Inr 1" using heap_example_loads by (simp add: GetSeriesCount_def)
  have r: "references heap_example info_example 0x10000 obj 24 = {v \<in> {x}. IsValidObjectAddress v}"
    if "load64 heap_example (obj + 8) = Some x" "x \<noteq> 0" for obj x
    using that references_pos [OF c, of info_example obj 24] by (simp add: collected_def e note_ref_def bnd_def upd_def ret_def)
  have v: "IsValidObjectAddress 0x10020" "IsValidObjectAddress 0x10008" by (simp_all add: IsValidObjectAddress_def)
  have l: "load64 heap_example (0x10008 + 8) = Some 0x10020" "load64 heap_example (0x10020 + 8) = Some 0x10008"
    using heap_example_loads(5,6) by simp_all
  show "references heap_example info_example 0x10000 0x10008 24 = {0x10020}"
    using r [OF l(1)] v(1) by auto
  show "references heap_example info_example 0x10000 0x10020 24 = {0x10008}"
    using r [OF l(2)] v(2) by auto
qed

lemma reachable_example: "{a. heap_reachable heap_example info_example root_example a} = {0x10008, 0x10020}"
proof -
  have ty: "object_type info_example root_example a = Some (0x10000, 24)" for a
    by (simp add: object_type_def info_example_def root_example_def)
  have "a \<in> {0x10008, 0x10020}" if "heap_reachable heap_example info_example root_example a" for a
    using that
  proof induction
    case at_root
    then show ?case by (simp add: root_example_def)
  next
    case (by_ref a cls sz b)
    then show ?case using ty [of a] references_example by auto
  qed
  moreover have "heap_reachable heap_example info_example root_example 0x10008"
    using at_root [of heap_example info_example root_example] by (simp add: root_example_def)
  moreover have "ContainsGCPointers heap_example 0x10000 = Inr True"
    using heap_example_loads load32_of_load64 [of heap_example "0x10000"]
    by (simp add: ContainsGCPointers_def Flag_ContainsPointers_def)
  ultimately show ?thesis using by_ref [OF _ ty, of heap_example "0x10008" "0x10020"] references_example(1) by auto
qed

lemma newReferenceChainTraverser_ok:
  assumes "wf_tree tree" "wf_vtcache c" "vt_ranked rank c" "capacity \<le> 2 ^ 32"
  shows "\<exists>s. newReferenceChainTraverser tree c capacity = Some s \<and> traverser_ok rank s \<and> rt_inlineVTCache s = c
    \<and> rt_faultCount s = 0 \<and> rt_stopReason s = NoStop \<and> rt_gcDescTrusted s"
  using newVisitedObjectSet_ok [OF assms(4)] assms(1-3)
  by (auto simp: newReferenceChainTraverser_def traverser_ok_def MaxSelfTestObjects_def)

lemma traverser_example:
  obtains s where "newReferenceChainTraverser [] (newInlineVTCache None) 512 = Some s" "traverser_ok (\<lambda>_. 0) s"
    "no_inline (rt_inlineVTCache s)" "rt_faultCount s = 0" "rt_stopReason s = NoStop" "rt_gcDescTrusted s"
proof -
  let ?c = "newInlineVTCache None"
  have "wf_tree []" "vt_ranked (\<lambda>_. 0) ?c" "no_inline ?c"
    by (simp_all add: wf_tree_def vt_ranked_def no_inline_def newInlineVTCache_def)
  with newReferenceChainTraverser_ok [of "[]" ?c "\<lambda>_. 0" 512] show thesis using that by force
qed

section \<open>Properties\<close>

text \<open>
  C1. A traversal from a root always returns, whatever faults and exceptions the reads and the
  profiling calls produce: no fault and no exception leaves it, the guard's flag is down, every tree
  node it holds is valid and tree, visited set and cache stay well formed, at most
  \<open>MaxFaultsPerDump\<close> faults and \<open>MaxSelfTestObjects\<close> self-tests are counted, and the dump stops for a
  missing guard only if a handler could not be registered. Once the traversal is stopped or the layout
  is not trusted, a root changes nothing but the mark that the failure was logged.
\<close>

theorem TraverseFromSingleRoot_returns:
  assumes "traverser_ok rank s" and "budget_ok (rt_faultCount s) (rt_stopReason s)" and "\<not> g_inGuardedRegion g"
    and "ri_address root \<noteq> 0" and "card {a. heap_reachable mem pInfo root a} < max_entries"
  shows "\<exists>g' s'. TraverseFromSingleRoot segv bus mem pInfo root (g, s) = Some (Inr (), g', s')
    \<and> \<not> g_inGuardedRegion g' \<and> traverser_ok rank s' \<and> budget_ok (rt_faultCount s') (rt_stopReason s')
    \<and> rt_faultCount s \<le> rt_faultCount s'
    \<and> (segv \<and> bus \<and> rt_stopReason s' = FaultGuardUnavailable \<longrightarrow> rt_stopReason s = FaultGuardUnavailable)
    \<and> (\<not> rt_gcDescTrusted s \<or> rt_stopReason s \<noteq> NoStop \<longrightarrow> g' = g \<and> s' = LogPendingSelfTestFailure s)"
proof (cases "rt_gcDescTrusted s \<and> rt_stopReason s = NoStop")
  case True
  define e where "e = \<lparr>e_mem = mem, e_pInfo = pInfo, e_root = root, e_rank = rank, e_faults = rt_faultCount s, e_stop = NoStop,
      e_plain = no_inline (rt_inlineVTCache s)\<rparr>"
  have "before_seed e s" "e_faults e < MaxFaultsPerDump" using assms(1,2) True by (auto simp: before_seed_def e_def budget_ok_def)
  then show ?thesis
    using TraverseFromSingleRoot_done [of e g s segv bus] assms(3-5) True
    by (auto simp: root_done_def e_def heap_def)
next
  case False
  then have "TraverseFromSingleRoot segv bus mem pInfo root (g, s) = Some (Inr (), g, LogPendingSelfTestFailure s)"
    by (auto simp: TraverseFromSingleRoot_def TraverseFromSingleRootCore_def bnd_def get_def ret_def)
  then show ?thesis using False assms(1-3) by (auto simp: LogPendingSelfTestFailure_def)
qed

theorem TraverseFromSingleRoot_returns_witness:
  "\<exists>s g' s'. newReferenceChainTraverser [] (newInlineVTCache None) 512 = Some s \<and> traverser_ok (\<lambda>_. 0) s
     \<and> TraverseFromSingleRoot True True heap_example info_example root_example (\<lparr>g_installed = False, g_inGuardedRegion = False\<rparr>, s)
         = Some (Inr (), g', s')
     \<and> \<not> g_inGuardedRegion g' \<and> rt_stopReason s' \<noteq> FaultGuardUnavailable"
proof -
  obtain s where s: "newReferenceChainTraverser [] (newInlineVTCache None) 512 = Some s" "traverser_ok (\<lambda>_. 0) s"
    "rt_faultCount s = 0" "rt_stopReason s = NoStop" by (rule traverser_example)
  moreover have "budget_ok 0 NoStop" "ri_address root_example \<noteq> 0"
    by (simp_all add: budget_ok_def MaxFaultsPerDump_def root_example_def)
  ultimately show ?thesis
    using TraverseFromSingleRoot_returns [of "\<lambda>_. 0" s "\<lparr>g_installed = False, g_inGuardedRegion = False\<rparr>" root_example heap_example info_example True True]
      reachable_example by (auto simp: max_entries_def)
qed

text \<open>
  C3. The traversal visits only objects that are reachable from the root by the references of the GC
  descriptors, also when it is interrupted. Without inline value types and with at most
  \<open>MaxTreeDepth\<close> reachable objects, a traversal that met no fault, no exception and no failed self-test
  visits all of them.
\<close>

theorem TraverseFromSingleRoot_reachable:
  assumes "traverser_ok rank s" and "rt_faultCount s < MaxFaultsPerDump" and "rt_stopReason s = NoStop" and "rt_gcDescTrusted s"
    and "\<not> g_inGuardedRegion g" and "ri_address root \<noteq> 0" and "card {a. heap_reachable mem pInfo root a} < max_entries"
  shows "\<exists>g' s'. TraverseFromSingleRoot True True mem pInfo root (g, s) = Some (Inr (), g', s')
    \<and> dom (visited_map (rt_visited s')) \<subseteq> {a. heap_reachable mem pInfo root a}
    \<and> (no_inline (rt_inlineVTCache s) \<and> card {a. heap_reachable mem pInfo root a} \<le> unat MaxTreeDepth
         \<and> rt_faultCount s' = rt_faultCount s \<and> rt_stopReason s' = NoStop \<and> rt_gcDescTrusted s' \<longrightarrow>
       rt_traversalStack s' = [] \<and> dom (visited_map (rt_visited s')) = {a. heap_reachable mem pInfo root a})"
proof -
  define e where "e = \<lparr>e_mem = mem, e_pInfo = pInfo, e_root = root, e_rank = rank, e_faults = rt_faultCount s, e_stop = NoStop,
      e_plain = no_inline (rt_inlineVTCache s)\<rparr>"
  have heap: "heap e = {a. heap_reachable mem pInfo root a}" by (simp add: e_def heap_def)
  have "before_seed e s" using assms(1,3) by (simp add: before_seed_def e_def)
  then obtain g' s' where r: "TraverseFromSingleRoot True True mem pInfo root (g, s) = Some (Inr (), g', s')" "root_done True e s'"
    using TraverseFromSingleRoot_done [of e g s True True] assms(2,4-7) heap by (auto simp: e_def)
  have sub: "seen s' \<subseteq> heap e" using r(2) by (simp add: root_done_def)
  have "rt_traversalStack s' = [] \<and> seen s' = heap e"
    if "no_inline (rt_inlineVTCache s)" "card (heap e) \<le> unat MaxTreeDepth"
      "rt_faultCount s' = rt_faultCount s" "rt_stopReason s' = NoStop" "rt_gcDescTrusted s'"
    using r(2) settled_complete [of e "card (heap e)" "{}" s'] that sub by (auto simp: root_done_def e_def)
  then show ?thesis using r(1) sub unfolding heap seen_def by blast
qed

theorem TraverseFromSingleRoot_reachable_witness:
  "\<exists>s g' s'. newReferenceChainTraverser [] (newInlineVTCache None) 512 = Some s
     \<and> TraverseFromSingleRoot True True heap_example info_example root_example (\<lparr>g_installed = False, g_inGuardedRegion = False\<rparr>, s)
         = Some (Inr (), g', s')
     \<and> dom (visited_map (rt_visited s')) \<subseteq> {0x10008, 0x10020}
     \<and> (rt_faultCount s' = 0 \<and> rt_stopReason s' = NoStop \<and> rt_gcDescTrusted s' \<longrightarrow> dom (visited_map (rt_visited s')) = {0x10008, 0x10020})"
proof -
  obtain s where s: "newReferenceChainTraverser [] (newInlineVTCache None) 512 = Some s" "traverser_ok (\<lambda>_. 0) s"
    "no_inline (rt_inlineVTCache s)" "rt_faultCount s = 0" "rt_stopReason s = NoStop" "rt_gcDescTrusted s" by (rule traverser_example)
  moreover have "0 < MaxFaultsPerDump" "ri_address root_example \<noteq> 0" "unat MaxTreeDepth = 128"
    by (simp_all add: MaxFaultsPerDump_def root_example_def MaxTreeDepth_def)
  ultimately show ?thesis
    using TraverseFromSingleRoot_reachable [of "\<lambda>_. 0" s "\<lparr>g_installed = False, g_inGuardedRegion = False\<rparr>" root_example heap_example info_example]
      reachable_example by (auto simp: max_entries_def)
qed

end
