(* ===== verification/CodeCache.thy ===== *)
theory CodeCache
  imports Outcome Transition
begin

unbundle bit_operations_syntax

text \<open>
  The cache of managed code addresses (\<open>ManagedCodeCache.h\<close>, \<open>ManagedCodeCache.cpp\<close>): JIT-compiled code
  ranges in sorted vectors, one per 64 KB page, and the executable sections of precompiled modules.
  The binary searches of the C++ library are modelled as the searches they are, and shown to find the
  partition point. A lookup is proved to answer with the rng that was registered last among those
  that start closest below the address; writers and readers interleave at the granularity of the
  critical sections. The CLR's answers (\<open>GetCodeInfo2\<close>, \<open>GetNativeCodeStartAddresses\<close>, \<open>GetCodeInfo4\<close>,
  \<open>GetModuleInfo2\<close>, \<open>GetFunctionFromIP\<close>) and the outcomes of the timed lock attempts are arguments.
\<close>

section \<open>Binary search\<close>

text \<open>
  \<open>std::lower_bound\<close> and \<open>std::upper_bound\<close>: halving of the interval of \<open>len\<close> elements from \<open>first\<close>, where
  \<open>P\<close> holds of the elements that are passed over.
\<close>

function bound_loop :: "('a \<Rightarrow> bool) \<Rightarrow> 'a list \<Rightarrow> nat \<Rightarrow> nat \<Rightarrow> nat" where
  "bound_loop P xs first len =
     (if len = 0 then first
      else let half = len div 2; middle = first + half in
        if P (xs ! middle) then bound_loop P xs (middle + 1) (len - half - 1)
        else bound_loop P xs first half)"
  by pat_completeness auto
termination by (relation "measure (\<lambda>(P, xs, first, len). len)") auto

declare bound_loop.simps [simp del]

definition lower_bound :: "('a \<Rightarrow> 'v \<Rightarrow> bool) \<Rightarrow> 'a list \<Rightarrow> 'v \<Rightarrow> nat" where
  "lower_bound cmp xs v = bound_loop (\<lambda>x. cmp x v) xs 0 (length xs)"

definition upper_bound :: "('v \<Rightarrow> 'a \<Rightarrow> bool) \<Rightarrow> 'a list \<Rightarrow> 'v \<Rightarrow> nat" where
  "upper_bound cmp xs v = bound_loop (\<lambda>x. \<not> cmp v x) xs 0 (length xs)"

definition insert_at :: "nat \<Rightarrow> 'a \<Rightarrow> 'a list \<Rightarrow> 'a list" where
  "insert_at i x xs = take i xs @ x # drop i xs"

section \<open>Data\<close>

type_synonym FunctionID = u64
type_synonym HRESULT = u32

definition SUCCEEDED :: "HRESULT \<Rightarrow> bool" where
  "SUCCEEDED hr \<longleftrightarrow> \<not> bit hr 31"

definition ERROR_INSUFFICIENT_BUFFER_HR :: HRESULT where
  "ERROR_INSUFFICIENT_BUFFER_HR = 0x8007007A"

record CodeRange =
  startAddress :: u64
  endAddress :: u64
  functionId :: FunctionID
  isDynamic :: bool

record ModuleCodeRange =
  m_startAddress :: u64
  m_endAddress :: u64
  m_isRemoved :: bool

definition contains_ip :: "CodeRange \<Rightarrow> u64 \<Rightarrow> bool" where
  "contains_ip r ip \<longleftrightarrow> startAddress r \<le> ip \<and> ip \<le> endAddress r"

definition module_contains_ip :: "ModuleCodeRange \<Rightarrow> u64 \<Rightarrow> bool" where
  "module_contains_ip r ip \<longleftrightarrow> m_startAddress r \<le> ip \<and> ip \<le> m_endAddress r"

record FunctionInfo =
  FunctionId :: FunctionID
  IsDynamic :: bool

record PageEntry =
  ranges :: "CodeRange list"

record ManagedCodeCache =
  pagesMap :: "u64 \<Rightarrow> PageEntry option"
  modulesCodeRanges :: "ModuleCodeRange list"
  profilerInfo9 :: bool
  lockFailureMetric :: u64

definition InvalidFunctionId :: FunctionID where
  "InvalidFunctionId = - 1"

definition newManagedCodeCache :: ManagedCodeCache where
  "newManagedCodeCache = \<lparr>pagesMap = Map.empty, modulesCodeRanges = [], profilerInfo9 = False, lockFailureMetric = 0\<rparr>"

text \<open>The argument says whether the runtime has the interface \<open>ICorProfilerInfo9\<close>.\<close>

definition InitializeCache :: "bool \<Rightarrow> ManagedCodeCache \<Rightarrow> bool \<times> ManagedCodeCache" where
  "InitializeCache hasInfo9 c = (True, c\<lparr>profilerInfo9 := hasInfo9\<rparr>)"

definition PAGE_SHIFT :: nat where
  "PAGE_SHIFT = 16"

definition GetPageNumber :: "u64 \<Rightarrow> u64" where
  "GetPageNumber address = drop_bit PAGE_SHIFT address"

section \<open>Lookups\<close>

text \<open>\<open>FindRange\<close> over a container whose elements start at \<open>start x\<close>.\<close>

definition FindRange :: "('r \<Rightarrow> u64) \<Rightarrow> ('r \<Rightarrow> u64 \<Rightarrow> bool) \<Rightarrow> 'r list \<Rightarrow> u64 \<Rightarrow> 'r option" where
  "FindRange start contains container v =
     (let it = lower_bound (\<lambda>rng v. start rng \<le> v) container v in
      if it = 0 then None
      else let r = container ! (it - 1) in if contains r v then Some r else None)"

text \<open>The lock attempt of a signal handler may time out; the blocking one always gets the lock.\<close>

definition IsCodeInR2RModule :: "bool \<Rightarrow> u64 \<Rightarrow> bool \<Rightarrow> ManagedCodeCache \<Rightarrow> bool option" where
  "IsCodeInR2RModule timedLock ip signalSafe c =
     (let owns_lock = (if signalSafe then timedLock else True) in
      if \<not> owns_lock then None
      else case FindRange m_startAddress module_contains_ip (modulesCodeRanges c) ip of
        None \<Rightarrow> Some False
      | Some r \<Rightarrow> if m_isRemoved r then Some False else Some (module_contains_ip r ip))"

definition GetFunctionInfoImpl :: "u64 \<Rightarrow> ManagedCodeCache \<Rightarrow> FunctionInfo option" where
  "GetFunctionInfoImpl ip c =
     (case pagesMap c (GetPageNumber ip) of
        None \<Rightarrow> None
      | Some entry \<Rightarrow> (case FindRange startAddress contains_ip (ranges entry) ip of
          Some rng \<Rightarrow> Some \<lparr>FunctionId = functionId rng, IsDynamic = isDynamic rng\<rparr>
        | None \<Rightarrow> None))"

text \<open>The outcomes of the three timed lock attempts of the signal handler.\<close>

record LockAttempts =
  mapLock :: bool
  pageLock :: bool
  moduleLock :: bool

definition IsManagedImpl :: "LockAttempts \<Rightarrow> u64 \<Rightarrow> ManagedCodeCache \<Rightarrow> bool option" where
  "IsManagedImpl locks ip c =
     (if \<not> mapLock locks then None
      else case pagesMap c (GetPageNumber ip) of
        None \<Rightarrow> IsCodeInR2RModule (moduleLock locks) ip True c
      | Some entry \<Rightarrow>
          if \<not> pageLock locks then None
          else (case FindRange startAddress contains_ip (ranges entry) ip of
             Some rng \<Rightarrow> Some True
           | None \<Rightarrow> IsCodeInR2RModule (moduleLock locks) ip True c))"

definition IsManaged :: "LockAttempts \<Rightarrow> u64 \<Rightarrow> ManagedCodeCache \<Rightarrow> bool option \<times> ManagedCodeCache" where
  "IsManaged locks ip c =
     (let result = IsManagedImpl locks ip c in
      (result, if result = None then c\<lparr>lockFailureMetric := lockFailureMetric c + 1\<rparr> else c))"

section \<open>Code ranges of a function\<close>

text \<open>
  The answers of the CLR: \<open>GetNativeCodeStartAddresses\<close> by function, rejit version, number of the call
  (the set of native versions may grow between calls) and buffer size, with the addresses it writes;
  \<open>GetCodeInfo4\<close> and \<open>GetCodeInfo2\<close> with the blocks they write; \<open>GetFunctionFromIP\<close>, where \<open>None\<close> is the
  access violation that is caught on Windows.
\<close>

type_synonym COR_PRF_CODE_INFO = "u64 \<times> u64"

record CodeApi =
  GetNativeCodeStartAddresses :: "FunctionID \<Rightarrow> u64 \<Rightarrow> nat \<Rightarrow> u32 \<Rightarrow> HRESULT \<times> u32 \<times> u64 list"
  GetCodeInfo4 :: "u64 \<Rightarrow> HRESULT \<times> u32 \<times> COR_PRF_CODE_INFO list"
  GetCodeInfo2 :: "FunctionID \<Rightarrow> HRESULT \<times> u32 \<times> COR_PRF_CODE_INFO list"
  GetFunctionFromIP :: "u64 \<Rightarrow> (HRESULT \<times> FunctionID) option"

definition MaxCodeInfos :: nat where
  "MaxCodeInfos = 8"

definition MaxEnumerationAttempts :: nat where
  "MaxEnumerationAttempts = 3"

text \<open>A callee fills the front of a buffer; \<open>vector::resize\<close> keeps the elements and adds zeros.\<close>

definition write_front :: "'a list \<Rightarrow> 'a list \<Rightarrow> 'a list" where
  "write_front ws buf = take (length buf) ws @ drop (length ws) buf"

definition vector_resize :: "nat \<Rightarrow> u64 list \<Rightarrow> u64 list" where
  "vector_resize n xs = take n xs @ replicate (n - length xs) 0"

definition appendRanges :: "FunctionID \<Rightarrow> bool \<Rightarrow> COR_PRF_CODE_INFO list \<Rightarrow> u32 \<Rightarrow> CodeRange list" where
  "appendRanges f dyn codeInfos count =
     map (\<lambda>(start, size). \<lparr>startAddress = start, endAddress = start + size - 1, functionId = f, isDynamic = dyn\<rparr>)
       (filter (\<lambda>(start, size). size \<noteq> 0) (take (min (unat count) MaxCodeInfos) codeInfos))"

fun blocks_loop :: "CodeApi \<Rightarrow> FunctionID \<Rightarrow> bool \<Rightarrow> u64 list \<Rightarrow> COR_PRF_CODE_INFO list \<Rightarrow> CodeRange list" where
  "blocks_loop api f dyn [] codeInfos = []"
| "blocks_loop api f dyn (s # starts) codeInfos =
     (case GetCodeInfo4 api s of (hr, codeCount, written) \<Rightarrow>
        let codeInfos' = write_front written codeInfos in
        (if SUCCEEDED hr then appendRanges f dyn codeInfos' codeCount else []) @ blocks_loop api f dyn starts codeInfos')"

fun enumeration_loop :: "CodeApi \<Rightarrow> FunctionID \<Rightarrow> bool \<Rightarrow> u64 \<Rightarrow> COR_PRF_CODE_INFO list \<Rightarrow> nat \<Rightarrow> u32 \<Rightarrow> u64 list \<Rightarrow> CodeRange list option" where
  "enumeration_loop api f dyn reJit codeInfos 0 count starts = None"
| "enumeration_loop api f dyn reJit codeInfos (Suc left) count starts =
     (let starts' = vector_resize (unat count) starts in
      case GetNativeCodeStartAddresses api f reJit (MaxEnumerationAttempts - left) (of_nat (length starts')) of
        (hr, count', written) \<Rightarrow>
          let starts'' = write_front written starts' in
          if \<not> SUCCEEDED hr
          then if hr = ERROR_INSUFFICIENT_BUFFER_HR \<and> length starts'' < unat count'
               then enumeration_loop api f dyn reJit codeInfos left count' starts''
               else None
          else Some (blocks_loop api f dyn (take (min (unat count') (length starts'')) starts'') codeInfos))"

text \<open>\<open>codeInfos\<close> is the uninitialised buffer on the stack.\<close>

definition GetCodeRanges :: "CodeApi \<Rightarrow> COR_PRF_CODE_INFO list \<Rightarrow> FunctionID \<Rightarrow> bool \<Rightarrow> u64 \<Rightarrow> ManagedCodeCache \<Rightarrow> CodeRange list" where
  "GetCodeRanges api codeInfos f dyn reJit c =
     (let enumerated =
        (if profilerInfo9 c
         then (case GetNativeCodeStartAddresses api f reJit 0 0 of (hr, count, _) \<Rightarrow>
            if SUCCEEDED hr \<and> count \<noteq> 0
            then enumeration_loop api f dyn reJit codeInfos MaxEnumerationAttempts count [] else None)
         else None)
      in case enumerated of
        Some result \<Rightarrow> result
      | None \<Rightarrow> (case GetCodeInfo2 api f of (hr, count, written) \<Rightarrow>
          if SUCCEEDED hr then appendRanges f dyn (write_front written codeInfos) count else []))"

section \<open>Writers\<close>

definition InsertCodeRangeIntoPage :: "CodeRange \<Rightarrow> PageEntry \<Rightarrow> PageEntry" where
  "InsertCodeRangeIntoPage rng entry =
     (let rs = ranges entry;
          insertPos = upper_bound (\<lambda>a b. startAddress a < startAddress b) rs rng in
      if insertPos \<noteq> 0 \<and>
         (let previous = rs ! (insertPos - 1) in
            startAddress previous = startAddress rng \<and> endAddress previous = endAddress rng \<and>
            functionId previous = functionId rng \<and> isDynamic previous = isDynamic rng)
      then entry
      else entry\<lparr>ranges := insert_at insertPos rng rs\<rparr>)"

definition try_emplace :: "u64 \<Rightarrow> (u64 \<Rightarrow> PageEntry option) \<Rightarrow> (u64 \<Rightarrow> PageEntry option) \<times> PageEntry" where
  "try_emplace page m =
     (case m page of Some entry \<Rightarrow> (m, entry) | None \<Rightarrow> (m(page \<mapsto> \<lparr>ranges = []\<rparr>), \<lparr>ranges = []\<rparr>))"

text \<open>One iteration of the page loop: the page is looked up first, and created when it is missing.\<close>

definition add_to_page :: "CodeRange \<Rightarrow> u64 \<Rightarrow> ManagedCodeCache \<Rightarrow> ManagedCodeCache" where
  "add_to_page rng page c =
     (case pagesMap c page of
        Some entry \<Rightarrow> c\<lparr>pagesMap := (pagesMap c)(page \<mapsto> InsertCodeRangeIntoPage rng entry)\<rparr>
      | None \<Rightarrow> (case try_emplace page (pagesMap c) of (m, entry) \<Rightarrow>
          c\<lparr>pagesMap := m(page \<mapsto> InsertCodeRangeIntoPage rng entry)\<rparr>))"

partial_function (option) page_loop :: "CodeRange \<Rightarrow> u64 \<Rightarrow> u64 \<Rightarrow> ManagedCodeCache \<Rightarrow> ManagedCodeCache option" where
  "page_loop rng page endPage c =
     (if page \<le> endPage then page_loop rng (page + 1) endPage (add_to_page rng page c) else Some c)"

fun AddFunctionRangesToCache :: "CodeRange list \<Rightarrow> ManagedCodeCache \<Rightarrow> ManagedCodeCache option" where
  "AddFunctionRangesToCache [] c = Some c"
| "AddFunctionRangesToCache (rng # newRanges) c =
     (case page_loop rng (GetPageNumber (startAddress rng)) (GetPageNumber (endAddress rng)) c of
        None \<Rightarrow> None
      | Some c' \<Rightarrow> AddFunctionRangesToCache newRanges c')"

definition AddFunction :: "CodeApi \<Rightarrow> COR_PRF_CODE_INFO list \<Rightarrow> FunctionID \<Rightarrow> bool \<Rightarrow> u64 \<Rightarrow> ManagedCodeCache \<Rightarrow> ManagedCodeCache option" where
  "AddFunction api codeInfos f dyn reJit c =
     (let rs = GetCodeRanges api codeInfos f dyn reJit c in
      if rs = [] then Some c else AddFunctionRangesToCache rs c)"

definition GetFunctionFromIP_Original :: "CodeApi \<Rightarrow> u64 \<Rightarrow> FunctionID option" where
  "GetFunctionFromIP_Original api ip =
     (case GetFunctionFromIP api ip of
        None \<Rightarrow> None
      | Some (hr, f) \<Rightarrow> if SUCCEEDED hr then Some f else Some InvalidFunctionId)"

definition GetFunctionInfo :: "CodeApi \<Rightarrow> COR_PRF_CODE_INFO list \<Rightarrow> u64 \<Rightarrow> ManagedCodeCache \<Rightarrow> (FunctionInfo option \<times> ManagedCodeCache) option" where
  "GetFunctionInfo api codeInfos ip c =
     (case GetFunctionInfoImpl ip c of
        Some info \<Rightarrow> Some (Some info, c)
      | None \<Rightarrow>
          (let isR2r = IsCodeInR2RModule True ip False c in
           if isR2r \<noteq> Some True then Some (Some \<lparr>FunctionId = InvalidFunctionId, IsDynamic = False\<rparr>, c)
           else case GetFunctionFromIP_Original api ip of
             None \<Rightarrow> Some (None, c)
           | Some f \<Rightarrow>
               if f \<noteq> InvalidFunctionId
               then (case AddFunction api codeInfos f False 0 c of
                   None \<Rightarrow> None
                 | Some c' \<Rightarrow> Some (Some \<lparr>FunctionId = f, IsDynamic = False\<rparr>, c'))
               else Some (Some \<lparr>FunctionId = f, IsDynamic = False\<rparr>, c)))"

section \<open>Modules\<close>

text \<open>The headers of a portable executable in memory, at the offsets of \<open>ntimage.h\<close>.\<close>

definition read16 :: "memory \<Rightarrow> u64 \<Rightarrow> abort + u16" where
  "read16 mem a = (case load_bytes mem a 2 of None \<Rightarrow> Inl Fault | Some bs \<Rightarrow> Inr (of_nat (le_nat bs)))"

definition read32 :: "memory \<Rightarrow> u64 \<Rightarrow> abort + u32" where
  "read32 mem a = (case load32 mem a of None \<Rightarrow> Inl Fault | Some v \<Rightarrow> Inr v)"

definition and_then :: "'e + 'a \<Rightarrow> ('a \<Rightarrow> 'e + 'b) \<Rightarrow> 'e + 'b" where
  "and_then r f = (case r of Inl e \<Rightarrow> Inl e | Inr a \<Rightarrow> f a)"

definition IMAGE_DOS_SIGNATURE :: u16 where "IMAGE_DOS_SIGNATURE = 0x5A4D"
definition IMAGE_NT_SIGNATURE :: u32 where "IMAGE_NT_SIGNATURE = 0x00004550"
definition IMAGE_SCN_MEM_EXECUTE :: u32 where "IMAGE_SCN_MEM_EXECUTE = 0x20000000"
definition COR_PRF_MODULE_NGEN :: u32 where "COR_PRF_MODULE_NGEN = 0x2"

fun section_loop :: "memory \<Rightarrow> u64 \<Rightarrow> u64 \<Rightarrow> nat \<Rightarrow> abort + ModuleCodeRange list" where
  "section_loop mem base header 0 = Inr []"
| "section_loop mem base header (Suc n) =
     and_then (read32 mem (header + 36)) (\<lambda>characteristics.
       if characteristics AND IMAGE_SCN_MEM_EXECUTE \<noteq> 0
       then and_then (read32 mem (header + 12)) (\<lambda>virtualAddress.
            and_then (read32 mem (header + 8)) (\<lambda>virtualSize.
              let codeStart = base + ucast virtualAddress;
                  codeEnd = codeStart + ucast virtualSize - 1 in
              and_then (section_loop mem base (header + 40) n) (\<lambda>rest.
                Inr (\<lparr>m_startAddress = codeStart, m_endAddress = codeEnd, m_isRemoved = False\<rparr> # rest))))
       else section_loop mem base (header + 40) n)"

text \<open>\<open>GetModuleInfo2\<close> gives a result code, the load address and the flags of the module.\<close>

definition GetModuleCodeRanges :: "memory \<Rightarrow> HRESULT \<times> u64 \<times> u32 \<Rightarrow> abort + ModuleCodeRange list" where
  "GetModuleCodeRanges mem info = (case info of (hr, baseLoadAddress, moduleFlags) \<Rightarrow>
     if \<not> SUCCEEDED hr then Inr []
     else if moduleFlags AND COR_PRF_MODULE_NGEN \<noteq> COR_PRF_MODULE_NGEN then Inr []
     else and_then (read16 mem baseLoadAddress) (\<lambda>e_magic.
       if e_magic \<noteq> IMAGE_DOS_SIGNATURE then Inr []
       else and_then (read32 mem (baseLoadAddress + 60)) (\<lambda>e_lfanew.
         let ntHeadersAddress = baseLoadAddress + scast e_lfanew in
         and_then (read32 mem ntHeadersAddress) (\<lambda>signature.
           if signature \<noteq> IMAGE_NT_SIGNATURE then Inr []
           else and_then (read16 mem (ntHeadersAddress + 4 + 16)) (\<lambda>sizeOfOptionalHeader.
             and_then (read16 mem (ntHeadersAddress + 4 + 2)) (\<lambda>numberOfSections.
               section_loop mem baseLoadAddress (ntHeadersAddress + 4 + 20 + ucast sizeOfOptionalHeader)
                 (unat numberOfSections)))))))"

definition insert_module_range :: "ModuleCodeRange \<Rightarrow> ModuleCodeRange list \<Rightarrow> ModuleCodeRange list" where
  "insert_module_range r rs =
     insert_at (upper_bound (\<lambda>a b. m_startAddress a < m_startAddress b) rs r) r rs"

definition AddModuleRangesToCache :: "ModuleCodeRange list \<Rightarrow> ManagedCodeCache \<Rightarrow> ManagedCodeCache" where
  "AddModuleRangesToCache rs c = c\<lparr>modulesCodeRanges := fold insert_module_range rs (modulesCodeRanges c)\<rparr>"

definition AddModule :: "memory \<Rightarrow> HRESULT \<times> u64 \<times> u32 \<Rightarrow> ManagedCodeCache \<Rightarrow> abort + ManagedCodeCache" where
  "AddModule mem info c =
     and_then (GetModuleCodeRanges mem info) (\<lambda>rs. Inr (if rs = [] then c else AddModuleRangesToCache rs c))"

text \<open>The first entry with the same bounds is marked, whether or not it is marked already.\<close>

fun mark_removed :: "ModuleCodeRange \<Rightarrow> ModuleCodeRange list \<Rightarrow> ModuleCodeRange list" where
  "mark_removed rng [] = []"
| "mark_removed rng (r # rs) =
     (if m_startAddress r = m_startAddress rng \<and> m_endAddress r = m_endAddress rng
      then r\<lparr>m_isRemoved := True\<rparr> # rs else r # mark_removed rng rs)"

definition RemoveModuleRanges :: "ModuleCodeRange list \<Rightarrow> ManagedCodeCache \<Rightarrow> ManagedCodeCache" where
  "RemoveModuleRanges rs c = c\<lparr>modulesCodeRanges := fold mark_removed rs (modulesCodeRanges c)\<rparr>"

definition RemoveModule :: "memory \<Rightarrow> HRESULT \<times> u64 \<times> u32 \<Rightarrow> ManagedCodeCache \<Rightarrow> abort + ManagedCodeCache" where
  "RemoveModule mem info c =
     and_then (GetModuleCodeRanges mem info) (\<lambda>rs. Inr (if rs = [] then c else RemoveModuleRanges rs c))"

section \<open>The binary searches find the partition point\<close>

definition partitioned :: "('a \<Rightarrow> bool) \<Rightarrow> 'a list \<Rightarrow> bool" where
  "partitioned P xs \<longleftrightarrow> (\<forall>i j. i < j \<longrightarrow> j < length xs \<longrightarrow> P (xs ! j) \<longrightarrow> P (xs ! i))"

lemma bound_loop_right:
  "len \<noteq> 0 \<Longrightarrow> P (xs ! (first + len div 2)) \<Longrightarrow>
     bound_loop P xs first len = bound_loop P xs (first + len div 2 + 1) (len - len div 2 - 1)"
  by (subst bound_loop.simps) (simp add: Let_def)

lemma bound_loop_left:
  "len \<noteq> 0 \<Longrightarrow> \<not> P (xs ! (first + len div 2)) \<Longrightarrow> bound_loop P xs first len = bound_loop P xs first (len div 2)"
  by (subst bound_loop.simps) (simp add: Let_def)

lemma bound_loop_splits:
  assumes "partitioned P xs" "first + len \<le> length xs" "\<forall>i<first. P (xs ! i)"
    and "\<forall>i<length xs. first + len \<le> i \<longrightarrow> \<not> P (xs ! i)"
  shows "bound_loop P xs first len \<le> length xs \<and> (\<forall>i<bound_loop P xs first len. P (xs ! i)) \<and>
     (\<forall>i<length xs. bound_loop P xs first len \<le> i \<longrightarrow> \<not> P (xs ! i))"
  using assms
proof (induction len arbitrary: first rule: less_induct)
  case (less len)
  let ?mid = "first + len div 2"
  show ?case
  proof (cases "len = 0")
    case True
    then show ?thesis using less.prems by (simp add: bound_loop.simps)
  next
    case False
    then have mid: "?mid < length xs" using less.prems(2) by linarith
    show ?thesis
    proof (cases "P (xs ! ?mid)")
      case True
      have "\<forall>i<?mid + 1. P (xs ! i)"
        using True less.prems(1) mid unfolding partitioned_def by (metis Suc_eq_plus1 less_antisym)
      moreover have e: "?mid + 1 + (len - len div 2 - 1) = first + len" using False by linarith
      ultimately show ?thesis
        unfolding bound_loop_right [of len P xs first, OF False True]
        using less.prems False by (intro less.IH) (linarith | simp only: e | assumption)+
    next
      case f: False
      have "\<forall>i<length xs. ?mid \<le> i \<longrightarrow> \<not> P (xs ! i)"
        using f less.prems(1) unfolding partitioned_def by (metis le_neq_implies_less)
      then show ?thesis
        unfolding bound_loop_left [of len P xs first, OF False f]
        using less.prems False mid by (intro less.IH) simp_all
    qed
  qed
qed

lemma length_takeWhile_eqI:
  "k \<le> length xs \<Longrightarrow> (\<forall>i<k. P (xs ! i)) \<Longrightarrow> (\<forall>i<length xs. k \<le> i \<longrightarrow> \<not> P (xs ! i)) \<Longrightarrow> k = length (takeWhile P xs)"
proof (induction xs arbitrary: k)
  case (Cons x xs)
  show ?case
  proof (cases k)
    case 0
    then show ?thesis using Cons.prems(3) by force
  next
    case (Suc n)
    then have "P x" using Cons.prems(2) by force
    moreover have "n = length (takeWhile P xs)" using Cons.prems Suc by (intro Cons.IH) force+
    ultimately show ?thesis using Suc by simp
  qed
qed simp

lemma bound_loop_takeWhile:
  "partitioned P xs \<Longrightarrow> bound_loop P xs 0 (length xs) = length (takeWhile P xs)"
  using bound_loop_splits [of P xs 0 "length xs"] by (intro length_takeWhile_eqI) auto

lemma sorted_partitioned: "sorted (map key xs) \<Longrightarrow> partitioned (\<lambda>x. key x \<le> (v :: u64)) xs"
  by (auto simp: partitioned_def sorted_iff_nth_mono) (meson less_imp_le order_trans)

lemma above_filter_empty:
  "\<forall>x\<in>set xs. key a \<le> key x \<Longrightarrow> \<not> key a \<le> (v :: u64) \<Longrightarrow> filter (\<lambda>x. key x \<le> v) xs = []"
  by (auto simp: filter_empty_conv)

lemma sorted_takeWhile_filter:
  "sorted (map key xs) \<Longrightarrow> takeWhile (\<lambda>x. key x \<le> (v :: u64)) xs = filter (\<lambda>x. key x \<le> v) xs"
  by (induction xs) (auto simp: above_filter_empty)

lemma sorted_filter_take:
  assumes "sorted (map key xs)"
  shows "take (length (filter (\<lambda>x. key x \<le> (v :: u64)) xs)) xs = filter (\<lambda>x. key x \<le> v) xs"
  using takeWhile_eq_take [of "\<lambda>x. key x \<le> v" xs] sorted_takeWhile_filter [OF assms, of v] by simp

lemma sorted_filter_drop:
  "sorted (map key xs) \<Longrightarrow> drop (length (filter (\<lambda>x. key x \<le> (v :: u64)) xs)) xs = filter (\<lambda>x. v < key x) xs"
proof (induction xs)
  case (Cons a xs)
  show ?case
  proof (cases "key a \<le> v")
    case True
    then show ?thesis using Cons by simp
  next
    case False
    then have "\<forall>x\<in>set xs. v < key x" using Cons.prems by (auto intro: order_less_le_trans)
    then show ?thesis using False Cons.prems above_filter_empty [of xs key a v] by (simp add: not_le)
  qed
qed simp

section \<open>The newest range that starts closest below an address\<close>

text \<open>
  Among the entries of a log that start at or below \<open>v\<close>, the one with the greatest start, and the latest
  of those.
\<close>

definition newer :: "('r \<Rightarrow> u64) \<Rightarrow> u64 \<Rightarrow> 'r \<Rightarrow> 'r option \<Rightarrow> 'r option" where
  "newer key v r best =
     (if key r \<le> v \<and> (case best of None \<Rightarrow> True | Some b \<Rightarrow> key b \<le> key r) then Some r else best)"

definition newest :: "('r \<Rightarrow> u64) \<Rightarrow> u64 \<Rightarrow> 'r list \<Rightarrow> 'r option" where
  "newest key v log = fold (newer key v) log None"

lemma newest_snoc [simp]: "newest key v (log @ [r]) = newer key v r (newest key v log)"
  by (simp add: newest_def)

lemma newest_Nil [simp]: "newest key v [] = None"
  by (simp add: newest_def)

definition newest_in :: "('r \<Rightarrow> u64) \<Rightarrow> u64 \<Rightarrow> 'r list \<Rightarrow> 'r \<Rightarrow> bool" where
  "newest_in key v log r \<longleftrightarrow> key r \<le> v \<and> (\<exists>xs ys. log = xs @ r # ys \<and>
     (\<forall>s\<in>set xs. key s \<le> v \<longrightarrow> key s \<le> key r) \<and> (\<forall>s\<in>set ys. key s \<le> v \<longrightarrow> key s < key r))"

lemma newest_in_snoc:
  "newest_in key v (log @ [r]) s \<longleftrightarrow>
     (s = r \<and> key r \<le> v \<and> (\<forall>t\<in>set log. key t \<le> v \<longrightarrow> key t \<le> key r)) \<or>
     (newest_in key v log s \<and> (key r \<le> v \<longrightarrow> key r < key s))" (is "?L \<longleftrightarrow> ?A \<or> ?B")
proof
  assume ?L
  then obtain xs ys where l: "key s \<le> v" "log @ [r] = xs @ s # ys" "\<forall>t\<in>set xs. key t \<le> v \<longrightarrow> key t \<le> key s"
    "\<forall>t\<in>set ys. key t \<le> v \<longrightarrow> key t < key s" unfolding newest_in_def by blast
  show "?A \<or> ?B"
  proof (cases ys rule: rev_cases)
    case Nil
    then have "log = xs" "s = r" using l(2) by simp_all
    then show ?thesis using l by simp
  next
    case (snoc zs z)
    then have log: "log = xs @ s # zs" "z = r" using l(2) by simp_all
    then have "newest_in key v log s"
      unfolding newest_in_def using l snoc by (intro conjI exI [of _ xs] exI [of _ zs]) simp_all
    moreover have "key r \<le> v \<longrightarrow> key r < key s" using l(4) snoc log(2) by simp
    ultimately show ?thesis by blast
  qed
next
  assume "?A \<or> ?B"
  then show ?L
  proof
    assume a: ?A
    then show ?L unfolding newest_in_def by (intro conjI exI [of _ log] exI [of _ "[]"]) simp_all
  next
    assume b: ?B
    then obtain xs ys where "log = xs @ s # ys" "key s \<le> v" "\<forall>t\<in>set xs. key t \<le> v \<longrightarrow> key t \<le> key s"
      "\<forall>t\<in>set ys. key t \<le> v \<longrightarrow> key t < key s" unfolding newest_in_def by blast
    then show ?L using b unfolding newest_in_def by (intro conjI exI [of _ xs] exI [of _ "ys @ [r]"]) simp_all
  qed
qed

lemma newest_SomeD: "newest key v log = Some b \<Longrightarrow> b \<in> set log \<and> key b \<le> v"
  by (induction log rule: rev_induct) (auto simp: newer_def split: if_splits)

lemma newest_max: "t \<in> set log \<Longrightarrow> key t \<le> v \<Longrightarrow> \<exists>b. newest key v log = Some b \<and> key t \<le> key b"
proof (induction log rule: rev_induct)
  case (snoc r log)
  show ?case
  proof (cases "t \<in> set log")
    case True
    then obtain b where b: "newest key v log = Some b" "key t \<le> key b" using snoc by blast
    show ?thesis
    proof (cases "key r \<le> v \<and> key b \<le> key r")
      case True
      then show ?thesis using b order_trans [of "key t" "key b" "key r"] by (simp add: newer_def)
    next
      case False
      then show ?thesis using b by (auto simp: newer_def)
    qed
  next
    case False
    then have "t = r" using snoc.prems(1) by simp
    then show ?thesis using snoc.prems(2) by (auto simp: newer_def split: option.splits)
  qed
qed simp

lemma newest_iff: "newest key v log = Some s \<longleftrightarrow> newest_in key v log s"
proof (induction log arbitrary: s rule: rev_induct)
  case Nil
  then show ?case by (simp add: newest_in_def)
next
  case (snoc r log)
  have max: "(\<forall>t\<in>set log. key t \<le> v \<longrightarrow> key t \<le> key r) \<longleftrightarrow>
      (case newest key v log of None \<Rightarrow> True | Some b \<Rightarrow> key b \<le> key r)"
  proof (cases "newest key v log")
    case None
    then show ?thesis using newest_max [of _ log key v] by force
  next
    case (Some b)
    then have "key t \<le> key b" if "t \<in> set log" "key t \<le> v" for t
      using newest_max [OF that(1), of key v] that(2) by simp
    then show ?thesis using newest_SomeD [OF Some] Some order_trans [of _ "key b" "key r"] by simp blast
  qed
  show ?case
    unfolding newest_in_snoc max snoc.IH [symmetric] newest_snoc newer_def
    by (cases "newest key v log") (auto simp: not_le)
qed

section \<open>Sorted vectors\<close>

definition last_option :: "'a list \<Rightarrow> 'a option" where
  "last_option xs = (if xs = [] then None else Some (last xs))"

lemma sorted_filter_last:
  fixes key :: "'a \<Rightarrow> u64"
  assumes "sorted (map key xs)" and ne: "filter (\<lambda>x. key x \<le> v) xs \<noteq> []"
  shows "xs ! (length (filter (\<lambda>x. key x \<le> v) xs) - 1) = last (filter (\<lambda>x. key x \<le> v) xs)" (is "xs ! (length ?ys - 1) = _")
proof -
  have "length ?ys - 1 < length ?ys" using ne by (cases ?ys) simp_all
  then have "take (length ?ys) xs ! (length ?ys - 1) = xs ! (length ?ys - 1)" by (rule nth_take)
  then show ?thesis unfolding sorted_filter_take [OF assms(1), of v] using last_conv_nth [OF ne] by simp
qed

lemma FindRange_sorted:
  fixes key :: "'a \<Rightarrow> u64"
  assumes "sorted (map key xs)"
  shows "FindRange key contains xs v =
     (case last_option (filter (\<lambda>x. key x \<le> v) xs) of None \<Rightarrow> None | Some r \<Rightarrow> if contains r v then Some r else None)"
proof -
  let ?ys = "filter (\<lambda>x. key x \<le> v) xs"
  have "lower_bound (\<lambda>x v. key x \<le> v) xs v = length ?ys"
    using bound_loop_takeWhile [OF sorted_partitioned [OF assms, of v]] sorted_takeWhile_filter [OF assms, of v]
    by (simp add: lower_bound_def)
  moreover have "?ys \<noteq> [] \<Longrightarrow> xs ! (length ?ys - 1) = last ?ys" by (rule sorted_filter_last [OF assms])
  ultimately show ?thesis by (simp add: FindRange_def last_option_def)
qed

lemma upper_bound_sorted:
  fixes key :: "'a \<Rightarrow> u64"
  assumes "sorted (map key xs)"
  shows "upper_bound (\<lambda>a b. key a < key b) xs r = length (filter (\<lambda>x. key x \<le> key r) xs)"
  using bound_loop_takeWhile [OF sorted_partitioned [OF assms, of "key r"]] sorted_takeWhile_filter [OF assms, of "key r"]
  by (simp add: upper_bound_def not_less)

lemma insert_at_sorted:
  fixes key :: "'a \<Rightarrow> u64"
  assumes "sorted (map key xs)"
  shows "insert_at (length (filter (\<lambda>x. key x \<le> key r) xs)) r xs =
     filter (\<lambda>x. key x \<le> key r) xs @ r # filter (\<lambda>x. key r < key x) xs"
  using sorted_filter_take [OF assms, of "key r"] sorted_filter_drop [OF assms, of "key r"]
  by (simp add: insert_at_def)

lemma sorted_insert_at:
  fixes key :: "'a \<Rightarrow> u64"
  assumes "sorted (map key xs)"
  shows "sorted (map key (filter (\<lambda>x. key x \<le> (key r :: u64)) xs @ r # filter (\<lambda>x. key r < key x) xs))"
proof -
  have "sorted (map key (filter P xs))" for P using assms by (simp add: sorted_map sorted_wrt_filter)
  then show ?thesis by (auto simp: sorted_append)
qed

text \<open>Inserting after the entries with the same start makes the new entry the newest.\<close>

lemma last_option_insert:
  fixes key :: "'a \<Rightarrow> u64"
  assumes "sorted (map key xs)"
  shows "last_option (filter (\<lambda>x. key x \<le> v) (filter (\<lambda>x. key x \<le> key r) xs @ r # filter (\<lambda>x. key r < key x) xs)) =
     newer key v r (last_option (filter (\<lambda>x. key x \<le> (v :: u64)) xs))"
proof -
  let ?A = "filter (\<lambda>x. key x \<le> key r) xs" and ?B = "filter (\<lambda>x. key r < key x) xs"
  have xs: "xs = ?A @ ?B"
    using sorted_filter_take [OF assms, of "key r"] sorted_filter_drop [OF assms, of "key r"] append_take_drop_id by metis
  have A: "\<forall>x\<in>set ?A. key x \<le> key r" and B: "\<forall>x\<in>set ?B. key r < key x" by auto
  have "last_option (filter (\<lambda>x. key x \<le> v) (A @ r # B)) = newer key v r (last_option (filter (\<lambda>x. key x \<le> v) (A @ B)))"
    if a: "\<forall>x\<in>set A. key x \<le> key r" and b: "\<forall>x\<in>set B. key r < key x" for A B
  proof (cases "filter (\<lambda>x. key x \<le> v) B = []")
    case True
    have "key (last (filter (\<lambda>x. key x \<le> v) A)) \<le> key r" if "filter (\<lambda>x. key x \<le> v) A \<noteq> []"
      using a last_in_set [OF that] by auto
    then show ?thesis using True by (auto simp: last_option_def newer_def)
  next
    case False
    have "key r < key (last (filter (\<lambda>x. key x \<le> v) B))"
      using b last_in_set [OF False] by auto
    then show ?thesis using False by (auto simp: last_option_def newer_def)
  qed
  from this [OF A B] show ?thesis using xs by metis
qed

section \<open>Pages\<close>

text \<open>A page is described by the log of the ranges that were registered on it, in order.\<close>

definition page_ok :: "CodeRange list \<Rightarrow> PageEntry \<Rightarrow> bool" where
  "page_ok log entry \<longleftrightarrow> sorted (map startAddress (ranges entry)) \<and>
     (\<forall>v. last_option (filter (\<lambda>r. startAddress r \<le> v) (ranges entry)) = newest startAddress v log)"

definition pages_ok :: "(u64 \<Rightarrow> CodeRange list) \<Rightarrow> ManagedCodeCache \<Rightarrow> bool" where
  "pages_ok logs c \<longleftrightarrow>
     (\<forall>p. case pagesMap c p of None \<Rightarrow> logs p = [] | Some entry \<Rightarrow> page_ok (logs p) entry)"

lemma newest_lower:
  "newest key v log = Some b \<Longrightarrow> key b \<le> w \<Longrightarrow> w \<le> v \<Longrightarrow> newest key w log = Some b"
  unfolding newest_iff newest_in_def
  by (elim conjE exE, intro conjI, assumption, intro exI conjI, assumption) (auto dest: order_trans [of _ w v])

lemma page_ok_empty: "page_ok [] \<lparr>ranges = []\<rparr>"
  by (simp add: page_ok_def last_option_def)

lemma InsertCodeRangeIntoPage_ok:
  assumes "page_ok log entry"
  shows "page_ok (log @ [r]) (InsertCodeRangeIntoPage r entry)"
proof -
  let ?rs = "ranges entry" and ?k = startAddress
  let ?ys = "filter (\<lambda>x. ?k x \<le> ?k r) ?rs"
  have s: "sorted (map ?k ?rs)" and n: "\<And>v. last_option (filter (\<lambda>r. ?k r \<le> v) ?rs) = newest ?k v log"
    using assms by (simp_all add: page_ok_def)
  have ub: "upper_bound (\<lambda>a b. ?k a < ?k b) ?rs r = length ?ys" by (rule upper_bound_sorted [OF s])
  show ?thesis
  proof (cases "length ?ys \<noteq> 0 \<and> ?rs ! (length ?ys - 1) = r")
    case True
    then have ne: "?ys \<noteq> []" by auto
    have "?rs ! (length ?ys - 1) = last ?ys" by (rule sorted_filter_last [OF s ne])
    then have r: "newest ?k (?k r) log = Some r" using n [of "?k r"] True ne by (simp add: last_option_def)
    have "newest ?k v log = newer ?k v r (newest ?k v log)" for v
    proof (cases "?k r \<le> v")
      case le: True
      obtain b where b: "newest ?k v log = Some b"
        using newest_max [of r log ?k v] newest_SomeD [OF r] le by auto
      have "b = r" if "?k b \<le> ?k r" using newest_lower [OF b that le] r by simp
      then show ?thesis using b by (auto simp: newer_def)
    qed (simp add: newer_def)
    moreover have "InsertCodeRangeIntoPage r entry = entry"
      using True by (simp add: InsertCodeRangeIntoPage_def ub)
    ultimately show ?thesis using s n by (simp add: page_ok_def)
  next
    case False
    then have "ranges (InsertCodeRangeIntoPage r entry) = ?ys @ r # filter (\<lambda>x. ?k r < ?k x) ?rs"
      using insert_at_sorted [OF s, of r] by (auto simp: InsertCodeRangeIntoPage_def ub Let_def)
    then show ?thesis
      using sorted_insert_at [OF s, of r] last_option_insert [OF s, of _ r] n by (simp add: page_ok_def)
  qed
qed

lemma add_to_page_ok:
  assumes "pages_ok logs c"
  shows "pages_ok (logs(p := logs p @ [r])) (add_to_page r p c)"
proof (cases "pagesMap c p")
  case None
  then have "logs p = []" using assms [unfolded pages_ok_def, rule_format, of p] by simp
  then have "page_ok (logs p @ [r]) (InsertCodeRangeIntoPage r \<lparr>ranges = []\<rparr>)"
    using InsertCodeRangeIntoPage_ok [OF page_ok_empty, of r] by simp
  then show ?thesis using assms None by (auto simp: pages_ok_def add_to_page_def try_emplace_def cong: option.case_cong)
next
  case (Some entry)
  then have "page_ok (logs p) entry" using assms [unfolded pages_ok_def, rule_format, of p] by simp
  then show ?thesis
    using assms Some InsertCodeRangeIntoPage_ok [of "logs p" entry r]
    by (auto simp: pages_ok_def add_to_page_def cong: option.case_cong)
qed

lemma add_to_page_frame [simp]:
  "modulesCodeRanges (add_to_page r p c) = modulesCodeRanges c"
  "profilerInfo9 (add_to_page r p c) = profilerInfo9 c"
  "lockFailureMetric (add_to_page r p c) = lockFailureMetric c"
  by (simp_all add: add_to_page_def split: option.splits prod.splits)

text \<open>The page loop ends because page numbers stay below \<open>2\<^sup>4\<^sup>8\<close>, so the counter cannot wrap around.\<close>

lemma unat_GetPageNumber: "unat (GetPageNumber a) = unat a div 2 ^ 16"
  unfolding GetPageNumber_def PAGE_SHIFT_def by (simp add: drop_bit_eq_div unat_div)

lemma GetPageNumber_less: "unat (GetPageNumber a) < 2 ^ 48"
  using unat_u64_less [of a] by (simp add: unat_GetPageNumber)

lemma GetPageNumber_mono: "a \<le> b \<Longrightarrow> GetPageNumber a \<le> GetPageNumber b"
  by (simp add: word_le_nat_alt unat_GetPageNumber div_le_mono)

definition same_modules :: "ManagedCodeCache \<Rightarrow> ManagedCodeCache \<Rightarrow> bool" where
  "same_modules c d \<longleftrightarrow> modulesCodeRanges d = modulesCodeRanges c \<and> profilerInfo9 d = profilerInfo9 c \<and>
     lockFailureMetric d = lockFailureMetric c"

lemma page_loop_ok:
  assumes "pages_ok logs c" and "unat e < 2 ^ 48"
  shows "\<exists>d. page_loop r p e c = Some d \<and> same_modules c d \<and>
     pages_ok (\<lambda>q. if p \<le> q \<and> q \<le> e then logs q @ [r] else logs q) d"
  using assms(1)
proof (induction "unat e + 1 - unat p" arbitrary: p c logs)
  case 0
  then have "\<not> p \<le> e" by (simp add: word_le_nat_alt)
  moreover from this have "(\<lambda>q. if p \<le> q \<and> q \<le> e then logs q @ [r] else logs q) = logs" by force
  ultimately show ?case using 0 by (subst page_loop.simps) (simp add: same_modules_def)
next
  case (Suc n)
  then have le: "p \<le> e" by (simp add: word_le_nat_alt)
  have u: "unat (p + 1) = unat p + 1"
    using le assms(2) by (simp add: word_le_nat_alt unat_word_ariths)
  have next_page: "(p + 1 \<le> q \<and> q \<le> e \<or> q = p) \<longleftrightarrow> (p \<le> q \<and> q \<le> e)" for q
    using le u by (auto simp: word_le_nat_alt word_unat_eq_iff)
  have n: "n = unat e + 1 - unat (p + 1)" using Suc.hyps(2) u by simp
  obtain d where d: "page_loop r (p + 1) e (add_to_page r p c) = Some d" "same_modules (add_to_page r p c) d"
    "pages_ok (\<lambda>q. if p + 1 \<le> q \<and> q \<le> e then (logs(p := logs p @ [r])) q @ [r] else (logs(p := logs p @ [r])) q) d"
    using Suc.hyps(1) [OF n add_to_page_ok [OF Suc.prems, of p r]] by blast
  have "\<not> p + 1 \<le> p" using u by (simp add: word_le_nat_alt)
  then have "(\<lambda>q. if p + 1 \<le> q \<and> q \<le> e then (logs(p := logs p @ [r])) q @ [r] else (logs(p := logs p @ [r])) q) =
      (\<lambda>q. if p \<le> q \<and> q \<le> e then logs q @ [r] else logs q)"
    using next_page le by (intro ext) auto
  then show ?case using d le by (subst page_loop.simps) (auto simp: same_modules_def)
qed

section \<open>Lookups in a history of registrations\<close>

definition page_log :: "CodeRange list \<Rightarrow> u64 \<Rightarrow> CodeRange list" where
  "page_log log p = filter (\<lambda>r. GetPageNumber (startAddress r) \<le> p \<and> p \<le> GetPageNumber (endAddress r)) log"

definition range_info :: "CodeRange \<Rightarrow> FunctionInfo" where
  "range_info r = \<lparr>FunctionId = functionId r, IsDynamic = isDynamic r\<rparr>"

text \<open>
  The range that a lookup has to find: it contains the address, no range registered before it that
  reaches the page of the address starts between, and none registered after it starts between or at
  the same place.
\<close>

definition reaches :: "CodeRange \<Rightarrow> u64 \<Rightarrow> bool" where
  "reaches r ip \<longleftrightarrow> startAddress r \<le> ip \<and> GetPageNumber ip \<le> GetPageNumber (endAddress r)"

definition current_range :: "CodeRange list \<Rightarrow> u64 \<Rightarrow> CodeRange \<Rightarrow> bool" where
  "current_range log ip r \<longleftrightarrow> contains_ip r ip \<and> (\<exists>xs ys. log = xs @ r # ys \<and>
     (\<forall>s\<in>set xs. reaches s ip \<longrightarrow> startAddress s \<le> startAddress r) \<and>
     (\<forall>s\<in>set ys. reaches s ip \<longrightarrow> startAddress s < startAddress r))"

lemma filter_eq_appendD:
  "filter P log = xs @ ys \<Longrightarrow> \<exists>us vs. log = us @ vs \<and> filter P us = xs \<and> filter P vs = ys"
proof (induction log arbitrary: xs)
  case (Cons a log)
  show ?case
  proof (cases "P a \<and> xs \<noteq> []")
    case True
    then obtain zs where zs: "xs = a # zs" "filter P log = zs @ ys" using Cons.prems by (cases xs) auto
    then obtain us vs where "log = us @ vs" "filter P us = zs" "filter P vs = ys" using Cons.IH by blast
    then show ?thesis using True zs by (intro exI [of _ "a # us"] exI [of _ vs]) simp
  next
    case f: False
    show ?thesis
    proof (cases "P a")
      case True
      then show ?thesis using f Cons.prems by (intro exI [of _ "[]"] exI [of _ "a # log"]) simp
    next
      case False
      then obtain us vs where "log = us @ vs" "filter P us = xs" "filter P vs = ys" using Cons by auto
      then show ?thesis using False by (intro exI [of _ "a # us"] exI [of _ vs]) simp
    qed
  qed
qed simp

lemma newest_in_filter:
  "newest_in key v (filter P log) r \<longleftrightarrow> P r \<and> key r \<le> v \<and> (\<exists>xs ys. log = xs @ r # ys \<and>
     (\<forall>s\<in>set xs. P s \<and> key s \<le> v \<longrightarrow> key s \<le> key r) \<and> (\<forall>s\<in>set ys. P s \<and> key s \<le> v \<longrightarrow> key s < key r))"
  (is "?L \<longleftrightarrow> ?R")
proof
  assume ?L
  then obtain xs ys where l: "key r \<le> v" "filter P log = xs @ r # ys" "\<forall>s\<in>set xs. key s \<le> v \<longrightarrow> key s \<le> key r"
    "\<forall>s\<in>set ys. key s \<le> v \<longrightarrow> key s < key r" unfolding newest_in_def by blast
  then obtain us vs where u: "log = us @ vs" "filter P us = xs" "filter P vs = r # ys"
    using filter_eq_appendD by metis
  then obtain ws zs where w: "vs = ws @ r # zs" "\<forall>w\<in>set ws. \<not> P w" "P r" "ys = filter P zs"
    by (auto simp: filter_eq_Cons_iff)
  show ?R
    using l u w by (intro conjI exI [of _ "us @ ws"] exI [of _ zs]) auto
next
  assume ?R
  then obtain xs ys where r: "P r" "key r \<le> v" "log = xs @ r # ys" "\<forall>s\<in>set xs. P s \<and> key s \<le> v \<longrightarrow> key s \<le> key r"
    "\<forall>s\<in>set ys. P s \<and> key s \<le> v \<longrightarrow> key s < key r" by blast
  then show ?L
    unfolding newest_in_def by (intro conjI exI [of _ "filter P xs"] exI [of _ "filter P ys"]) auto
qed

lemma reaches_log: "(GetPageNumber (startAddress s) \<le> GetPageNumber ip \<and> GetPageNumber ip \<le> GetPageNumber (endAddress s)) \<and>
    startAddress s \<le> ip \<longleftrightarrow> reaches s ip"
  using GetPageNumber_mono [of "startAddress s" ip] by (auto simp: reaches_def)

lemma newest_current:
  "newest startAddress ip (page_log log (GetPageNumber ip)) = Some r \<and> contains_ip r ip \<longleftrightarrow> current_range log ip r"
proof -
  have "contains_ip r ip \<Longrightarrow> GetPageNumber (startAddress r) \<le> GetPageNumber ip \<and> GetPageNumber ip \<le> GetPageNumber (endAddress r) \<and> startAddress r \<le> ip"
    by (simp add: contains_ip_def GetPageNumber_mono)
  then show ?thesis
    unfolding newest_iff page_log_def newest_in_filter reaches_log current_range_def by blast
qed

lemma GetFunctionInfoImpl_page:
  assumes "pages_ok logs c"
  shows "GetFunctionInfoImpl ip c = Some info \<longleftrightarrow>
     (\<exists>r. newest startAddress ip (logs (GetPageNumber ip)) = Some r \<and> contains_ip r ip \<and> info = range_info r)"
proof (cases "pagesMap c (GetPageNumber ip)")
  case None
  then have "logs (GetPageNumber ip) = []" using assms [unfolded pages_ok_def, rule_format, of "GetPageNumber ip"] by simp
  then show ?thesis using None by (simp add: GetFunctionInfoImpl_def)
next
  case (Some entry)
  then have "page_ok (logs (GetPageNumber ip)) entry"
    using assms [unfolded pages_ok_def, rule_format, of "GetPageNumber ip"] by simp
  then show ?thesis
    using Some FindRange_sorted [of startAddress "ranges entry" contains_ip ip]
    by (auto simp: GetFunctionInfoImpl_def page_ok_def range_info_def split: option.splits)
qed

lemma AddFunctionRangesToCache_ok:
  "pages_ok (page_log log) c \<Longrightarrow>
     \<exists>d. AddFunctionRangesToCache rs c = Some d \<and> same_modules c d \<and> pages_ok (page_log (log @ rs)) d"
proof (induction rs arbitrary: log c)
  case (Cons r rs)
  let ?p = "GetPageNumber (startAddress r)" and ?e = "GetPageNumber (endAddress r)"
  have "(\<lambda>q. if ?p \<le> q \<and> q \<le> ?e then page_log log q @ [r] else page_log log q) = page_log (log @ [r])"
    by (auto simp: page_log_def)
  then obtain d where d: "page_loop r ?p ?e c = Some d" "same_modules c d" "pages_ok (page_log (log @ [r])) d"
    using page_loop_ok [OF Cons.prems GetPageNumber_less, of r ?p "endAddress r"] by auto
  then show ?case using Cons.IH [OF d(3)] by (auto simp: same_modules_def)
qed (simp add: same_modules_def)

text \<open>A call of \<open>AddFunction\<close>, with the answers that the runtime gives it.\<close>

type_synonym add_call = "CodeApi \<times> COR_PRF_CODE_INFO list \<times> FunctionID \<times> bool \<times> u64"

fun add_functions :: "add_call list \<Rightarrow> ManagedCodeCache \<Rightarrow> ManagedCodeCache option" where
  "add_functions [] c = Some c"
| "add_functions ((api, codeInfos, f, dyn, reJit) # calls) c =
     (case AddFunction api codeInfos f dyn reJit c of None \<Rightarrow> None | Some d \<Rightarrow> add_functions calls d)"

fun call_ranges :: "ManagedCodeCache \<Rightarrow> add_call \<Rightarrow> CodeRange list" where
  "call_ranges c (api, codeInfos, f, dyn, reJit) = GetCodeRanges api codeInfos f dyn reJit c"

lemma call_ranges_cong: "profilerInfo9 c = profilerInfo9 d \<Longrightarrow> call_ranges c k = call_ranges d k"
  by (cases k) (simp add: GetCodeRanges_def)

lemma appendRanges_of: "\<forall>r\<in>set (appendRanges f dyn infos count). functionId r = f \<and> isDynamic r = dyn"
  by (auto simp: appendRanges_def)

lemma blocks_loop_of: "\<forall>r\<in>set (blocks_loop api f dyn starts infos). functionId r = f \<and> isDynamic r = dyn"
  by (induction starts arbitrary: infos) (auto simp: Let_def appendRanges_of split: prod.splits)

lemma enumeration_loop_of:
  "enumeration_loop api f dyn reJit infos n count starts = Some rs \<Longrightarrow> \<forall>r\<in>set rs. functionId r = f \<and> isDynamic r = dyn"
  by (induction n arbitrary: count starts) (auto simp: Let_def blocks_loop_of split: prod.splits if_splits)

lemma GetCodeRanges_of: "\<forall>r\<in>set (GetCodeRanges api infos f dyn reJit c). functionId r = f \<and> isDynamic r = dyn"
  by (auto simp: GetCodeRanges_def Let_def appendRanges_of split: prod.splits option.splits if_splits
    dest: enumeration_loop_of enumeration_loop_of [OF sym])

lemma AddFunction_ok:
  assumes "pages_ok (page_log log) c"
  shows "\<exists>d. AddFunction api codeInfos f dyn reJit c = Some d \<and> same_modules c d \<and>
     pages_ok (page_log (log @ GetCodeRanges api codeInfos f dyn reJit c)) d"
  using AddFunctionRangesToCache_ok [OF assms, of "GetCodeRanges api codeInfos f dyn reJit c"] assms
  by (simp add: AddFunction_def Let_def same_modules_def)

lemma add_functions_ok:
  "pages_ok (page_log log) c \<Longrightarrow>
     \<exists>d. add_functions calls c = Some d \<and> same_modules c d \<and> pages_ok (page_log (log @ concat (map (call_ranges c) calls))) d"
proof (induction calls arbitrary: log c)
  case (Cons k calls)
  obtain api codeInfos f dyn reJit where call: "k = (api, codeInfos, f, dyn, reJit)" by (cases k)
  obtain d where d: "AddFunction api codeInfos f dyn reJit c = Some d" "same_modules c d"
    "pages_ok (page_log (log @ call_ranges c k)) d"
    using AddFunction_ok [OF Cons.prems, of api codeInfos f dyn reJit] call by auto
  have "call_ranges d = call_ranges c" using d(2) by (intro ext call_ranges_cong) (simp add: same_modules_def)
  then show ?case using Cons.IH [OF d(3)] d call by (auto simp: same_modules_def)
qed (simp add: same_modules_def)

lemma pages_ok_new: "pages_ok (page_log []) (snd (InitializeCache info9 newManagedCodeCache))"
  by (simp add: pages_ok_def page_log_def InitializeCache_def newManagedCodeCache_def)

text \<open>
  C6. Registering functions always returns, whatever ranges the runtime reports, and afterwards a lookup
  answers with the identifier and the kind of exactly the current range at the address: the one that
  contains it and that was registered last among those that start closest below it. An address of no
  such range is not found.
\<close>

theorem AddFunction_lookup:
  "let c = snd (InitializeCache info9 newManagedCodeCache);
       log = concat (map (call_ranges c) calls)
   in \<exists>d. add_functions calls c = Some d \<and>
        (\<forall>ip info. GetFunctionInfoImpl ip d = Some info \<longleftrightarrow> (\<exists>r. current_range log ip r \<and> info = range_info r))"
proof -
  let ?c = "snd (InitializeCache info9 newManagedCodeCache)"
  obtain d where d: "add_functions calls ?c = Some d" "pages_ok (page_log (concat (map (call_ranges ?c) calls))) d"
    using add_functions_ok [OF pages_ok_new, of calls] by auto
  then show ?thesis
    unfolding Let_def using GetFunctionInfoImpl_page [OF d(2)] newest_current by (intro exI [of _ d]) blast
qed

section \<open>Loading and unloading modules\<close>

text \<open>The calls \<open>AddModule\<close> and \<open>RemoveModule\<close>, with the memory and the module information they see.\<close>

datatype module_event = Load memory "HRESULT \<times> u64 \<times> u32" | Unload memory "HRESULT \<times> u64 \<times> u32"

fun module_step :: "module_event \<Rightarrow> ManagedCodeCache \<Rightarrow> abort + ManagedCodeCache" where
  "module_step (Load mem info) c = AddModule mem info c"
| "module_step (Unload mem info) c = RemoveModule mem info c"

fun module_run :: "module_event list \<Rightarrow> ManagedCodeCache \<Rightarrow> abort + ManagedCodeCache" where
  "module_run [] c = Inr c"
| "module_run (e # es) c = and_then (module_step e c) (module_run es)"

definition bounds :: "ModuleCodeRange \<Rightarrow> u64 \<times> u64" where
  "bounds r = (m_startAddress r, m_endAddress r)"

text \<open>The executable sections that an event names.\<close>

fun event_sections :: "module_event \<Rightarrow> (u64 \<times> u64) list" where
  "event_sections (Load mem info) = (case GetModuleCodeRanges mem info of Inl _ \<Rightarrow> [] | Inr rs \<Rightarrow> map bounds rs)"
| "event_sections (Unload mem info) = (case GetModuleCodeRanges mem info of Inl _ \<Rightarrow> [] | Inr rs \<Rightarrow> map bounds rs)"

fun loaded_sections :: "module_event list \<Rightarrow> (u64 \<times> u64) list" where
  "loaded_sections [] = []"
| "loaded_sections (Load mem info # es) = event_sections (Load mem info) @ loaded_sections es"
| "loaded_sections (Unload mem info # es) = loaded_sections es"

fun live_after :: "module_event \<Rightarrow> (u64 \<times> u64) set \<Rightarrow> (u64 \<times> u64) set" where
  "live_after (Load mem info) l = l \<union> set (event_sections (Load mem info))"
| "live_after (Unload mem info) l = l - set (event_sections (Unload mem info))"

definition disjoint_sections :: "(u64 \<times> u64) list \<Rightarrow> bool" where
  "disjoint_sections ss \<longleftrightarrow> (\<forall>(s, e)\<in>set ss. s \<le> e) \<and>
     sorted_wrt (\<lambda>(s, e) (s', e'). e < s' \<or> e' < s) ss"

text \<open>
  The vector of module ranges describes a set of loaded sections and the subset of the live ones.
\<close>

definition modules_ok :: "(u64 \<times> u64) set \<Rightarrow> (u64 \<times> u64) set \<Rightarrow> ModuleCodeRange list \<Rightarrow> bool" where
  "modules_ok loaded live ms \<longleftrightarrow> sorted_wrt (\<lambda>a b. m_endAddress a < m_startAddress b) ms \<and>
     bounds ` set ms = loaded \<and> (\<forall>r\<in>set ms. m_startAddress r \<le> m_endAddress r \<and> (m_isRemoved r \<longleftrightarrow> bounds r \<notin> live))"

lemma modules_ok_sorted: "modules_ok loaded live ms \<Longrightarrow> sorted (map m_startAddress ms)"
  unfolding modules_ok_def sorted_map
  by (elim conjE, rule sorted_wrt_mono_rel [rotated], assumption) (meson less_imp_le order_trans)

lemma insert_module_range_ok:
  assumes ok: "modules_ok loaded live ms" and r: "m_startAddress r \<le> m_endAddress r" "\<not> m_isRemoved r"
    and disj: "\<forall>(s, e)\<in>loaded. e < m_startAddress r \<or> m_endAddress r < s"
  shows "modules_ok (insert (bounds r) loaded) (insert (bounds r) live) (insert_module_range r ms)"
proof -
  let ?k = m_startAddress
  let ?A = "filter (\<lambda>x. ?k x \<le> ?k r) ms" and ?B = "filter (\<lambda>x. ?k r < ?k x) ms"
  have s: "sorted (map ?k ms)" by (rule modules_ok_sorted [OF ok])
  have ins: "insert_module_range r ms = ?A @ r # ?B"
    unfolding insert_module_range_def upper_bound_sorted [OF s] by (rule insert_at_sorted [OF s])
  have d: "m_endAddress x < ?k r \<or> m_endAddress r < ?k x" if "x \<in> set ms" for x
    using disj ok that unfolding modules_ok_def bounds_def by force
  have A: "m_endAddress x < ?k r" if "x \<in> set ?A" for x
    using d [of x] that r(1) by (auto dest: order_less_le_trans leD)
  have B: "m_endAddress r < ?k x" if "x \<in> set ?B" for x
    using d [of x] that ok by (auto simp: modules_ok_def dest: order_le_less_trans less_asym)
  have AB: "m_endAddress x < ?k y" if "x \<in> set ?A" "y \<in> set ?B" for x y
    using A [OF that(1)] that(2) by (auto intro: order_less_trans)
  have "bounds x \<noteq> bounds r" if "x \<in> set ms" for x
    using d [OF that] that ok r(1) by (auto simp: modules_ok_def bounds_def)
  moreover have "set (insert_module_range r ms) = insert r (set ms)" unfolding ins by auto
  moreover have "sorted_wrt (\<lambda>a b. m_endAddress a < ?k b) (insert_module_range r ms)"
    unfolding ins using ok A B AB by (simp add: sorted_wrt_append modules_ok_def sorted_wrt_filter)
  ultimately show ?thesis using ok r by (simp add: modules_ok_def)
qed

lemma modules_ok_distinct:
  assumes "modules_ok loaded live ms"
  shows "distinct (map bounds ms)"
proof -
  have "sorted_wrt (\<lambda>a b. m_startAddress a < m_startAddress b) ms"
    by (rule sorted_wrt_mono_rel [of _ "\<lambda>a b. m_endAddress a < m_startAddress b"])
      (use assms in \<open>auto simp: modules_ok_def intro: order_le_less_trans\<close>)
  then have "distinct (map fst (map bounds ms))"
    by (simp add: sorted_wrt_map [symmetric] strict_sorted_iff bounds_def comp_def)
  then show ?thesis unfolding distinct_map [of fst] by blast
qed

lemma mark_removed_map:
  "distinct (map bounds ms) \<Longrightarrow>
     mark_removed r ms = map (\<lambda>x. if bounds x = bounds r then x\<lparr>m_isRemoved := True\<rparr> else x) ms"
proof (induction ms)
  case (Cons m ms)
  show ?case
  proof (cases "bounds m = bounds r")
    case True
    then have "\<forall>x\<in>set ms. bounds x \<noteq> bounds r" using Cons.prems by (metis distinct.simps(2) image_eqI list.simps(9) set_map)
    then have "map (\<lambda>x. if bounds x = bounds r then x\<lparr>m_isRemoved := True\<rparr> else x) ms = ms" by (simp add: map_idI)
    then show ?thesis using True by (simp add: bounds_def)
  next
    case False
    then show ?thesis using Cons by (auto simp: bounds_def)
  qed
qed simp

lemma mark_removed_ok:
  assumes "modules_ok loaded live ms"
  shows "modules_ok loaded (live - {bounds r}) (mark_removed r ms)"
proof -
  define f where "f x = (if bounds x = bounds r then x\<lparr>m_isRemoved := True\<rparr> else x)" for x
  have f: "mark_removed r ms = map f ms"
    unfolding f_def by (rule mark_removed_map [OF modules_ok_distinct [OF assms]])
  have b: "bounds (f x) = bounds x" "m_startAddress (f x) = m_startAddress x" "m_endAddress (f x) = m_endAddress x"
    "m_isRemoved (f x) \<longleftrightarrow> bounds x = bounds r \<or> m_isRemoved x" for x
    by (auto simp: f_def bounds_def)
  show ?thesis using assms unfolding f modules_ok_def by (auto simp: b sorted_wrt_map image_image)
qed

lemma insert_all_ok:
  "modules_ok loaded live ms \<Longrightarrow> \<forall>r\<in>set rs. \<not> m_isRemoved r \<Longrightarrow> disjoint_sections (map bounds rs) \<Longrightarrow>
     \<forall>(s, e)\<in>loaded. \<forall>(s', e')\<in>set (map bounds rs). e < s' \<or> e' < s \<Longrightarrow>
     modules_ok (loaded \<union> bounds ` set rs) (live \<union> bounds ` set rs) (fold insert_module_range rs ms)"
proof (induction rs arbitrary: loaded live ms)
  case (Cons r rs)
  have "modules_ok (insert (bounds r) loaded) (insert (bounds r) live) (insert_module_range r ms)"
    using Cons.prems by (intro insert_module_range_ok) (auto simp: disjoint_sections_def bounds_def)
  then have "modules_ok (insert (bounds r) loaded \<union> bounds ` set rs) (insert (bounds r) live \<union> bounds ` set rs)
      (fold insert_module_range rs (insert_module_range r ms))"
    using Cons.prems by (intro Cons.IH) (auto simp: disjoint_sections_def bounds_def)
  then show ?case by simp
qed simp

lemma mark_all_ok:
  "modules_ok loaded live ms \<Longrightarrow> modules_ok loaded (live - bounds ` set rs) (fold mark_removed rs ms)"
proof (induction rs arbitrary: live ms)
  case (Cons r rs)
  have "live - {bounds r} - bounds ` set rs = live - bounds ` set (r # rs)" by auto
  then show ?case using Cons.IH [OF mark_removed_ok [OF Cons.prems, of r]] by simp
qed simp

lemma IsCodeInR2RModule_live:
  assumes ok: "modules_ok loaded live (modulesCodeRanges c)" and sub: "live \<subseteq> loaded"
  shows "IsCodeInR2RModule lock ip False c = Some (\<exists>(s, e)\<in>live. s \<le> ip \<and> ip \<le> e)"
proof -
  let ?ms = "modulesCodeRanges c"
  let ?ys = "filter (\<lambda>x. m_startAddress x \<le> ip) ?ms"
  have find: "FindRange m_startAddress module_contains_ip ?ms ip =
     (case last_option ?ys of None \<Rightarrow> None | Some r \<Rightarrow> if module_contains_ip r ip then Some r else None)"
    by (rule FindRange_sorted [OF modules_ok_sorted [OF ok]])
  have last: "x = last ?ys" if x: "x \<in> set ?ms" "module_contains_ip x ip" for x
  proof -
    have "x \<in> set ?ys" using x by (simp add: module_contains_ip_def)
    then obtain us vs where ys: "?ys = us @ x # vs" by (meson split_list)
    have "sorted_wrt (\<lambda>a b. m_endAddress a < m_startAddress b) ?ys" using ok by (simp add: modules_ok_def sorted_wrt_filter)
    then have "\<forall>y\<in>set vs. m_endAddress x < m_startAddress y" unfolding ys by (simp add: sorted_wrt_append)
    moreover have "set vs \<subseteq> set ?ys" unfolding ys by auto
    then have "\<forall>y\<in>set vs. m_startAddress y \<le> ip" by auto
    ultimately have "vs = []" using x(2) by (cases vs) (auto simp: module_contains_ip_def)
    then show ?thesis by (simp add: ys)
  qed
  have live: "(\<exists>(s, e)\<in>live. s \<le> ip \<and> ip \<le> e) \<longleftrightarrow> (\<exists>r\<in>set ?ms. module_contains_ip r ip \<and> \<not> m_isRemoved r)"
    using ok sub unfolding modules_ok_def module_contains_ip_def bounds_def by fastforce
  show ?thesis
  proof (cases "\<exists>x\<in>set ?ms. module_contains_ip x ip")
    case True
    then obtain x where x: "x \<in> set ?ms" "module_contains_ip x ip" by blast
    then have "?ys \<noteq> []" by (auto simp: module_contains_ip_def filter_empty_conv)
    then have "FindRange m_startAddress module_contains_ip ?ms ip = Some x"
      unfolding find using last [OF x] x(2) by (simp add: last_option_def)
    moreover have "(\<exists>(s, e)\<in>live. s \<le> ip \<and> ip \<le> e) \<longleftrightarrow> \<not> m_isRemoved x" unfolding live using x last by metis
    ultimately show ?thesis using x(2) by (simp add: IsCodeInR2RModule_def)
  next
    case False
    have "last ?ys \<in> set ?ms" if "?ys \<noteq> []" using last_in_set [OF that] by simp
    then have "FindRange m_startAddress module_contains_ip ?ms ip = None"
      unfolding find using False by (auto simp: last_option_def)
    then show ?thesis unfolding live using False by (auto simp: IsCodeInR2RModule_def)
  qed
qed

lemma section_loop_fresh: "section_loop mem base header n = Inr rs \<Longrightarrow> \<forall>r\<in>set rs. \<not> m_isRemoved r"
  by (induction n arbitrary: header rs) (auto simp: and_then_def Let_def split: sum.splits if_splits)

lemma GetModuleCodeRanges_fresh: "GetModuleCodeRanges mem info = Inr rs \<Longrightarrow> \<forall>r\<in>set rs. \<not> m_isRemoved r"
  by (auto simp: GetModuleCodeRanges_def and_then_def Let_def split: sum.splits if_splits prod.splits dest: section_loop_fresh)

lemma module_step_ok:
  assumes "module_step e c = Inr d" and "modules_ok loaded live (modulesCodeRanges c)"
    and "disjoint_sections (loaded_sections [e])"
    and "\<forall>(s, t)\<in>loaded. \<forall>(s', t')\<in>set (loaded_sections [e]). t < s' \<or> t' < s"
  shows "modules_ok (loaded \<union> set (loaded_sections [e])) (live_after e live) (modulesCodeRanges d)"
proof (cases e)
  case (Load mem info)
  then obtain rs where rs: "GetModuleCodeRanges mem info = Inr rs" and d: "d = (if rs = [] then c else AddModuleRangesToCache rs c)"
    using assms(1) by (auto simp: AddModule_def and_then_def split: sum.splits)
  have "modules_ok (loaded \<union> bounds ` set rs) (live \<union> bounds ` set rs) (fold insert_module_range rs (modulesCodeRanges c))"
    using assms Load rs GetModuleCodeRanges_fresh [OF rs] by (intro insert_all_ok) auto
  then show ?thesis using Load rs d by (auto simp: AddModuleRangesToCache_def)
next
  case (Unload mem info)
  then obtain rs where rs: "GetModuleCodeRanges mem info = Inr rs" and d: "d = (if rs = [] then c else RemoveModuleRanges rs c)"
    using assms(1) by (auto simp: RemoveModule_def and_then_def split: sum.splits)
  then show ?thesis
    using Unload mark_all_ok [OF assms(2), of rs] assms(2) by (auto simp: RemoveModuleRanges_def)
qed

lemma disjoint_sections_append:
  "disjoint_sections (xs @ ys) \<longleftrightarrow> disjoint_sections xs \<and> disjoint_sections ys \<and>
     (\<forall>(s, e)\<in>set xs. \<forall>(s', e')\<in>set ys. e < s' \<or> e' < s)"
  by (auto simp: disjoint_sections_def sorted_wrt_append)

lemma loaded_sections_Cons: "loaded_sections (e # es) = loaded_sections [e] @ loaded_sections es"
  by (cases e) simp_all

lemma module_run_ok:
  "module_run es c = Inr d \<Longrightarrow> modules_ok (set log) live (modulesCodeRanges c) \<Longrightarrow> live \<subseteq> set log \<Longrightarrow>
     disjoint_sections (log @ loaded_sections es) \<Longrightarrow>
     modules_ok (set log \<union> set (loaded_sections es)) (fold live_after es live) (modulesCodeRanges d) \<and>
     fold live_after es live \<subseteq> set log \<union> set (loaded_sections es)"
proof (induction es arbitrary: c log live)
  case (Cons e es)
  obtain c' where c': "module_step e c = Inr c'" "module_run es c' = Inr d"
    using Cons.prems(1) by (auto simp: and_then_def split: sum.splits)
  have disj: "disjoint_sections ((log @ loaded_sections [e]) @ loaded_sections es)"
    using Cons.prems(4) by (simp only: loaded_sections_Cons [of e es] append_assoc)
  have "modules_ok (set (log @ loaded_sections [e])) (live_after e live) (modulesCodeRanges c')"
    using module_step_ok [OF c'(1) Cons.prems(2)] disj unfolding disjoint_sections_append [of "log @ loaded_sections [e]"]
      disjoint_sections_append [of log "loaded_sections [e]"] by simp
  moreover have "live_after e live \<subseteq> set (log @ loaded_sections [e])" using Cons.prems(3) by (cases e) auto
  ultimately show ?case using Cons.IH [OF c'(2) _ _ disj] by (simp add: loaded_sections_Cons [of e es] Un_assoc)
qed simp

text \<open>
  While the executable sections of all modules that are ever loaded are disjoint, that is as long as
  no address range is used twice, an address is in a precompiled module exactly when it is in a section
  that was loaded and not unloaded afterwards.
\<close>

lemma module_lookup_live:
  assumes "module_run es newManagedCodeCache = Inr c" and "disjoint_sections (loaded_sections es)"
  shows "IsCodeInR2RModule lock ip False c = Some (\<exists>(s, e)\<in>fold live_after es {}. s \<le> ip \<and> ip \<le> e)"
proof -
  have "modules_ok (set []) {} (modulesCodeRanges newManagedCodeCache)"
    by (simp add: modules_ok_def newManagedCodeCache_def)
  then show ?thesis using module_run_ok [OF assms(1), of "[]" "{}"] assms(2) IsCodeInR2RModule_live by auto
qed

text \<open>A small image at \<open>0x10000\<close> with one executable section of 16 bytes at offset \<open>0x1000\<close>.\<close>

definition image_bytes :: "u8 list" where
  "image_bytes = [0x4D, 0x5A] @ replicate 58 0 @ [64, 0, 0, 0] @ [0x50, 0x45, 0, 0] @
     [0, 0, 1, 0] @ replicate 12 0 @ [0, 0, 0, 0] @
     replicate 8 0 @ [16, 0, 0, 0] @ [0, 0x10, 0, 0] @ replicate 20 0 @ [0, 0, 0, 0x20]"

definition image_memory :: memory where
  "image_memory a = (let i = unat (a - 0x10000) in if i < length image_bytes then Some (image_bytes ! i) else None)"

lemma image_loads:
  "load_bytes image_memory 0x10000 2 = Some [0x4D, 0x5A]"
  "load_bytes image_memory 0x1003C 4 = Some [64, 0, 0, 0]"
  "load_bytes image_memory 0x10040 4 = Some [0x50, 0x45, 0, 0]"
  "load_bytes image_memory 0x10054 2 = Some [0, 0]"
  "load_bytes image_memory 0x10046 2 = Some [1, 0]"
  "load_bytes image_memory 0x1007C 4 = Some [0, 0, 0, 0x20]"
  "load_bytes image_memory 0x10064 4 = Some [0, 0x10, 0, 0]"
  "load_bytes image_memory 0x10060 4 = Some [16, 0, 0, 0]"
  by code_simp+

lemma image_ranges:
  "GetModuleCodeRanges image_memory (0, 0x10000, 2) =
     Inr [\<lparr>m_startAddress = 0x11000, m_endAddress = 0x1100F, m_isRemoved = False\<rparr>]"
proof -
  have "section_loop image_memory 0x10000 0x10058 (Suc 0) =
      Inr [\<lparr>m_startAddress = 0x11000, m_endAddress = 0x1100F, m_isRemoved = False\<rparr>]"
    by (simp add: read32_def load32_def image_loads and_then_def Let_def IMAGE_SCN_MEM_EXECUTE_def)
  then show ?thesis
    by (simp del: section_loop.simps add: GetModuleCodeRanges_def SUCCEEDED_def COR_PRF_MODULE_NGEN_def read16_def read32_def load32_def image_loads and_then_def
      IMAGE_DOS_SIGNATURE_def IMAGE_NT_SIGNATURE_def Let_def)
qed

lemma insert_module_range_sorted:
  "sorted (map m_startAddress ms) \<Longrightarrow> insert_module_range r ms =
     filter (\<lambda>x. m_startAddress x \<le> m_startAddress r) ms @ r # filter (\<lambda>x. m_startAddress r < m_startAddress x) ms"
  unfolding insert_module_range_def by (simp only: upper_bound_sorted insert_at_sorted)

text \<open>
  C29. When a module is loaded again at the address range it had before, unloading it a second time marks
  the entry of the first load once more, and the addresses of its section are still reported as managed,
  although they were not after the first unload.
\<close>

theorem RemoveModule_after_reload:
  assumes "GetModuleCodeRanges mem info = Inr [r]" and "module_contains_ip r ip"
  shows "\<exists>c d. module_run [Load mem info, Unload mem info] newManagedCodeCache = Inr c \<and>
     IsCodeInR2RModule lock ip False c = Some False \<and>
     module_run [Load mem info, Unload mem info] c = Inr d \<and>
     IsCodeInR2RModule lock ip False d = Some True"
proof -
  define r' where "r' = r\<lparr>m_isRemoved := True\<rparr>"
  have r': "m_startAddress r' = m_startAddress r" "m_endAddress r' = m_endAddress r" "m_isRemoved r'" "module_contains_ip r' ip"
    using assms(2) by (simp_all add: r'_def module_contains_ip_def)
  have fresh: "\<not> m_isRemoved r" using GetModuleCodeRanges_fresh [OF assms(1)] by simp
  let ?c = "newManagedCodeCache\<lparr>modulesCodeRanges := [r']\<rparr>" and ?d = "newManagedCodeCache\<lparr>modulesCodeRanges := [r', r]\<rparr>"
  have "mark_removed r [r', r] = [r', r]" by (simp add: r'_def)
  moreover have "mark_removed r [r] = [r']" by (simp add: r'_def)
  moreover have "insert_module_range r [r'] = [r', r]" "insert_module_range r [] = [r]"
    using r'(1) by (simp_all add: insert_module_range_sorted)
  ultimately have run: "module_run [Load mem info, Unload mem info] newManagedCodeCache = Inr ?c"
    "module_run [Load mem info, Unload mem info] ?c = Inr ?d"
    by (simp_all add: AddModule_def RemoveModule_def assms(1) and_then_def AddModuleRangesToCache_def RemoveModuleRanges_def newManagedCodeCache_def)
  have "IsCodeInR2RModule lock ip False ?c = Some False" "IsCodeInR2RModule lock ip False ?d = Some True"
    using assms(2) r' fresh
    by (simp_all add: IsCodeInR2RModule_def FindRange_sorted last_option_def module_contains_ip_def)
  then show ?thesis using run by blast
qed

theorem RemoveModule_after_reload_witness:
  "\<exists>d. module_run [Load image_memory (0, 0x10000, 2), Unload image_memory (0, 0x10000, 2),
         Load image_memory (0, 0x10000, 2), Unload image_memory (0, 0x10000, 2)] newManagedCodeCache = Inr d \<and>
     IsCodeInR2RModule True 0x11008 False d = Some True"
proof -
  obtain c d where "module_run [Load image_memory (0, 0x10000, 2), Unload image_memory (0, 0x10000, 2)] newManagedCodeCache = Inr c"
    "module_run [Load image_memory (0, 0x10000, 2), Unload image_memory (0, 0x10000, 2)] c = Inr d"
    "IsCodeInR2RModule True 0x11008 False d = Some True"
    using RemoveModule_after_reload [OF image_ranges, of "0x11008" True] by (auto simp: module_contains_ip_def)
  then show ?thesis by (auto simp: and_then_def split: sum.splits)
qed

section \<open>Interleaved writers and readers\<close>

text \<open>
  The slow path of the page loop runs in a critical section of its own, after the lookup under the shared
  lock failed; another thread may have created the page in between. It has the effect of one iteration.
\<close>

lemma slow_path:
  "(case try_emplace p (pagesMap c) of (m, entry) \<Rightarrow> c\<lparr>pagesMap := m(p \<mapsto> InsertCodeRangeIntoPage r entry)\<rparr>) =
     add_to_page r p c"
  by (simp add: add_to_page_def try_emplace_def split: option.splits)

text \<open>
  Any number of threads write and read the cache; each step is one critical section. The history keeps
  the ranges that were written to each page and the module sections that were ever added.
\<close>

record CacheRun =
  run_cache :: ManagedCodeCache
  run_pages :: "u64 \<Rightarrow> CodeRange list"
  run_modules :: "(u64 \<times> u64) set"

definition cache_init :: "CacheRun \<Rightarrow> bool" where
  "cache_init s \<longleftrightarrow> (\<exists>info9. run_cache s = snd (InitializeCache info9 newManagedCodeCache)) \<and>
     run_pages s = (\<lambda>_. []) \<and> run_modules s = {}"

inductive cache_step :: "CacheRun \<Rightarrow> CacheRun \<Rightarrow> bool" where
  write_page: "GetPageNumber (startAddress r) \<le> p \<Longrightarrow> p \<le> GetPageNumber (endAddress r) \<Longrightarrow>
    cache_step s (s\<lparr>run_cache := add_to_page r p (run_cache s), run_pages := (run_pages s)(p := run_pages s p @ [r])\<rparr>)"
| load_module: "cache_step s (s\<lparr>run_cache := AddModuleRangesToCache ms (run_cache s),
    run_modules := run_modules s \<union> bounds ` set ms\<rparr>)"
| unload_module: "cache_step s (s\<lparr>run_cache := RemoveModuleRanges ms (run_cache s)\<rparr>)"
| signal: "cache_step s (s\<lparr>run_cache := snd (IsManaged locks ip (run_cache s))\<rparr>)"

definition cache_inv :: "CacheRun \<Rightarrow> bool" where
  "cache_inv s \<longleftrightarrow> pages_ok (run_pages s) (run_cache s) \<and>
     sorted (map m_startAddress (modulesCodeRanges (run_cache s))) \<and>
     bounds ` set (modulesCodeRanges (run_cache s)) \<subseteq> run_modules s"

lemma insert_module_range_keeps:
  "sorted (map m_startAddress ms) \<Longrightarrow> sorted (map m_startAddress (insert_module_range r ms)) \<and>
     set (insert_module_range r ms) = insert r (set ms)"
  using sorted_insert_at [of m_startAddress ms r] by (auto simp: insert_module_range_sorted)

lemma insert_all_keeps:
  "sorted (map m_startAddress ms) \<Longrightarrow> sorted (map m_startAddress (fold insert_module_range rs ms)) \<and>
     set (fold insert_module_range rs ms) = set ms \<union> set rs"
  by (induction rs arbitrary: ms) (simp_all add: insert_module_range_keeps)

lemma mark_removed_keeps: "map bounds (mark_removed r ms) = map bounds ms"
  by (induction ms) (auto simp: bounds_def)

lemma mark_all_keeps: "map bounds (fold mark_removed rs ms) = map bounds ms"
  by (induction rs arbitrary: ms) (simp_all add: mark_removed_keeps)

lemma starts_bounds: "map m_startAddress ms = map fst (map bounds ms)"
  by (simp add: bounds_def)

lemma pages_ok_modules [simp]: "pages_ok logs (c\<lparr>modulesCodeRanges := ms\<rparr>) = pages_ok logs c"
  by (simp add: pages_ok_def)

lemma IsManaged_frame [simp]:
  "pagesMap (snd (IsManaged locks ip c)) = pagesMap c"
  "modulesCodeRanges (snd (IsManaged locks ip c)) = modulesCodeRanges c"
  by (simp_all add: IsManaged_def Let_def)

interpretation cc: invariant_system cache_init cache_step cache_inv
proof
  show "cache_inv s" if "cache_init s" for s
    using that by (auto simp: cache_init_def cache_inv_def pages_ok_def InitializeCache_def newManagedCodeCache_def)
  show "cache_inv t" if "cache_inv s" "cache_step s t" for s t
    using that(2,1)
  proof cases
    case (write_page r p)
    then show ?thesis using that(1) by (simp add: cache_inv_def add_to_page_ok)
  next
    case (load_module ms)
    then show ?thesis
      using that(1) insert_all_keeps [of "modulesCodeRanges (run_cache s)" ms]
      by (auto simp: cache_inv_def AddModuleRangesToCache_def)
  next
    case (unload_module ms)
    then show ?thesis
      using that(1) unfolding cache_inv_def RemoveModuleRanges_def starts_bounds
      by (simp add: mark_all_keeps set_map [symmetric] del: map_map set_map)
  next
    case (signal locks ip)
    then show ?thesis using that(1) by (simp add: cache_inv_def pages_ok_def)
  qed
qed

definition jit_hit :: "CacheRun \<Rightarrow> u64 \<Rightarrow> bool" where
  "jit_hit s ip \<longleftrightarrow> (case newest startAddress ip (run_pages s (GetPageNumber ip)) of None \<Rightarrow> False | Some r \<Rightarrow> contains_ip r ip)"

lemma FindRange_jit:
  assumes "cache_inv s" and "pagesMap (run_cache s) (GetPageNumber ip) = Some entry"
  shows "FindRange startAddress contains_ip (ranges entry) ip \<noteq> None \<longleftrightarrow> jit_hit s ip"
proof -
  have "page_ok (run_pages s (GetPageNumber ip)) entry"
    using assms unfolding cache_inv_def pages_ok_def by (auto split: option.splits dest: spec [of _ "GetPageNumber ip"])
  then show ?thesis
    using FindRange_sorted [of startAddress "ranges entry" contains_ip ip]
    by (auto simp: page_ok_def jit_hit_def split: option.splits)
qed

lemma jit_hit_page:
  "cache_inv s \<Longrightarrow> pagesMap (run_cache s) (GetPageNumber ip) = None \<Longrightarrow> \<not> jit_hit s ip"
  unfolding cache_inv_def pages_ok_def jit_hit_def by (auto split: option.splits dest: spec [of _ "GetPageNumber ip"])

lemma IsCodeInR2RModule_sound:
  assumes "cache_inv s" and "IsCodeInR2RModule lock ip b (run_cache s) = Some True"
  shows "\<exists>(st, e)\<in>run_modules s. st \<le> ip \<and> ip \<le> e"
proof -
  let ?ms = "modulesCodeRanges (run_cache s)"
  have "FindRange m_startAddress module_contains_ip ?ms ip = Some r \<Longrightarrow> r \<in> set ?ms \<and> module_contains_ip r ip" for r
    using assms(1) last_in_set [of "filter (\<lambda>x. m_startAddress x \<le> ip) ?ms"]
    by (auto simp: cache_inv_def FindRange_sorted last_option_def split: if_splits)
  then obtain r where "r \<in> set ?ms" "module_contains_ip r ip"
    using assms(2) by (auto simp: IsCodeInR2RModule_def Let_def split: if_splits option.splits)
  then show ?thesis using assms(1) unfolding cache_inv_def bounds_def module_contains_ip_def by force
qed

text \<open>
  C15. In every interleaving of writers, module events and signal handlers, the signal handler's query
  fails exactly when a lock it needs times out, and then counts the failure; it finds every address of a
  current JIT-compiled range; and it says that an address is managed only when it lies in a range that
  was written to the page of the address or in a module section that was added.
\<close>

theorem IsManaged_reachable:
  assumes "reachable cache_init cache_step s"
  shows "(fst (IsManaged locks ip (run_cache s)) = None \<longleftrightarrow>
       \<not> mapLock locks \<or> (pagesMap (run_cache s) (GetPageNumber ip) \<noteq> None \<and> \<not> pageLock locks) \<or>
       (\<not> jit_hit s ip \<and> \<not> moduleLock locks)) \<and>
     snd (IsManaged locks ip (run_cache s)) =
       (run_cache s)\<lparr>lockFailureMetric := lockFailureMetric (run_cache s) + of_bool (fst (IsManaged locks ip (run_cache s)) = None)\<rparr> \<and>
     (jit_hit s ip \<and> mapLock locks \<and> pageLock locks \<longrightarrow> fst (IsManaged locks ip (run_cache s)) = Some True) \<and>
     (fst (IsManaged locks ip (run_cache s)) = Some True \<longrightarrow>
       (\<exists>r\<in>set (run_pages s (GetPageNumber ip)). contains_ip r ip) \<or> (\<exists>(st, e)\<in>run_modules s. st \<le> ip \<and> ip \<le> e))"
proof -
  have inv: "cache_inv s" by (rule cc.reachable_inv [OF assms])
  have hit: "jit_hit s ip \<Longrightarrow> \<exists>r\<in>set (run_pages s (GetPageNumber ip)). contains_ip r ip"
    by (auto simp: jit_hit_def split: option.splits dest: newest_SomeD)
  have m: "IsCodeInR2RModule (moduleLock locks) ip True (run_cache s) = None \<longleftrightarrow> \<not> moduleLock locks"
    by (auto simp: IsCodeInR2RModule_def Let_def split: option.splits)
  have impl: "IsManagedImpl locks ip (run_cache s) =
     (if \<not> mapLock locks \<or> (pagesMap (run_cache s) (GetPageNumber ip) \<noteq> None \<and> \<not> pageLock locks) then None
      else if jit_hit s ip then Some True else IsCodeInR2RModule (moduleLock locks) ip True (run_cache s))"
    using FindRange_jit [OF inv, of ip] jit_hit_page [OF inv, of ip]
    by (auto simp: IsManagedImpl_def split: option.splits)
  show ?thesis
    using hit m IsCodeInR2RModule_sound [OF inv, of "moduleLock locks" ip True] jit_hit_page [OF inv, of ip]
    by (auto simp: IsManaged_def Let_def impl split: if_splits)
qed

definition example_range :: CodeRange where
  "example_range = \<lparr>startAddress = 0x20000, endAddress = 0x200FF, functionId = 7, isDynamic = False\<rparr>"

definition example_run :: CacheRun where
  "example_run = \<lparr>run_cache = add_to_page example_range 2 (snd (InitializeCache False newManagedCodeCache)),
     run_pages = (\<lambda>_. [])(2 := [example_range]), run_modules = {}\<rparr>"

lemma example_reachable: "reachable cache_init cache_step example_run"
proof -
  let ?s = "\<lparr>run_cache = snd (InitializeCache False newManagedCodeCache), run_pages = (\<lambda>_. []), run_modules = {}\<rparr>"
  have "reachable cache_init cache_step ?s"
    by (rule reachable.start) (auto simp: cache_init_def)
  moreover have "GetPageNumber 0x20000 = 2" "GetPageNumber 0x200FF = 2" by code_simp+
  then have "cache_step ?s (?s\<lparr>run_cache := add_to_page example_range 2 (run_cache ?s),
      run_pages := (run_pages ?s)(2 := run_pages ?s 2 @ [example_range])\<rparr>)"
    by (intro cache_step.write_page) (simp_all add: example_range_def)
  ultimately have "reachable cache_init cache_step (?s\<lparr>run_cache := add_to_page example_range 2 (run_cache ?s),
      run_pages := (run_pages ?s)(2 := run_pages ?s 2 @ [example_range])\<rparr>)"
    by (rule reachable.next_step)
  then show ?thesis by (simp add: example_run_def)
qed

theorem IsManaged_reachable_witness:
  "fst (IsManaged \<lparr>mapLock = True, pageLock = True, moduleLock = False\<rparr> 0x20010 (run_cache example_run)) = Some True \<and>
   fst (IsManaged \<lparr>mapLock = True, pageLock = True, moduleLock = False\<rparr> 0x30000 (run_cache example_run)) = None"
proof -
  have p: "GetPageNumber 0x20010 = 2" "GetPageNumber 0x30000 = 3" by code_simp+
  have "jit_hit example_run 0x20010" "\<not> jit_hit example_run 0x30000"
    by (simp_all add: jit_hit_def p example_run_def newest_def newer_def example_range_def contains_ip_def)
  then show ?thesis
    using IsManaged_reachable [OF example_reachable, of "\<lparr>mapLock = True, pageLock = True, moduleLock = False\<rparr>" "0x20010"]
      IsManaged_reachable [OF example_reachable, of "\<lparr>mapLock = True, pageLock = True, moduleLock = False\<rparr>" "0x30000"]
    by simp
qed

text \<open>
  The resolution of an instruction pointer outside of signal handlers returns; it answers from the cache
  when it can, otherwise it asks the runtime only for addresses of precompiled modules and registers
  the function it learns.
\<close>

lemma GetFunctionInfo_returns:
  assumes "pages_ok (page_log log) c"
  shows "\<exists>res d added. GetFunctionInfo api codeInfos ip c = Some (res, d) \<and> same_modules c d \<and>
     pages_ok (page_log (log @ added)) d \<and>
     (case GetFunctionInfoImpl ip c of
        Some info \<Rightarrow> res = Some info \<and> added = []
      | None \<Rightarrow>
          if IsCodeInR2RModule True ip False c \<noteq> Some True
          then res = Some \<lparr>FunctionId = InvalidFunctionId, IsDynamic = False\<rparr> \<and> added = []
          else res = map_option (\<lambda>f. \<lparr>FunctionId = f, IsDynamic = False\<rparr>) (GetFunctionFromIP_Original api ip) \<and>
            (\<forall>r\<in>set added. GetFunctionFromIP_Original api ip = Some (functionId r) \<and> \<not> isDynamic r))"
proof -
  have ranges: "\<forall>r\<in>set (GetCodeRanges api codeInfos f False 0 c). functionId r = f \<and> \<not> isDynamic r" for f
    using GetCodeRanges_of [of api codeInfos f False 0 c] by simp
  have same: "same_modules c c" by (simp add: same_modules_def)
  show ?thesis
  proof (cases "GetFunctionInfoImpl ip c = None \<and> IsCodeInR2RModule True ip False c = Some True \<and>
      (\<exists>f. GetFunctionFromIP_Original api ip = Some f \<and> f \<noteq> InvalidFunctionId)")
    case True
    then obtain f where f: "GetFunctionFromIP_Original api ip = Some f" "f \<noteq> InvalidFunctionId" by blast
    obtain d where "AddFunction api codeInfos f False 0 c = Some d" "same_modules c d"
      "pages_ok (page_log (log @ GetCodeRanges api codeInfos f False 0 c)) d"
      using AddFunction_ok [OF assms, of api codeInfos f False 0] by blast
    then show ?thesis
      using True f ranges [of f] by (intro exI [of _ "Some \<lparr>FunctionId = f, IsDynamic = False\<rparr>"] exI [of _ d]
        exI [of _ "GetCodeRanges api codeInfos f False 0 c"]) (simp add: GetFunctionInfo_def)
  next
    case False
    then consider info where "GetFunctionInfoImpl ip c = Some info"
      | "GetFunctionInfoImpl ip c = None" "IsCodeInR2RModule True ip False c \<noteq> Some True"
      | "GetFunctionInfoImpl ip c = None" "IsCodeInR2RModule True ip False c = Some True" "GetFunctionFromIP_Original api ip = None"
      | "GetFunctionInfoImpl ip c = None" "IsCodeInR2RModule True ip False c = Some True"
        "GetFunctionFromIP_Original api ip = Some InvalidFunctionId"
      by (cases "GetFunctionInfoImpl ip c"; cases "GetFunctionFromIP_Original api ip") auto
    then show ?thesis
    proof cases
      case (1 info)
      then show ?thesis using assms same by (intro exI [of _ "Some info"] exI [of _ c] exI [of _ "[]"]) (simp add: GetFunctionInfo_def)
    next
      case 2
      then show ?thesis using assms same
        by (intro exI [of _ "Some \<lparr>FunctionId = InvalidFunctionId, IsDynamic = False\<rparr>"] exI [of _ c] exI [of _ "[]"]) (simp add: GetFunctionInfo_def)
    next
      case 3
      then show ?thesis using assms same by (intro exI [of _ None] exI [of _ c] exI [of _ "[]"]) (simp add: GetFunctionInfo_def)
    next
      case 4
      then show ?thesis using assms same
        by (intro exI [of _ "Some \<lparr>FunctionId = InvalidFunctionId, IsDynamic = False\<rparr>"] exI [of _ c] exI [of _ "[]"]) (simp add: GetFunctionInfo_def)
    qed
  qed
qed

end
