(* ===== verification/EventReader.thy ===== *)
theory EventReader
  imports Bytes
begin

unbundle bit_operations_syntax

text \<open>
  Reading the payload of a runtime event (\<open>EventsParserHelper.h\<close>): the buffer, the size the runtime
  announces and an offset that moves forward. An access outside of the buffer is the value
  \<open>OutOfBounds\<close>, which is different from the refusal \<open>Rejected\<close> of a malformed payload. Readers that
  stay in the buffer are closed under sequencing, and readers of encoded fields give the fields back.
\<close>

section \<open>Readers\<close>

datatype 'a read = OutOfBounds | Rejected | Got 'a

type_synonym 'a reader = "u8 list \<Rightarrow> u32 \<Rightarrow> u32 \<Rightarrow> ('a \<times> u32) read"

definition bytes_at :: "u8 list \<Rightarrow> nat \<Rightarrow> nat \<Rightarrow> u8 list option" where
  "bytes_at pEventData p n = (if p + n \<le> length pEventData then Some (take n (drop p pEventData)) else None)"

text \<open>\<open>Read<T>\<close> for a type of the given size; the sum is computed as a \<open>size_t\<close>.\<close>

definition Read :: "nat \<Rightarrow> u8 list reader" where
  "Read n pEventData cbEventData offset =
     (if unat cbEventData < unat offset + n then Rejected
      else case bytes_at pEventData (unat offset) n of
        None \<Rightarrow> OutOfBounds
      | Some bs \<Rightarrow> Got (bs, offset + of_nat n))"

text \<open>\<open>std::char_traits<WCHAR>::find\<close> of the terminator among \<open>n\<close> characters, with the characters before it.\<close>

fun find_null :: "u8 list \<Rightarrow> nat \<Rightarrow> nat \<Rightarrow> u16 list read" where
  "find_null pEventData p 0 = Rejected"
| "find_null pEventData p (Suc n) =
     (case bytes_at pEventData p 2 of
        None \<Rightarrow> OutOfBounds
      | Some bs \<Rightarrow>
          let c = of_nat (le_nat bs) :: u16 in
          if c = 0 then Got []
          else case find_null pEventData (p + 2) n of Got cs \<Rightarrow> Got (c # cs) | OutOfBounds \<Rightarrow> OutOfBounds | Rejected \<Rightarrow> Rejected)"

text \<open>The pointer that is returned stands for the terminated string it points to.\<close>

definition ReadWideString :: "u16 list reader" where
  "ReadWideString pEventData cbEventData offset =
     (if cbEventData \<le> offset then Rejected
      else let maxChars = unat (cbEventData - offset) div 2 in
        case find_null pEventData (unat offset) maxChars of
          OutOfBounds \<Rightarrow> OutOfBounds
        | Rejected \<Rightarrow> Rejected
        | Got cs \<Rightarrow> Got (cs, offset + of_nat ((length cs + 1) * 2)))"

text \<open>Sequencing: a reader that does not succeed ends the function that uses it.\<close>

definition then_read :: "'a reader \<Rightarrow> ('a \<Rightarrow> 'b reader) \<Rightarrow> 'b reader" where
  "then_read m f pEventData cbEventData offset =
     (case m pEventData cbEventData offset of
        OutOfBounds \<Rightarrow> OutOfBounds
      | Rejected \<Rightarrow> Rejected
      | Got (a, offset') \<Rightarrow> f a pEventData cbEventData offset')"

definition give :: "'a \<Rightarrow> 'a reader" where
  "give a pEventData cbEventData offset = Got (a, offset)"

definition refuse :: "'a reader" where
  "refuse pEventData cbEventData offset = Rejected"

definition ReadU8 :: "u8 reader" where
  "ReadU8 = then_read (Read 1) (\<lambda>bs. give (of_nat (le_nat bs)))"

definition ReadU16 :: "u16 reader" where
  "ReadU16 = then_read (Read 2) (\<lambda>bs. give (of_nat (le_nat bs)))"

definition ReadU32 :: "u32 reader" where
  "ReadU32 = then_read (Read 4) (\<lambda>bs. give (of_nat (le_nat bs)))"

definition ReadU64 :: "u64 reader" where
  "ReadU64 = then_read (Read 8) (\<lambda>bs. give (of_nat (le_nat bs)))"

section \<open>Readers stay in the buffer\<close>

text \<open>
  A reader is safe when it stays in every buffer that has at least the announced size, from every
  offset up to that size, and leaves the offset there.
\<close>

definition safe_reader :: "'a reader \<Rightarrow> bool" where
  "safe_reader m \<longleftrightarrow> (\<forall>data cb offset. unat cb \<le> length data \<longrightarrow> offset \<le> cb \<longrightarrow>
     (case m data cb offset of OutOfBounds \<Rightarrow> False | Rejected \<Rightarrow> True | Got (a, offset') \<Rightarrow> offset \<le> offset' \<and> offset' \<le> cb))"

named_theorems safe_readers \<open>readers that stay in the buffer\<close>

lemma safe_readerD:
  "safe_reader m \<Longrightarrow> unat cb \<le> length data \<Longrightarrow> offset \<le> cb \<Longrightarrow> m data cb offset \<noteq> OutOfBounds"
  unfolding safe_reader_def by (drule spec [of _ data], drule spec [of _ cb], drule spec [of _ offset]) auto

lemma unat_add_u32: "unat (offset :: u32) + n \<le> unat (cb :: u32) \<Longrightarrow> unat (offset + of_nat n) = unat offset + n"
proof -
  assume a: "unat offset + n \<le> unat cb"
  then have "unat offset + n < 2 ^ 32" using unsigned_less [of cb] by (intro order_le_less_trans [OF a]) simp
  then show ?thesis by (simp add: unat_word_ariths unsigned_of_nat take_bit_eq_mod mod_add_right_eq)
qed

lemma safe_Read [safe_readers]: "safe_reader (Read n)"
  unfolding safe_reader_def
proof (intro allI impI)
  fix data :: "u8 list" and cb offset :: u32
  assume "unat cb \<le> length data" "offset \<le> cb"
  then show "case Read n data cb offset of OutOfBounds \<Rightarrow> False | Rejected \<Rightarrow> True | Got (a, offset') \<Rightarrow> offset \<le> offset' \<and> offset' \<le> cb"
    using unat_add_u32 [of offset n cb] by (auto simp: Read_def bytes_at_def word_le_nat_alt)
qed

lemma find_null_safe: "p + 2 * n \<le> length data \<Longrightarrow> find_null data p n \<noteq> OutOfBounds"
  by (induction n arbitrary: p) (auto simp: bytes_at_def Let_def split: read.splits)

lemma find_null_length: "find_null data p n = Got cs \<Longrightarrow> length cs < n"
  by (induction n arbitrary: p cs) (auto simp: Let_def split: option.splits if_splits read.splits)

lemma safe_ReadWideString [safe_readers]: "safe_reader ReadWideString"
  unfolding safe_reader_def
proof (intro allI impI)
  fix data :: "u8 list" and cb offset :: u32
  assume a: "unat cb \<le> length data" "offset \<le> cb"
  let ?n = "unat (cb - offset) div 2"
  have n: "unat offset + 2 * ?n \<le> unat cb" using a(2) by (simp add: unat_sub word_le_nat_alt)
  show "case ReadWideString data cb offset of OutOfBounds \<Rightarrow> False | Rejected \<Rightarrow> True
      | Got (x, offset') \<Rightarrow> offset \<le> offset' \<and> offset' \<le> cb"
  proof (cases "find_null data (unat offset) ?n")
    case (Got cs)
    have "2 * (length cs + 1) \<le> 2 * ?n" using find_null_length [OF Got] by (intro mult_le_mono2) simp
    then have "unat offset + (length cs + 1) * 2 \<le> unat cb" using n by linarith
    from unat_add_u32 [OF this] this show ?thesis
      using Got a(2) unfolding ReadWideString_def Let_def by (simp add: word_le_nat_alt)
  qed (use find_null_safe [of "unat offset" ?n data] n a in \<open>simp_all add: ReadWideString_def Let_def\<close>)
qed

lemma safe_give [safe_readers]: "safe_reader (give a)"
  by (simp add: safe_reader_def give_def)

lemma safe_refuse [safe_readers]: "safe_reader refuse"
  by (simp add: safe_reader_def refuse_def)

lemma safe_then_read [safe_readers]:
  assumes "safe_reader m" and "\<And>a. safe_reader (f a)"
  shows "safe_reader (then_read m f)"
  unfolding safe_reader_def
proof (intro allI impI)
  fix data :: "u8 list" and cb offset :: u32
  assume a: "unat cb \<le> length data" "offset \<le> cb"
  show "case then_read m f data cb offset of OutOfBounds \<Rightarrow> False | Rejected \<Rightarrow> True
      | Got (x, offset') \<Rightarrow> offset \<le> offset' \<and> offset' \<le> cb"
  proof (cases "m data cb offset")
    case (Got r)
    obtain x o1 where r: "r = (x, o1)" by (cases r)
    then have o1: "offset \<le> o1" "o1 \<le> cb"
      using assms(1) [unfolded safe_reader_def, rule_format, OF a] Got by simp_all
    have "case f x data cb o1 of OutOfBounds \<Rightarrow> False | Rejected \<Rightarrow> True | Got (y, o2) \<Rightarrow> o1 \<le> o2 \<and> o2 \<le> cb"
      using assms(2) [of x, unfolded safe_reader_def, rule_format, OF a(1) o1(2)] .
    then show ?thesis using Got r o1 by (auto simp: then_read_def split: read.splits)
  qed (use assms(1) [unfolded safe_reader_def, rule_format, OF a] in \<open>simp_all add: then_read_def\<close>)
qed

lemma safe_scalars [safe_readers]:
  "safe_reader ReadU8" "safe_reader ReadU16" "safe_reader ReadU32" "safe_reader ReadU64"
  unfolding ReadU8_def ReadU16_def ReadU32_def ReadU64_def by (intro safe_readers)+

section \<open>Readers of encoded fields\<close>

text \<open>
  \<open>reads m bs a\<close>: whatever precedes and follows the bytes \<open>bs\<close> in the payload, the reader takes exactly
  them and gives the value \<open>a\<close>.
\<close>

definition reads :: "'a reader \<Rightarrow> u8 list \<Rightarrow> 'a \<Rightarrow> bool" where
  "reads m bs a \<longleftrightarrow> (\<forall>front rest. length (front @ bs @ rest) < 2 ^ 32 \<longrightarrow>
     m (front @ bs @ rest) (of_nat (length (front @ bs @ rest))) (of_nat (length front)) =
       Got (a, of_nat (length (front @ bs))))"

named_theorems field_readers \<open>readers of the fields of a payload\<close>

definition wide_bytes :: "u16 list \<Rightarrow> u8 list" where
  "wide_bytes cs = concat (map (\<lambda>c. le_bytes 2 (unat c)) cs) @ [0, 0]"

lemma readsD:
  "reads m bs a \<Longrightarrow> length (bs @ rest) < 2 ^ 32 \<Longrightarrow>
     m (bs @ rest) (of_nat (length (bs @ rest))) 0 = Got (a, of_nat (length bs))"
  unfolding reads_def by (drule spec [of _ "[]"], drule spec [of _ rest]) simp

lemma reads_give [field_readers]: "reads (give a) [] a"
  by (simp add: reads_def give_def)

lemma reads_then [field_readers]:
  assumes "reads m bs a" and "reads (f a) cs b"
  shows "reads (then_read m f) (bs @ cs) b"
  unfolding reads_def
proof (intro allI impI)
  fix front rest :: "u8 list"
  assume l: "length (front @ (bs @ cs) @ rest) < 2 ^ 32"
  have "m (front @ bs @ (cs @ rest)) (of_nat (length (front @ bs @ (cs @ rest)))) (of_nat (length front)) =
      Got (a, of_nat (length (front @ bs)))"
    using assms(1) [unfolded reads_def, rule_format, of front "cs @ rest"] l by simp
  moreover have "f a ((front @ bs) @ cs @ rest) (of_nat (length ((front @ bs) @ cs @ rest))) (of_nat (length (front @ bs))) =
      Got (b, of_nat (length ((front @ bs) @ cs)))"
    using assms(2) [unfolded reads_def, rule_format, of "front @ bs" rest] l by simp
  ultimately show "then_read m f (front @ (bs @ cs) @ rest) (of_nat (length (front @ (bs @ cs) @ rest))) (of_nat (length front)) =
      Got (b, of_nat (length (front @ bs @ cs)))"
    by (simp add: then_read_def)
qed

lemma reads_Read [field_readers]: "length bs = n \<Longrightarrow> reads (Read n) bs bs"
  unfolding reads_def
proof (intro allI impI)
  fix front rest :: "u8 list"
  assume a: "length bs = n" and l: "length (front @ bs @ rest) < 2 ^ 32"
  have "unat (of_nat (length front) :: u32) = length front"
    "unat (of_nat (length (front @ bs @ rest)) :: u32) = length (front @ bs @ rest)"
    by (rule unat_of_nat_less, use l in simp)+
  then show "Read n (front @ bs @ rest) (of_nat (length (front @ bs @ rest))) (of_nat (length front)) =
      Got (bs, of_nat (length (front @ bs)))"
    using a by (simp add: Read_def bytes_at_def)
qed

lemma reads_scalar:
  assumes "length bs = n" and "g bs = a"
  shows "reads (then_read (Read n) (\<lambda>bs. give (g bs))) bs a"
  using reads_then [OF reads_Read [OF assms(1)], of "\<lambda>bs. give (g bs)" "[]" a] reads_give [of a] assms(2) by simp

lemma reads_scalars [field_readers]:
  "reads ReadU8 (le_bytes 1 (unat a)) a" "reads ReadU16 (le_bytes 2 (unat b)) b"
  "reads ReadU32 (le_bytes 4 (unat c)) c" "reads ReadU64 (le_bytes 8 (unat d)) d"
  unfolding ReadU8_def ReadU16_def ReadU32_def ReadU64_def
  by (rule reads_scalar, simp, rule word_le_roundtrip, simp)+

lemma find_null_wide:
  "0 \<notin> set cs \<Longrightarrow> length cs < n \<Longrightarrow> find_null (front @ wide_bytes cs @ rest) (length front) n = Got cs"
proof (induction cs arbitrary: front n)
  case Nil
  then show ?case by (cases n) (simp_all add: wide_bytes_def bytes_at_def)
next
  case (Cons c cs)
  then obtain k where n: "n = Suc k" "length cs < k" by (cases n) auto
  have c: "of_nat (le_nat (le_bytes 2 (unat c))) = c"
    by (rule word_le_roundtrip) simp
  have w: "wide_bytes (c # cs) = le_bytes 2 (unat c) @ wide_bytes cs" by (simp add: wide_bytes_def)
  have "find_null ((front @ le_bytes 2 (unat c)) @ wide_bytes cs @ rest) (length (front @ le_bytes 2 (unat c))) k = Got cs"
    using Cons n by (intro Cons.IH) simp_all
  then have "find_null (front @ wide_bytes (c # cs) @ rest) (length front + 2) k = Got cs" by (simp add: w)
  moreover have "bytes_at (front @ wide_bytes (c # cs) @ rest) (length front) 2 = Some (le_bytes 2 (unat c))"
    unfolding w by (simp add: bytes_at_def)
  ultimately show ?case using n(1) c Cons.prems(1) by simp
qed

lemma length_wide_bytes: "length (wide_bytes cs) = (length cs + 1) * 2"
  by (induction cs) (simp_all add: wide_bytes_def)

lemma reads_ReadWideString [field_readers]:
  assumes "0 \<notin> set cs"
  shows "reads ReadWideString (wide_bytes cs) cs"
  unfolding reads_def
proof (intro allI impI)
  fix front rest :: "u8 list"
  let ?d = "front @ wide_bytes cs @ rest"
  assume l: "length ?d < 2 ^ 32"
  have u: "unat (of_nat (length front) :: u32) = length front" "unat (of_nat (length ?d) :: u32) = length ?d"
    by (rule unat_of_nat_less, use l in simp)+
  have le: "(of_nat (length front) :: u32) < of_nat (length ?d)"
    unfolding word_less_nat_alt u by (simp add: length_wide_bytes)
  have "unat (of_nat (length ?d) - of_nat (length front) :: u32) = length (wide_bytes cs @ rest)"
    unfolding unat_sub [OF less_imp_le [OF le]] u by simp
  then have "find_null ?d (length front) (unat (of_nat (length ?d) - of_nat (length front) :: u32) div 2) = Got cs"
    using assms by (simp only:) (intro find_null_wide, simp_all add: length_wide_bytes)
  then show "ReadWideString ?d (of_nat (length ?d)) (of_nat (length front)) = Got (cs, of_nat (length (front @ wide_bytes cs)))"
    using le u unfolding ReadWideString_def by (simp add: Let_def length_wide_bytes)
qed

end
