(* ===== verification/ClrEvents.thy ===== *)
theory ClrEvents
  imports EventReader
begin

unbundle bit_operations_syntax

text \<open>
  The parser of the runtime's own events (\<open>ClrEventsParser.cpp\<close>, \<open>ClrEventsParser.h\<close>): payloads of allocation,
  contention, wait handle, heap dump and garbage collection events, and the state machine that puts the
  events of a garbage collection together. Calls of listeners are values of \<open>clr_call\<close>. The 64-bit build is
  modelled: \<open>uintptr_t\<close> has 8 bytes.
\<close>

section \<open>Payloads\<close>

text \<open>Fields of a packed structure that has been copied from the payload.\<close>

definition field16 :: "u8 list \<Rightarrow> nat \<Rightarrow> u16" where
  "field16 bs p = of_nat (le_nat (take 2 (drop p bs)))"

definition field32 :: "u8 list \<Rightarrow> nat \<Rightarrow> u32" where
  "field32 bs p = of_nat (le_nat (take 4 (drop p bs)))"

definition field64 :: "u8 list \<Rightarrow> nat \<Rightarrow> u64" where
  "field64 bs p = of_nat (le_nat (take 8 (drop p bs)))"

definition ReadStruct :: "nat \<Rightarrow> (u8 list \<Rightarrow> 'a) \<Rightarrow> 'a reader" where
  "ReadStruct n f = then_read (Read n) (\<lambda>bs. give (f bs))"

record AllocationTickV4Payload =
  at_AllocationAmount :: u32
  at_AllocationKind :: u32
  at_ClrInstanceId :: u16
  at_AllocationAmount64 :: u64
  at_TypeId :: u64
  at_TypeName :: "u16 list"
  at_HeapIndex :: u32
  at_Address :: u64
  at_ObjectSize :: u64

record AllocationSampledPayload =
  as_AllocationKind :: u32
  as_ClrInstanceId :: u16
  as_TypeId :: u64
  as_TypeName :: "u16 list"
  as_Address :: u64
  as_ObjectSize :: u64
  as_SampledByteOffset :: u64

record ContentionStopV1Payload =
  cs_ContentionFlags :: u8
  cs_ClrInstanceId :: u16
  cs_DurationNs :: u64

record ContentionStartV2Payload =
  ct_ContentionFlags :: u8
  ct_ClrInstanceId :: u16
  ct_LockId :: u64
  ct_AssociatedObjectID :: u64
  ct_LockOwnerThreadID :: u64

record GCStartPayload =
  gs_Count :: u32
  gs_Depth :: u32
  gs_Reason :: u32
  gs_Type :: u32

record GCEndPayload =
  ge_Count :: u32
  ge_Depth :: u32

record GCHeapStatsV1Payload =
  hs_GenerationSize0 :: u64
  hs_TotalPromotedSize0 :: u64
  hs_GenerationSize1 :: u64
  hs_TotalPromotedSize1 :: u64
  hs_GenerationSize2 :: u64
  hs_TotalPromotedSize2 :: u64
  hs_GenerationSize3 :: u64
  hs_TotalPromotedSize3 :: u64
  hs_FinalizationPromotedSize :: u64
  hs_FinalizationPromotedCount :: u64
  hs_PinnedObjectCount :: u32
  hs_SinkBlockCount :: u32
  hs_GCHandleCount :: u32
  hs_ClrInstanceID :: u16

record GCHeapStatsV2Payload = GCHeapStatsV1Payload +
  hs_GenerationSize4 :: u64
  hs_TotalPromotedSize4 :: u64

record GCGlobalHeapPayload =
  gh_FinalYoungestDesired :: u64
  gh_NumHeaps :: u32
  gh_CondemnedGeneration :: u32
  gh_Gen0ReductionCount :: u32
  gh_Reason :: u32
  gh_GlobalMechanisms :: u32
  gh_ClrInstanceID :: u16
  gh_PauseMode :: u32
  gh_MemPressure :: u32

record WaitHandleWaitStartPayload =
  ws_WaitSource :: u8
  ws_AssociatedObjectID :: u64
  ws_ClrInstanceId :: u16

text \<open>\<open>GCBulkNodePayload\<close>, \<open>GCBulkEdgePayload\<close> and \<open>GCBulkRootEdgePayload\<close> have the same fields.\<close>

record GCBulkPayload =
  bp_Index :: u32
  bp_Count :: u32
  bp_ClrInstanceID :: u16

record GCBulkRootStaticVarPayload =
  sp_Count :: u32
  sp_AppDomainID :: u64
  sp_ClrInstanceID :: u16

record GCBulkRootStaticVarValue =
  sv_GCRootID :: u64
  sv_ObjectID :: u64
  sv_TypeID :: u64
  sv_Flags :: u32

definition ReadContentionStopV1 :: "ContentionStopV1Payload reader" where
  "ReadContentionStopV1 = ReadStruct 11 (\<lambda>bs. \<lparr>cs_ContentionFlags = bs ! 0, cs_ClrInstanceId = field16 bs 1,
     cs_DurationNs = field64 bs 3\<rparr>)"

definition ReadContentionStartV2 :: "ContentionStartV2Payload reader" where
  "ReadContentionStartV2 = ReadStruct 27 (\<lambda>bs. \<lparr>ct_ContentionFlags = bs ! 0, ct_ClrInstanceId = field16 bs 1,
     ct_LockId = field64 bs 3, ct_AssociatedObjectID = field64 bs 11, ct_LockOwnerThreadID = field64 bs 19\<rparr>)"

definition ReadGCStart :: "GCStartPayload reader" where
  "ReadGCStart = ReadStruct 16 (\<lambda>bs. \<lparr>gs_Count = field32 bs 0, gs_Depth = field32 bs 4, gs_Reason = field32 bs 8,
     gs_Type = field32 bs 12\<rparr>)"

definition ReadGCEnd :: "GCEndPayload reader" where
  "ReadGCEnd = ReadStruct 8 (\<lambda>bs. \<lparr>ge_Count = field32 bs 0, ge_Depth = field32 bs 4\<rparr>)"

definition ReadGCHeapStatsV1 :: "GCHeapStatsV1Payload reader" where
  "ReadGCHeapStatsV1 = ReadStruct 94 (\<lambda>bs. \<lparr>hs_GenerationSize0 = field64 bs 0, hs_TotalPromotedSize0 = field64 bs 8,
     hs_GenerationSize1 = field64 bs 16, hs_TotalPromotedSize1 = field64 bs 24,
     hs_GenerationSize2 = field64 bs 32, hs_TotalPromotedSize2 = field64 bs 40,
     hs_GenerationSize3 = field64 bs 48, hs_TotalPromotedSize3 = field64 bs 56,
     hs_FinalizationPromotedSize = field64 bs 64, hs_FinalizationPromotedCount = field64 bs 72,
     hs_PinnedObjectCount = field32 bs 80, hs_SinkBlockCount = field32 bs 84, hs_GCHandleCount = field32 bs 88,
     hs_ClrInstanceID = field16 bs 92\<rparr>)"

definition ReadGCHeapStatsV2 :: "GCHeapStatsV2Payload reader" where
  "ReadGCHeapStatsV2 = ReadStruct 110 (\<lambda>bs. \<lparr>hs_GenerationSize0 = field64 bs 0, hs_TotalPromotedSize0 = field64 bs 8,
     hs_GenerationSize1 = field64 bs 16, hs_TotalPromotedSize1 = field64 bs 24,
     hs_GenerationSize2 = field64 bs 32, hs_TotalPromotedSize2 = field64 bs 40,
     hs_GenerationSize3 = field64 bs 48, hs_TotalPromotedSize3 = field64 bs 56,
     hs_FinalizationPromotedSize = field64 bs 64, hs_FinalizationPromotedCount = field64 bs 72,
     hs_PinnedObjectCount = field32 bs 80, hs_SinkBlockCount = field32 bs 84, hs_GCHandleCount = field32 bs 88,
     hs_ClrInstanceID = field16 bs 92,
     hs_GenerationSize4 = field64 bs 94, hs_TotalPromotedSize4 = field64 bs 102\<rparr>)"

definition ReadGCGlobalHeap :: "GCGlobalHeapPayload reader" where
  "ReadGCGlobalHeap = ReadStruct 38 (\<lambda>bs. \<lparr>gh_FinalYoungestDesired = field64 bs 0, gh_NumHeaps = field32 bs 8,
     gh_CondemnedGeneration = field32 bs 12, gh_Gen0ReductionCount = field32 bs 16, gh_Reason = field32 bs 20,
     gh_GlobalMechanisms = field32 bs 24, gh_ClrInstanceID = field16 bs 28, gh_PauseMode = field32 bs 30,
     gh_MemPressure = field32 bs 34\<rparr>)"

definition ReadWaitHandleWaitStart :: "WaitHandleWaitStartPayload reader" where
  "ReadWaitHandleWaitStart = ReadStruct 11 (\<lambda>bs. \<lparr>ws_WaitSource = bs ! 0, ws_AssociatedObjectID = field64 bs 1,
     ws_ClrInstanceId = field16 bs 9\<rparr>)"

definition ReadWaitHandleWaitStop :: "u16 reader" where
  "ReadWaitHandleWaitStop = ReadStruct 2 (\<lambda>bs. field16 bs 0)"

definition ReadGCBulk :: "GCBulkPayload reader" where
  "ReadGCBulk = ReadStruct 10 (\<lambda>bs. \<lparr>bp_Index = field32 bs 0, bp_Count = field32 bs 4, bp_ClrInstanceID = field16 bs 8\<rparr>)"

definition ReadGCBulkRootStaticVar :: "GCBulkRootStaticVarPayload reader" where
  "ReadGCBulkRootStaticVar = ReadStruct 14 (\<lambda>bs. \<lparr>sp_Count = field32 bs 0, sp_AppDomainID = field64 bs 4,
     sp_ClrInstanceID = field16 bs 12\<rparr>)"

definition ReadGCBulkRootStaticVarValue :: "GCBulkRootStaticVarValue reader" where
  "ReadGCBulkRootStaticVarValue = ReadStruct 28 (\<lambda>bs. \<lparr>sv_GCRootID = field64 bs 0, sv_ObjectID = field64 bs 8,
     sv_TypeID = field64 bs 16, sv_Flags = field32 bs 24\<rparr>)"

definition ParseAllocationEvent :: "AllocationTickV4Payload reader" where
  "ParseAllocationEvent =
     then_read ReadU32 (\<lambda>AllocationAmount.
     then_read ReadU32 (\<lambda>AllocationKind.
     then_read ReadU16 (\<lambda>ClrInstanceId.
     then_read ReadU64 (\<lambda>AllocationAmount64.
     then_read ReadU64 (\<lambda>TypeId.
     then_read ReadWideString (\<lambda>TypeName.
     then_read ReadU32 (\<lambda>HeapIndex.
     then_read ReadU64 (\<lambda>Address.
     then_read ReadU64 (\<lambda>ObjectSize.
     give \<lparr>at_AllocationAmount = AllocationAmount, at_AllocationKind = AllocationKind, at_ClrInstanceId = ClrInstanceId,
       at_AllocationAmount64 = AllocationAmount64, at_TypeId = TypeId, at_TypeName = TypeName, at_HeapIndex = HeapIndex,
       at_Address = Address, at_ObjectSize = ObjectSize\<rparr>)))))))))"

definition ParseAllocationSampledPayload :: "AllocationSampledPayload reader" where
  "ParseAllocationSampledPayload =
     then_read ReadU32 (\<lambda>AllocationKind.
     then_read ReadU16 (\<lambda>ClrInstanceId.
     then_read ReadU64 (\<lambda>TypeId.
     then_read ReadWideString (\<lambda>TypeName.
     then_read ReadU64 (\<lambda>Address.
     then_read ReadU64 (\<lambda>ObjectSize.
     then_read ReadU64 (\<lambda>SampledByteOffset.
     give \<lparr>as_AllocationKind = AllocationKind, as_ClrInstanceId = ClrInstanceId, as_TypeId = TypeId,
       as_TypeName = TypeName, as_Address = Address, as_ObjectSize = ObjectSize,
       as_SampledByteOffset = SampledByteOffset\<rparr>)))))))"

section \<open>State\<close>

text \<open>The enumerations are casts of 32-bit fields of the payload, kept as words.\<close>

definition NonConcurrentGC :: u32 where "NonConcurrentGC = 0"
definition BackgroundGC :: u32 where "BackgroundGC = 1"
definition ForegroundGC :: u32 where "ForegroundGC = 2"
definition Compaction :: u32 where "Compaction = 2"

record GCDetails =
  gc_Number :: u32
  gc_Generation :: u32
  gc_Reason :: u32
  gc_Type :: u32
  gc_IsCompacting :: bool
  gc_PauseDuration :: u64
  gc_StartTimestamp :: u64
  gc_gen2Size :: u64
  gc_lohSize :: u64
  gc_pohSize :: u64
  gc_memPressure :: u32
  gc_HasGlobalHeapHistoryBeenReceived :: bool
  gc_HasHeapStatsBeenReceived :: bool

text \<open>
  Listeners: whether the pointer is set, and for garbage collections the list of the registered
  listeners, named by numbers.
\<close>

record ClrEventsParser =
  cp_allocationEnabled :: bool
  cp_contentionEnabled :: bool
  cp_pAllocationListener :: bool
  cp_pContentionListener :: bool
  cp_pGCSuspensionsListener :: bool
  cp_pGarbageCollectionsListeners :: "nat list"
  cp_pGCDumpListener :: bool
  cp_skipReferenceChain :: bool
  cp_skipGcLifecycleEvents :: bool
  cp_suspensionStart :: u64
  cp_currentBGC :: GCDetails
  cp_gcInProgress :: GCDetails

text \<open>
  The calls of listeners. The bulk events hand over a pointer into the payload, which is its offset. The
  duration of a contention is computed by \<open>llround\<close> below.
\<close>

datatype clr_call =
    CallAllocation u32 u64 "u16 list" u64 u64 u64
  | CallAllocationSampled u32 u64 "u16 list" u64 u64 u64
  | CallContention u64
  | CallSetBlockingThread u64
  | CallWaitStart u64 u64
  | CallWaitStop u64
  | CallBulkNodes u32 u32 u32
  | CallBulkEdges u32 u32 u32
  | CallBulkRootEdges u32 u32 u32
  | CallBulkRootStaticVar GCBulkRootStaticVarValue "u16 list"
  | CallSuspension u64 u32 u32 u64
  | CallGarbageCollectionStart nat u64 u32 u32 u32 u32
  | CallGarbageCollectionEnd nat u32 u32 u32 u32 bool u64 u64 u64 u64 u64 u64 u32

definition ResetGC :: "GCDetails \<Rightarrow> GCDetails" where
  "ResetGC gc = gc\<lparr>gc_Number := -1, gc_Generation := 0, gc_Reason := 0, gc_Type := 0, gc_IsCompacting := False,
     gc_PauseDuration := 0, gc_StartTimestamp := 0, gc_HasGlobalHeapHistoryBeenReceived := False,
     gc_HasHeapStatsBeenReceived := False, gc_gen2Size := 0, gc_lohSize := 0, gc_pohSize := 0, gc_memPressure := 0\<rparr>"

definition InitializeGC :: "u64 \<Rightarrow> GCDetails \<Rightarrow> GCStartPayload \<Rightarrow> GCDetails" where
  "InitializeGC timestamp gc payload = gc\<lparr>gc_Number := gs_Count payload, gc_Generation := gs_Depth payload,
     gc_Reason := gs_Reason payload, gc_Type := gs_Type payload, gc_IsCompacting := False, gc_PauseDuration := 0,
     gc_StartTimestamp := timestamp, gc_HasGlobalHeapHistoryBeenReceived := False,
     gc_HasHeapStatsBeenReceived := False, gc_gen2Size := 0, gc_lohSize := 0, gc_pohSize := 0, gc_memPressure := 0\<rparr>"

text \<open>
  The constructor. The two collections and the start of the suspension have no initial values; what the
  memory holds before is an argument.
\<close>

definition newClrEventsParser ::
  "bool \<Rightarrow> bool \<Rightarrow> bool \<Rightarrow> bool \<Rightarrow> bool \<Rightarrow> bool \<Rightarrow> u64 \<Rightarrow> GCDetails \<Rightarrow> GCDetails \<Rightarrow> ClrEventsParser" where
  "newClrEventsParser allocations contentions suspensions dump skipTraversal skipLifecycle junk junk1 junk2 =
     \<lparr>cp_allocationEnabled = True, cp_contentionEnabled = True, cp_pAllocationListener = allocations,
      cp_pContentionListener = contentions, cp_pGCSuspensionsListener = suspensions,
      cp_pGarbageCollectionsListeners = [], cp_pGCDumpListener = dump, cp_skipReferenceChain = skipTraversal,
      cp_skipGcLifecycleEvents = skipLifecycle, cp_suspensionStart = junk, cp_currentBGC = ResetGC junk1,
      cp_gcInProgress = ResetGC junk2\<rparr>"

definition Register :: "nat option \<Rightarrow> ClrEventsParser \<Rightarrow> ClrEventsParser" where
  "Register pGarbageCollectionsListener s =
     (case pGarbageCollectionsListener of
        None \<Rightarrow> s
      | Some l \<Rightarrow> s\<lparr>cp_pGarbageCollectionsListeners := cp_pGarbageCollectionsListeners s @ [l]\<rparr>)"

definition SetAllocationTrackingEnabled :: "bool \<Rightarrow> ClrEventsParser \<Rightarrow> ClrEventsParser" where
  "SetAllocationTrackingEnabled enabled s = s\<lparr>cp_allocationEnabled := enabled\<rparr>"

definition SetContentionTrackingEnabled :: "bool \<Rightarrow> ClrEventsParser \<Rightarrow> ClrEventsParser" where
  "SetContentionTrackingEnabled enabled s = s\<lparr>cp_contentionEnabled := enabled\<rparr>"

section \<open>Garbage collections\<close>

definition NotifySuspension :: "ClrEventsParser \<Rightarrow> u64 \<Rightarrow> u32 \<Rightarrow> u32 \<Rightarrow> u64 \<Rightarrow> clr_call list" where
  "NotifySuspension s timestamp number generation duration =
     (if cp_pGCSuspensionsListener s then [CallSuspension timestamp number generation duration] else [])"

definition NotifyGarbageCollectionStarted ::
  "ClrEventsParser \<Rightarrow> u64 \<Rightarrow> u32 \<Rightarrow> u32 \<Rightarrow> u32 \<Rightarrow> u32 \<Rightarrow> clr_call list" where
  "NotifyGarbageCollectionStarted s timestamp number generation reason type =
     map (\<lambda>l. CallGarbageCollectionStart l timestamp number generation reason type) (cp_pGarbageCollectionsListeners s)"

text \<open>\<open>NotifyGarbageCollectionEnd\<close> with the arguments its three callers pass: the fields of the collection.\<close>

definition NotifyGarbageCollectionEnd :: "ClrEventsParser \<Rightarrow> GCDetails \<Rightarrow> u64 \<Rightarrow> u32 \<Rightarrow> clr_call list" where
  "NotifyGarbageCollectionEnd s gc timestamp memPressure =
     map (\<lambda>l. CallGarbageCollectionEnd l (gc_Number gc) (gc_Generation gc) (gc_Reason gc) (gc_Type gc) (gc_IsCompacting gc)
            (gc_PauseDuration gc) (timestamp - gc_StartTimestamp gc) timestamp (gc_gen2Size gc) (gc_lohSize gc)
            (gc_pohSize gc) memPressure)
       (cp_pGarbageCollectionsListeners s)"

text \<open>
  \<open>GetCurrentGC\<close> returns a reference: the value it refers to, and the parser after a change through it.
\<close>

definition GetCurrentGC :: "ClrEventsParser \<Rightarrow> GCDetails" where
  "GetCurrentGC s = (if gc_Number (cp_gcInProgress s) \<noteq> -1 then cp_gcInProgress s else cp_currentBGC s)"

definition set_current_gc :: "ClrEventsParser \<Rightarrow> GCDetails \<Rightarrow> ClrEventsParser" where
  "set_current_gc s gc =
     (if gc_Number (cp_gcInProgress s) \<noteq> -1 then s\<lparr>cp_gcInProgress := gc\<rparr> else s\<lparr>cp_currentBGC := gc\<rparr>)"

definition OnGCTriggered :: "ClrEventsParser \<Rightarrow> clr_call list \<times> ClrEventsParser" where
  "OnGCTriggered s = ([], s)"

definition OnGCStart :: "u64 \<Rightarrow> GCStartPayload \<Rightarrow> ClrEventsParser \<Rightarrow> clr_call list \<times> ClrEventsParser" where
  "OnGCStart timestamp payload s =
     (NotifyGarbageCollectionStarted s timestamp (gs_Count payload) (gs_Depth payload) (gs_Reason payload) (gs_Type payload),
      if gs_Depth payload = 2 \<and> gs_Type payload = BackgroundGC
      then s\<lparr>cp_currentBGC := InitializeGC timestamp (cp_currentBGC s) payload\<rparr>
      else s\<lparr>cp_gcInProgress := InitializeGC timestamp (cp_gcInProgress s) payload\<rparr>)"

definition OnGCEnd :: "GCEndPayload \<Rightarrow> ClrEventsParser \<Rightarrow> clr_call list \<times> ClrEventsParser" where
  "OnGCEnd payload s = ([], s)"

definition OnGCSuspendEEBegin :: "u64 \<Rightarrow> ClrEventsParser \<Rightarrow> clr_call list \<times> ClrEventsParser" where
  "OnGCSuspendEEBegin timestamp s = ([], s\<lparr>cp_suspensionStart := timestamp\<rparr>)"

definition OnGCRestartEEEnd :: "u64 \<Rightarrow> ClrEventsParser \<Rightarrow> clr_call list \<times> ClrEventsParser" where
  "OnGCRestartEEEnd timestamp s =
     (let gc = GetCurrentGC s in
      if gc_Number gc = -1 then ([], s\<lparr>cp_suspensionStart := 0\<rparr>)
      else
        let (calls, suspensionDuration) =
              (if cp_suspensionStart s \<noteq> 0
               then let d = timestamp - cp_suspensionStart s in
                 (NotifySuspension s timestamp (gc_Number gc) (gc_Generation gc) d, d)
               else ([], 0));
            s1 = s\<lparr>cp_suspensionStart := 0\<rparr>;
            gc1 = gc\<lparr>gc_PauseDuration := gc_PauseDuration gc + suspensionDuration\<rparr>
        in
          if gc_Generation gc1 < 2 \<or> gc_Type gc1 = NonConcurrentGC
          then (calls @ NotifyGarbageCollectionEnd s1 gc1 timestamp (gc_memPressure gc1), set_current_gc s1 (ResetGC gc1))
          else (calls, set_current_gc s1 gc1))"

definition OnGCHeapStats :: "u64 \<Rightarrow> u64 \<Rightarrow> u64 \<Rightarrow> u64 \<Rightarrow> ClrEventsParser \<Rightarrow> clr_call list \<times> ClrEventsParser" where
  "OnGCHeapStats timestamp gen2Size lohSize pohSize s =
     (let gc = (GetCurrentGC s)\<lparr>gc_HasHeapStatsBeenReceived := True\<rparr> in
      if gc_Number gc = -1 then ([], set_current_gc s gc)
      else
        let gc1 = gc\<lparr>gc_gen2Size := gen2Size, gc_lohSize := lohSize, gc_pohSize := pohSize\<rparr> in
          if gc_HasGlobalHeapHistoryBeenReceived gc1 \<and> gc_Generation gc1 = 2 \<and> gc_Type gc1 = BackgroundGC
          then (NotifyGarbageCollectionEnd s gc1 timestamp (gc_memPressure gc1), set_current_gc s (ResetGC gc1))
          else ([], set_current_gc s gc1))"

definition OnGCGlobalHeapHistory :: "u64 \<Rightarrow> GCGlobalHeapPayload \<Rightarrow> ClrEventsParser \<Rightarrow> clr_call list \<times> ClrEventsParser" where
  "OnGCGlobalHeapHistory timestamp payload s =
     (let gc = GetCurrentGC s in
      if gc_Number gc = -1 then ([], s)
      else
        let gc1 = gc\<lparr>gc_HasGlobalHeapHistoryBeenReceived := True, gc_memPressure := gh_MemPressure payload,
                     gc_IsCompacting := (gh_GlobalMechanisms payload AND Compaction = Compaction)\<rparr> in
          if gc_HasHeapStatsBeenReceived gc1 \<and> gc_Generation gc1 = 2 \<and> gc_Type gc1 = BackgroundGC
          then (NotifyGarbageCollectionEnd s gc1 timestamp (gh_MemPressure payload), set_current_gc s (ResetGC gc1))
          else ([], set_current_gc s gc1))"

section \<open>Events\<close>

text \<open>
  \<open>std::llround\<close> of an IEEE double given by its bits: rounding to the nearest integer, halves away from
  zero. Outside of the range of the result (and for infinities and NaN) the standard does not say what is
  returned; that value is the first argument.
\<close>

definition double_parts :: "u64 \<Rightarrow> nat \<times> int" where
  "double_parts d =
     (let e = unat (drop_bit 52 d AND 0x7FF); f = unat (d AND mask 52) in
      if e = 0 then (f, -1074) else (f + 2 ^ 52, int e - 1075))"

definition round_parts :: "nat \<times> int \<Rightarrow> nat" where
  "round_parts p =
     (case p of (m, ex) \<Rightarrow>
        if 0 \<le> ex then m * 2 ^ nat ex else (m + 2 ^ (nat (- ex) - 1)) div 2 ^ nat (- ex))"

definition llround :: "u64 \<Rightarrow> u64 \<Rightarrow> u64" where
  "llround unspecified d =
     (let r = round_parts (double_parts d); negative = bit d 63 in
      if drop_bit 52 d AND 0x7FF = 0x7FF then unspecified
      else if negative then (if r \<le> 2 ^ 63 then - of_nat r else unspecified)
      else (if r < 2 ^ 63 then of_nat r else unspecified))"

text \<open>
  A handler gives the calls it makes and the parser afterwards; \<open>None\<close> is a read outside of the payload.
  A rejected payload ends the handler.
\<close>

type_synonym handled = "(clr_call list \<times> ClrEventsParser) option"

definition with_payload :: "'a reader \<Rightarrow> u8 list \<Rightarrow> u32 \<Rightarrow> 'b \<Rightarrow> ('a \<Rightarrow> u32 \<Rightarrow> 'b) \<Rightarrow> 'b option" where
  "with_payload m pEventData cbEventData rejected f =
     (case m pEventData cbEventData 0 of
        OutOfBounds \<Rightarrow> None
      | Rejected \<Rightarrow> Some rejected
      | Got (a, offset) \<Rightarrow> Some (f a offset))"

definition ParseAllocationSampledEvent :: "u32 \<Rightarrow> u32 \<Rightarrow> u8 list \<Rightarrow> ClrEventsParser \<Rightarrow> handled" where
  "ParseAllocationSampledEvent i cbEventData pEventData s =
     (if \<not> cp_pAllocationListener s then Some ([], s)
      else if i = 303 then
        with_payload ParseAllocationSampledPayload pEventData cbEventData ([], s) (\<lambda>payload _.
          ([CallAllocationSampled (as_AllocationKind payload) (as_TypeId payload) (as_TypeName payload)
              (as_Address payload) (as_ObjectSize payload) (as_SampledByteOffset payload)], s))
      else Some ([], s))"

definition ParseContentionEvent :: "u64 \<Rightarrow> u32 \<Rightarrow> u32 \<Rightarrow> u32 \<Rightarrow> u8 list \<Rightarrow> ClrEventsParser \<Rightarrow> handled" where
  "ParseContentionEvent unspecified i version cbEventData pEventData s =
     (if \<not> cp_pContentionListener s \<or> \<not> cp_contentionEnabled s then Some ([], s)
      else if i = 91 \<and> 1 \<le> version then
        with_payload ReadContentionStopV1 pEventData cbEventData ([], s) (\<lambda>payload _.
          ([CallContention (llround unspecified (cs_DurationNs payload))], s))
      else if i = 81 \<and> 2 \<le> version then
        with_payload ReadContentionStartV2 pEventData cbEventData ([], s) (\<lambda>payload _.
          ([CallSetBlockingThread (ct_LockOwnerThreadID payload)], s))
      else Some ([], s))"

definition ParseWaitHandleEvent :: "u64 \<Rightarrow> u32 \<Rightarrow> u32 \<Rightarrow> u8 list \<Rightarrow> ClrEventsParser \<Rightarrow> handled" where
  "ParseWaitHandleEvent timestamp i cbEventData pEventData s =
     (if \<not> cp_pContentionListener s then Some ([], s)
      else if i = 301 then
        with_payload ReadWaitHandleWaitStart pEventData cbEventData ([], s) (\<lambda>payload _.
          ([CallWaitStart timestamp (ws_AssociatedObjectID payload)], s))
      else if i = 302 then
        with_payload ReadWaitHandleWaitStop pEventData cbEventData ([], s) (\<lambda>payload _. ([CallWaitStop timestamp], s))
      else Some ([], s))"

text \<open>The loop over the static variables: an entry that cannot be read ends it.\<close>

fun bulk_static_vars :: "nat \<Rightarrow> u8 list \<Rightarrow> u32 \<Rightarrow> u32 \<Rightarrow> clr_call list option" where
  "bulk_static_vars 0 pEventData cbEventData offset = Some []"
| "bulk_static_vars (Suc n) pEventData cbEventData offset =
     (case ReadGCBulkRootStaticVarValue pEventData cbEventData offset of
        OutOfBounds \<Rightarrow> None
      | Rejected \<Rightarrow> Some []
      | Got (v, offset1) \<Rightarrow>
          (case ReadWideString pEventData cbEventData offset1 of
             OutOfBounds \<Rightarrow> None
           | Rejected \<Rightarrow> Some []
           | Got (fieldName, offset2) \<Rightarrow>
               map_option (Cons (CallBulkRootStaticVar v fieldName))
                 (bulk_static_vars n pEventData cbEventData offset2)))"

text \<open>The heap dump part of \<open>ParseGcEvent\<close>: its calls, and whether the function goes on after it.\<close>

definition gc_dump_event :: "u32 \<Rightarrow> u32 \<Rightarrow> u8 list \<Rightarrow> ClrEventsParser \<Rightarrow> (clr_call list \<times> bool) option" where
  "gc_dump_event i cbEventData pEventData s =
     (if i = 18 then
        if cp_pGCDumpListener s then
          with_payload ReadGCBulk pEventData cbEventData ([], False) (\<lambda>payload offset.
            ([CallBulkNodes (bp_Index payload) (bp_Count payload) offset], True))
        else Some ([], True)
      else if i = 19 then
        if cp_pGCDumpListener s then
          with_payload ReadGCBulk pEventData cbEventData ([], False) (\<lambda>payload offset.
            ([CallBulkEdges (bp_Index payload) (bp_Count payload) offset], True))
        else Some ([], True)
      else if i = 16 then
        if cp_skipReferenceChain s then Some ([], False)
        else if cp_pGCDumpListener s then
          with_payload ReadGCBulk pEventData cbEventData ([], False) (\<lambda>payload offset.
            ([CallBulkRootEdges (bp_Index payload) (bp_Count payload) offset], True))
        else Some ([], True)
      else if i = 38 then
        if cp_skipReferenceChain s then Some ([], False)
        else if cp_pGCDumpListener s then
          (case ReadGCBulkRootStaticVar pEventData cbEventData 0 of
             OutOfBounds \<Rightarrow> None
           | Rejected \<Rightarrow> Some ([], False)
           | Got (payload, offset) \<Rightarrow>
               map_option (\<lambda>calls. (calls, True)) (bulk_static_vars (unat (sp_Count payload)) pEventData cbEventData offset))
        else Some ([], True)
      else Some ([], True))"

definition gc_lifecycle_event :: "u64 \<Rightarrow> u32 \<Rightarrow> u32 \<Rightarrow> u32 \<Rightarrow> u8 list \<Rightarrow> ClrEventsParser \<Rightarrow> handled" where
  "gc_lifecycle_event timestamp i version cbEventData pEventData s =
     (if i = 35 then Some (OnGCTriggered s)
      else if i = 1 then
        with_payload ReadGCStart pEventData cbEventData ([], s) (\<lambda>payload _. OnGCStart timestamp payload s)
      else if i = 2 then
        with_payload ReadGCEnd pEventData cbEventData ([], s) (\<lambda>payload _. OnGCEnd payload s)
      else if i = 9 then Some (OnGCSuspendEEBegin timestamp s)
      else if i = 3 then Some (OnGCRestartEEEnd timestamp s)
      else if i = 4 then
        if version = 1 then
          with_payload ReadGCHeapStatsV1 pEventData cbEventData ([], s) (\<lambda>payload _.
            OnGCHeapStats timestamp (hs_GenerationSize2 payload) (hs_GenerationSize3 payload) 0 s)
        else if version = 2 then
          with_payload ReadGCHeapStatsV2 pEventData cbEventData ([], s) (\<lambda>payload _.
            OnGCHeapStats timestamp (hs_GenerationSize2 payload) (hs_GenerationSize3 payload) (hs_GenerationSize4 payload) s)
        else Some (OnGCHeapStats timestamp 0 0 0 s)
      else if i = 205 then
        with_payload ReadGCGlobalHeap pEventData cbEventData ([], s) (\<lambda>payload _. OnGCGlobalHeapHistory timestamp payload s)
      else Some ([], s))"

definition ParseGcEvent :: "u64 \<Rightarrow> u32 \<Rightarrow> u32 \<Rightarrow> u32 \<Rightarrow> u8 list \<Rightarrow> ClrEventsParser \<Rightarrow> handled" where
  "ParseGcEvent timestamp i version cbEventData pEventData s =
     (if i = 10 \<and> version = 4 then
        if \<not> cp_pAllocationListener s \<or> \<not> cp_allocationEnabled s then Some ([], s)
        else with_payload ParseAllocationEvent pEventData cbEventData ([], s) (\<lambda>payload _.
          ([CallAllocation (at_AllocationKind payload) (at_TypeId payload) (at_TypeName payload) (at_Address payload)
              (at_ObjectSize payload) (at_AllocationAmount64 payload)], s))
      else
        case gc_dump_event i cbEventData pEventData s of
          None \<Rightarrow> None
        | Some (calls, goes_on) \<Rightarrow>
            if \<not> goes_on \<or> cp_skipGcLifecycleEvents s then Some (calls, s)
            else map_option (\<lambda>(calls', s'). (calls @ calls', s'))
                   (gc_lifecycle_event timestamp i version cbEventData pEventData s))"

definition KEYWORD_GC :: u64 where "KEYWORD_GC = 0x1"
definition KEYWORD_CONTENTION :: u64 where "KEYWORD_CONTENTION = 0x4000"
definition KEYWORD_GCHEAPDUMP :: u64 where "KEYWORD_GCHEAPDUMP = 0x100000"
definition KEYWORD_WAITHANDLE :: u64 where "KEYWORD_WAITHANDLE = 0x40000000000"
definition KEYWORD_ALLOCATION_SAMPLING :: u64 where "KEYWORD_ALLOCATION_SAMPLING = 0x80000000000"

text \<open>An event as the runtime delivers it: time stamp, version, keywords, identifier and payload.\<close>

record clr_event =
  ev_timestamp :: u64
  ev_version :: u32
  ev_keywords :: u64
  ev_id :: u32
  ev_cbEventData :: u32
  ev_data :: "u8 list"

definition ParseClrEvent :: "u64 \<Rightarrow> clr_event \<Rightarrow> ClrEventsParser \<Rightarrow> handled" where
  "ParseClrEvent unspecified e s =
     (let keywords = ev_keywords e in
      if keywords AND KEYWORD_GC = KEYWORD_GC \<or> keywords AND KEYWORD_GCHEAPDUMP = KEYWORD_GCHEAPDUMP
      then ParseGcEvent (ev_timestamp e) (ev_id e) (ev_version e) (ev_cbEventData e) (ev_data e) s
      else if keywords AND KEYWORD_CONTENTION = KEYWORD_CONTENTION
      then ParseContentionEvent unspecified (ev_id e) (ev_version e) (ev_cbEventData e) (ev_data e) s
      else if keywords AND KEYWORD_WAITHANDLE = KEYWORD_WAITHANDLE
      then ParseWaitHandleEvent (ev_timestamp e) (ev_id e) (ev_cbEventData e) (ev_data e) s
      else if keywords AND KEYWORD_ALLOCATION_SAMPLING = KEYWORD_ALLOCATION_SAMPLING
      then ParseAllocationSampledEvent (ev_id e) (ev_cbEventData e) (ev_data e) s
      else Some ([], s))"

text \<open>A sequence of events.\<close>

fun parse_events :: "u64 \<Rightarrow> clr_event list \<Rightarrow> ClrEventsParser \<Rightarrow> handled" where
  "parse_events unspecified [] s = Some ([], s)"
| "parse_events unspecified (e # es) s =
     (case ParseClrEvent unspecified e s of
        None \<Rightarrow> None
      | Some (calls, s') \<Rightarrow> map_option (\<lambda>(calls', s''). (calls @ calls', s'')) (parse_events unspecified es s'))"

section \<open>Watching the calls\<close>

text \<open>
  What a listener of garbage collections may rely on, as a watcher of the calls: it remembers the last
  foreground (or non-concurrent) and the last background collection that was announced, with the
  suspensions reported for it. It fails when a suspension or an end does not belong to the collection that
  is being waited for, when an end repeats, or when the reported durations are not the sum of the
  suspensions and the time since the start.
\<close>

record watched =
  w_number :: u32
  w_generation :: u32
  w_reason :: u32
  w_type :: u32
  w_start :: u64
  w_pause :: u64

type_synonym watch = "watched option \<times> watched option"

definition watch_end :: "watched \<Rightarrow> u32 \<Rightarrow> u32 \<Rightarrow> u32 \<Rightarrow> u32 \<Rightarrow> u64 \<Rightarrow> u64 \<Rightarrow> u64 \<Rightarrow> bool" where
  "watch_end w n g r ty pause duration endTime \<longleftrightarrow>
     w = \<lparr>w_number = n, w_generation = g, w_reason = r, w_type = ty, w_start = endTime - duration, w_pause = pause\<rparr>"

fun watch_step :: "nat \<Rightarrow> clr_call \<Rightarrow> watch \<Rightarrow> watch option" where
  "watch_step l (CallGarbageCollectionStart l' t n g r ty) (fg, bg) =
     (if l' \<noteq> l then Some (fg, bg)
      else let w = \<lparr>w_number = n, w_generation = g, w_reason = r, w_type = ty, w_start = t, w_pause = 0\<rparr> in
        if g = 2 \<and> ty = BackgroundGC then Some (fg, Some w) else Some (Some w, bg))"
| "watch_step l (CallSuspension t n g d) (fg, bg) =
     (case fg of
        Some w \<Rightarrow> if w_number w = n \<and> w_generation w = g then Some (Some (w\<lparr>w_pause := w_pause w + d\<rparr>), bg) else None
      | None \<Rightarrow>
          (case bg of
             Some w \<Rightarrow> if w_number w = n \<and> w_generation w = g then Some (fg, Some (w\<lparr>w_pause := w_pause w + d\<rparr>)) else None
           | None \<Rightarrow> None))"
| "watch_step l (CallGarbageCollectionEnd l' n g r ty c pause duration endTime gen2 loh poh mem) (fg, bg) =
     (if l' \<noteq> l then Some (fg, bg)
      else case fg of
        Some w \<Rightarrow> if watch_end w n g r ty pause duration endTime then Some (None, bg) else None
      | None \<Rightarrow>
          (case bg of
             Some w \<Rightarrow> if watch_end w n g r ty pause duration endTime then Some (None, None) else None
           | None \<Rightarrow> None))"
| "watch_step l _ w = Some w"

fun watch_all :: "nat \<Rightarrow> clr_call list \<Rightarrow> watch \<Rightarrow> watch option" where
  "watch_all l [] w = Some w"
| "watch_all l (c # cs) w = (case watch_step l c w of None \<Rightarrow> None | Some w' \<Rightarrow> watch_all l cs w')"

text \<open>The watcher's view of the parser.\<close>

definition watched_gc :: "GCDetails \<Rightarrow> watched option" where
  "watched_gc gc =
     (if gc_Number gc = -1 then None
      else Some \<lparr>w_number = gc_Number gc, w_generation = gc_Generation gc, w_reason = gc_Reason gc, w_type = gc_Type gc,
             w_start = gc_StartTimestamp gc, w_pause = gc_PauseDuration gc\<rparr>)"

definition watch_of :: "ClrEventsParser \<Rightarrow> watch" where
  "watch_of s = (watched_gc (cp_gcInProgress s), watched_gc (cp_currentBGC s))"

definition wf_parser :: "nat \<Rightarrow> ClrEventsParser \<Rightarrow> bool" where
  "wf_parser l s \<longleftrightarrow>
     cp_pGCSuspensionsListener s \<and> distinct (cp_pGarbageCollectionsListeners s) \<and> l \<in> set (cp_pGarbageCollectionsListeners s) \<and>
     (gc_Number (cp_gcInProgress s) \<noteq> -1 \<longrightarrow>
        \<not> (gc_Generation (cp_gcInProgress s) = 2 \<and> gc_Type (cp_gcInProgress s) = BackgroundGC)) \<and>
     (gc_Number (cp_currentBGC s) \<noteq> -1 \<longrightarrow> gc_Generation (cp_currentBGC s) = 2 \<and> gc_Type (cp_currentBGC s) = BackgroundGC)"

text \<open>A handler whose calls the watcher accepts, and that keeps the parser well-formed.\<close>

definition watchable :: "nat \<Rightarrow> ClrEventsParser \<Rightarrow> clr_call list \<times> ClrEventsParser \<Rightarrow> bool" where
  "watchable l s r \<longleftrightarrow> watch_all l (fst r) (watch_of s) = Some (watch_of (snd r)) \<and> wf_parser l (snd r)"

section \<open>Events are read within their payloads\<close>

lemma safe_ReadStruct [safe_readers]: "safe_reader (ReadStruct n f)"
  unfolding ReadStruct_def by (intro safe_readers)

lemmas struct_readers = ReadContentionStopV1_def ReadContentionStartV2_def ReadGCStart_def ReadGCEnd_def
  ReadGCHeapStatsV1_def ReadGCHeapStatsV2_def ReadGCGlobalHeap_def ReadWaitHandleWaitStart_def
  ReadWaitHandleWaitStop_def ReadGCBulk_def ReadGCBulkRootStaticVar_def ReadGCBulkRootStaticVarValue_def

lemma safe_struct_readers [safe_readers]:
  "safe_reader ReadContentionStopV1" "safe_reader ReadContentionStartV2" "safe_reader ReadGCStart" "safe_reader ReadGCEnd"
  "safe_reader ReadGCHeapStatsV1" "safe_reader ReadGCHeapStatsV2" "safe_reader ReadGCGlobalHeap"
  "safe_reader ReadWaitHandleWaitStart" "safe_reader ReadWaitHandleWaitStop" "safe_reader ReadGCBulk"
  "safe_reader ReadGCBulkRootStaticVar" "safe_reader ReadGCBulkRootStaticVarValue"
  unfolding struct_readers by (intro safe_readers)+

lemma safe_ParseAllocation [safe_readers]: "safe_reader ParseAllocationEvent" "safe_reader ParseAllocationSampledPayload"
  unfolding ParseAllocationEvent_def ParseAllocationSampledPayload_def by (intro safe_readers)+

lemma safe_readerD_offset:
  "safe_reader m \<Longrightarrow> unat cb \<le> length data \<Longrightarrow> offset \<le> cb \<Longrightarrow> m data cb offset = Got (a, offset') \<Longrightarrow> offset' \<le> cb"
  unfolding safe_reader_def by (drule spec [of _ data], drule spec [of _ cb], drule spec [of _ offset]) auto

lemma with_payload_safe:
  "safe_reader m \<Longrightarrow> unat cb \<le> length data \<Longrightarrow> with_payload m data cb r f \<noteq> None"
  using safe_readerD [of m cb data 0] by (auto simp: with_payload_def split: read.splits)

lemma bulk_static_vars_safe:
  "unat cb \<le> length data \<Longrightarrow> offset \<le> cb \<Longrightarrow> bulk_static_vars n data cb offset \<noteq> None"
proof (induction n arbitrary: offset)
  case (Suc n)
  note v = safe_struct_readers(12) [THEN safe_readerD, OF Suc.prems]
    safe_struct_readers(12) [THEN safe_readerD_offset, OF Suc.prems]
  note w = safe_ReadWideString [THEN safe_readerD, OF Suc.prems(1)]
    safe_ReadWideString [THEN safe_readerD_offset, OF Suc.prems(1)]
  show ?case
    using v w Suc.IH [OF Suc.prems(1)] by (auto split: read.splits)
qed simp

lemma static_vars_event_safe:
  "unat cb \<le> length data \<Longrightarrow>
     (case ReadGCBulkRootStaticVar data cb 0 of
        OutOfBounds \<Rightarrow> None
      | Rejected \<Rightarrow> Some ([], False)
      | Got (payload, offset) \<Rightarrow> map_option (\<lambda>calls. (calls, True)) (bulk_static_vars (unat (sp_Count payload)) data cb offset)) \<noteq> None"
  using safe_readerD [OF safe_struct_readers(11), of cb data 0] safe_readerD_offset [OF safe_struct_readers(11), of cb data 0]
    bulk_static_vars_safe [of cb data]
  by (auto split: read.splits)

lemma gc_dump_event_safe: "unat cb \<le> length data \<Longrightarrow> gc_dump_event i cb data s \<noteq> None"
  unfolding gc_dump_event_def
  by (simp add: with_payload_safe safe_struct_readers static_vars_event_safe del: not_None_eq)

lemma gc_lifecycle_event_safe: "unat cb \<le> length data \<Longrightarrow> gc_lifecycle_event t i v cb data s \<noteq> None"
  unfolding gc_lifecycle_event_def by (simp add: with_payload_safe safe_struct_readers del: not_None_eq)

lemma ParseGcEvent_safe: "unat cb \<le> length data \<Longrightarrow> ParseGcEvent t i v cb data s \<noteq> None"
  using gc_dump_event_safe [of cb data i s] gc_lifecycle_event_safe [of cb data t i v s]
  unfolding ParseGcEvent_def
  by (simp add: with_payload_safe [OF safe_ParseAllocation(1)] del: not_None_eq split: option.splits prod.splits)

lemma ParseClrEvent_safe: "unat (ev_cbEventData e) \<le> length (ev_data e) \<Longrightarrow> ParseClrEvent u e s \<noteq> None"
  unfolding ParseClrEvent_def Let_def ParseContentionEvent_def ParseWaitHandleEvent_def ParseAllocationSampledEvent_def
  by (simp add: ParseGcEvent_safe with_payload_safe safe_struct_readers safe_ParseAllocation del: not_None_eq)

lemma parse_events_safe:
  assumes "\<forall>e\<in>set es. unat (ev_cbEventData e) \<le> length (ev_data e)"
  shows "\<exists>q. parse_events unspecified es s = Some q"
  using assms
proof (induction es arbitrary: s)
  case (Cons e es)
  obtain calls s1 where "ParseClrEvent unspecified e s = Some (calls, s1)"
    using ParseClrEvent_safe [of e unspecified s] Cons.prems by auto
  with Cons.IH [of s1] Cons.prems show ?case by auto
qed simp

text \<open>
  Whatever the runtime delivers, in any order, every sequence of events whose buffers have the
  announced sizes is parsed without a read outside of a payload.
\<close>

lemma parse_events_in_bounds:
  assumes "\<forall>e\<in>set es. unat (ev_cbEventData e) \<le> length (ev_data e)"
  shows "\<exists>calls s'. parse_events unspecified es s = Some (calls, s')"
  using parse_events_safe [OF assms, of unspecified s] by auto

section \<open>Ends belong to starts\<close>

lemma watch_all_append: "watch_all l (cs @ ds) w = (case watch_all l cs w of None \<Rightarrow> None | Some w' \<Rightarrow> watch_all l ds w')"
  by (induction cs arbitrary: w) (auto split: option.splits)

lemma watch_all_others:
  "(\<And>l'. l' \<in> set ls \<Longrightarrow> watch_step l (f l') w = Some w) \<Longrightarrow> watch_all l (map f ls) w = Some w"
  by (induction ls) simp_all

lemma watch_all_listeners:
  assumes "distinct ls" and "l \<in> set ls" and "\<And>l' v. l' \<noteq> l \<Longrightarrow> watch_step l (f l') v = Some v"
  shows "watch_all l (map f ls) w = watch_step l (f l) w"
proof -
  obtain xs ys where ls: "ls = xs @ l # ys" using split_list [OF assms(2)] by blast
  then have "watch_all l (map f xs) w = Some w" and "\<And>v. watch_all l (map f ys) v = Some v"
    using assms(1) by (auto intro!: watch_all_others assms(3))
  then show ?thesis unfolding ls by (simp add: watch_all_append split: option.splits)
qed

lemma wf_parserD:
  assumes "wf_parser l s"
  shows "cp_pGCSuspensionsListener s" "distinct (cp_pGarbageCollectionsListeners s)" "l \<in> set (cp_pGarbageCollectionsListeners s)"
  using assms by (simp_all add: wf_parser_def)

lemma watch_started:
  assumes "wf_parser l s"
  shows "watch_all l (NotifyGarbageCollectionStarted s t n g r ty) w =
    watch_step l (CallGarbageCollectionStart l t n g r ty) w"
  unfolding NotifyGarbageCollectionStarted_def
  by (rule watch_all_listeners [OF wf_parserD(2,3) [OF assms]]) (cases w, auto)

lemma watch_ended:
  assumes "distinct (cp_pGarbageCollectionsListeners s)" "l \<in> set (cp_pGarbageCollectionsListeners s)"
  shows "watch_all l (NotifyGarbageCollectionEnd s gc t mem) (fg, bg) =
    watch_step l (CallGarbageCollectionEnd l (gc_Number gc) (gc_Generation gc) (gc_Reason gc) (gc_Type gc) (gc_IsCompacting gc)
            (gc_PauseDuration gc) (t - gc_StartTimestamp gc) t (gc_gen2Size gc) (gc_lohSize gc) (gc_pohSize gc) mem) (fg, bg)"
  unfolding NotifyGarbageCollectionEnd_def
  by (rule watch_all_listeners [OF assms]) auto

lemmas gc_state_defs = watchable_def watch_of_def watched_gc_def wf_parser_def GetCurrentGC_def set_current_gc_def
  watch_end_def ResetGC_def

lemma OnGCStart_watchable:
  assumes "wf_parser l s" and "gs_Count payload \<noteq> -1"
  shows "watchable l s (OnGCStart t payload s)"
  using assms watch_started [OF assms(1)]
  by (auto simp: OnGCStart_def InitializeGC_def gc_state_defs Let_def)

lemma OnGCSuspendEEBegin_watchable: "wf_parser l s \<Longrightarrow> watchable l s (OnGCSuspendEEBegin t s)"
  by (auto simp: OnGCSuspendEEBegin_def gc_state_defs)

lemma OnGCHeapStats_watchable: "wf_parser l s \<Longrightarrow> watchable l s (OnGCHeapStats t a b c s)"
  by (auto simp: OnGCHeapStats_def gc_state_defs Let_def watch_ended)

lemma OnGCGlobalHeapHistory_watchable: "wf_parser l s \<Longrightarrow> watchable l s (OnGCGlobalHeapHistory t p s)"
  by (auto simp: OnGCGlobalHeapHistory_def gc_state_defs Let_def watch_ended)

lemma OnGCRestartEEEnd_watchable: "wf_parser l s \<Longrightarrow> watchable l s (OnGCRestartEEEnd t s)"
  by (auto simp: OnGCRestartEEEnd_def NotifySuspension_def gc_state_defs Let_def watch_ended watch_all_append)

lemma watchable_ignored: "wf_parser l s \<Longrightarrow> watchable l s ([], s)"
  by (simp add: watchable_def)

lemmas handlers_watchable = OnGCSuspendEEBegin_watchable OnGCHeapStats_watchable OnGCGlobalHeapHistory_watchable
  OnGCRestartEEEnd_watchable watchable_ignored

lemma with_payload_watchable:
  assumes "with_payload m data cb r f = Some q" and "watchable l s r" and "\<And>a offset. m data cb 0 = Got (a, offset) \<Longrightarrow> watchable l s (f a offset)"
  shows "watchable l s q"
  using assms by (auto simp: with_payload_def split: read.splits)

lemma ReadGCStart_Count: "ReadGCStart data cb 0 = Got (payload, offset) \<Longrightarrow> gs_Count payload = field32 data 0"
  by (auto simp: ReadGCStart_def ReadStruct_def then_read_def give_def Read_def bytes_at_def field32_def min_def
      split: read.splits if_splits option.splits)

lemma gc_lifecycle_event_watchable:
  assumes "wf_parser l s" and "i = 1 \<longrightarrow> field32 data 0 \<noteq> -1" and "gc_lifecycle_event t i v cb data s = Some q"
  shows "watchable l s q"
proof -
  note h = handlers_watchable [OF assms(1)] OnGCStart_watchable [OF assms(1)]
  show ?thesis
    using assms(2,3) h
    by (auto simp: gc_lifecycle_event_def OnGCTriggered_def OnGCEnd_def ReadGCStart_Count
        intro: with_payload_watchable split: if_splits)
qed

text \<open>Calls of the other listeners are not watched.\<close>

fun other_call :: "clr_call \<Rightarrow> bool" where
  "other_call (CallSuspension _ _ _ _) = False"
| "other_call (CallGarbageCollectionStart _ _ _ _ _ _) = False"
| "other_call (CallGarbageCollectionEnd _ _ _ _ _ _ _ _ _ _ _ _ _) = False"
| "other_call _ = True"

lemma watch_all_other: "list_all other_call cs \<Longrightarrow> watch_all l cs w = Some w"
proof (induction cs)
  case (Cons c cs)
  then have "watch_step l c w = Some w" by (cases w, cases c) auto
  with Cons show ?case by simp
qed simp

lemma bulk_static_vars_other: "bulk_static_vars n data cb offset = Some cs \<Longrightarrow> list_all other_call cs"
  by (induction n arbitrary: offset cs) (auto split: read.splits)

lemma gc_dump_event_other: "gc_dump_event i cb data s = Some (cs, b) \<Longrightarrow> list_all other_call cs"
  by (auto simp: gc_dump_event_def with_payload_def dest: bulk_static_vars_other split: if_splits read.splits)

lemma watchable_other: "wf_parser l s \<Longrightarrow> list_all other_call cs \<Longrightarrow> watchable l s (cs, s)"
  by (simp add: watchable_def watch_all_other)

lemma ParseClrEvent_watchable:
  assumes "wf_parser l s" and "ev_id e = 1 \<longrightarrow> field32 (ev_data e) 0 \<noteq> -1" and "ParseClrEvent u e s = Some q"
  shows "watchable l s q"
proof -
  have gc: "watchable l s q"
    if g: "ParseGcEvent (ev_timestamp e) (ev_id e) (ev_version e) (ev_cbEventData e) (ev_data e) s = Some q"
  proof (cases "ev_id e = 10 \<and> ev_version e = 4")
    case True
    then show ?thesis using g assms(1)
      by (auto simp: ParseGcEvent_def with_payload_def intro!: watchable_other split: if_splits read.splits)
  next
    case False
    then obtain cs b where d: "gc_dump_event (ev_id e) (ev_cbEventData e) (ev_data e) s = Some (cs, b)"
      using g by (auto simp: ParseGcEvent_def split: option.splits)
    note o1 = gc_dump_event_other [OF d]
    show ?thesis using g d False watchable_other [OF assms(1) o1]
        gc_lifecycle_event_watchable [OF assms(1,2)] watch_all_other [OF o1]
      by (fastforce simp: ParseGcEvent_def watchable_def watch_all_append split: if_splits)
  qed
  then show ?thesis using assms(3) watchable_other [OF assms(1)]
    by (auto simp: ParseClrEvent_def Let_def ParseContentionEvent_def ParseWaitHandleEvent_def
        ParseAllocationSampledEvent_def with_payload_def split: if_splits read.splits)
qed

lemma parse_events_watchable:
  assumes "wf_parser l s" and "\<forall>e\<in>set es. ev_id e = 1 \<longrightarrow> field32 (ev_data e) 0 \<noteq> -1"
    and "parse_events u es s = Some q"
  shows "watchable l s q"
  using assms
proof (induction es arbitrary: s q)
  case Nil
  then show ?case by (auto simp: watchable_def)
next
  case (Cons e es)
  obtain cs s1 where e: "ParseClrEvent u e s = Some (cs, s1)" using Cons.prems(3) by (auto split: option.splits)
  obtain ds s2 where es: "parse_events u es s1 = Some (ds, s2)" "q = (cs @ ds, s2)"
    using Cons.prems(3) e by auto
  have "watchable l s (cs, s1)" by (rule ParseClrEvent_watchable [OF Cons.prems(1) _ e]) (use Cons.prems in simp)
  moreover from this have "watchable l s1 (ds, s2)" using Cons.prems es by (intro Cons.IH) (auto simp: watchable_def)
  ultimately show ?case by (simp add: es watchable_def watch_all_append)
qed

lemma Register_listeners:
  "cp_pGarbageCollectionsListeners (fold (\<lambda>l. Register (Some l)) ls s) = cp_pGarbageCollectionsListeners s @ ls"
  "cp_pGCSuspensionsListener (fold (\<lambda>l. Register (Some l)) ls s) = cp_pGCSuspensionsListener s"
  "cp_gcInProgress (fold (\<lambda>l. Register (Some l)) ls s) = cp_gcInProgress s"
  "cp_currentBGC (fold (\<lambda>l. Register (Some l)) ls s) = cp_currentBGC s"
  by (induction ls arbitrary: s) (simp_all add: Register_def)

text \<open>
  C7. For every sequence of events, each listener of garbage collections sees a consistent story: every
  suspension and every end that is reported belongs to the collection that was announced last and has not
  ended yet (a foreground collection before the background one), ends are reported at most once, the pause
  of a collection is the sum of its reported suspensions and its duration is the time since its start. The
  runtime never numbers a collection with the value that stands for none.
\<close>

theorem gc_notifications_consistent:
  assumes "distinct ls" and "l \<in> set ls"
    and "\<forall>e\<in>set es. unat (ev_cbEventData e) \<le> length (ev_data e)"
    and "\<forall>e\<in>set es. ev_id e = 1 \<longrightarrow> field32 (ev_data e) 0 \<noteq> -1"
  shows "\<exists>calls s' w.
    parse_events unspecified es (fold (\<lambda>l. Register (Some l)) ls (newClrEventsParser al co True du st sl junk j1 j2)) = Some (calls, s') \<and>
    watch_all l calls (None, None) = Some w"
proof -
  let ?s = "fold (\<lambda>l. Register (Some l)) ls (newClrEventsParser al co True du st sl junk j1 j2)"
  have wf: "wf_parser l ?s" using assms(1,2)
    by (simp add: wf_parser_def Register_listeners newClrEventsParser_def ResetGC_def)
  have w: "watch_of ?s = (None, None)"
    by (simp add: watch_of_def watched_gc_def Register_listeners newClrEventsParser_def ResetGC_def)
  obtain q where q: "parse_events unspecified es ?s = Some q" using parse_events_safe [OF assms(3)] by blast
  from parse_events_watchable [OF wf assms(4) q] show ?thesis
    using q w by (cases q) (auto simp: watchable_def)
qed

text \<open>A suspension, a non-concurrent collection number 3 and the restart.\<close>

definition demo_events :: "clr_event list" where
  "demo_events =
     [\<lparr>ev_timestamp = 5, ev_version = 1, ev_keywords = 1, ev_id = 9, ev_cbEventData = 0, ev_data = []\<rparr>,
      \<lparr>ev_timestamp = 6, ev_version = 2, ev_keywords = 1, ev_id = 1, ev_cbEventData = 16,
       ev_data = [3, 0, 0, 0, 0, 0, 0, 0, 0, 0, 0, 0, 0, 0, 0, 0]\<rparr>,
      \<lparr>ev_timestamp = 9, ev_version = 1, ev_keywords = 1, ev_id = 3, ev_cbEventData = 0, ev_data = []\<rparr>]"

theorem gc_notifications_consistent_witness:
  "\<forall>j. \<exists>calls s' w.
    parse_events 0 demo_events (fold (\<lambda>l. Register (Some l)) [7] (newClrEventsParser True True True False False False 0 j j)) = Some (calls, s') \<and>
    watch_all 7 calls (None, None) = Some w"
proof -
  have "\<forall>e\<in>set demo_events. unat (ev_cbEventData e) \<le> length (ev_data e)" by (simp add: demo_events_def)
  moreover have "\<forall>e\<in>set demo_events. ev_id e = 1 \<longrightarrow> field32 (ev_data e) 0 \<noteq> -1"
    by (simp add: demo_events_def field32_def)
  ultimately show ?thesis using gc_notifications_consistent [of "[7]" 7 demo_events 0] by simp
qed

section \<open>Background collections\<close>

text \<open>
  C27. The events with the heap statistics and the global heap history of a background collection may come in
  either order, as they do in .NET Framework and .NET Core: with the same time stamps, the parser makes the
  same calls and ends in the same state. Every listener gets one end, with the sizes, the compaction flag
  and the memory pressure of the two events, and the parser waits for no background collection any more.
\<close>

theorem background_end_any_order:
  assumes "gc_Number (cp_gcInProgress s) = -1" and "gc_Number (cp_currentBGC s) \<noteq> -1"
    and "gc_Generation (cp_currentBGC s) = 2" and "gc_Type (cp_currentBGC s) = BackgroundGC"
    and "\<not> gc_HasGlobalHeapHistoryBeenReceived (cp_currentBGC s)" and "\<not> gc_HasHeapStatsBeenReceived (cp_currentBGC s)"
    and "OnGCHeapStats t1 gen2 loh poh s = (c1, s1)" and "OnGCGlobalHeapHistory t2 payload s1 = (c2, s2)"
    and "OnGCGlobalHeapHistory t1 payload s = (d1, r1)" and "OnGCHeapStats t2 gen2 loh poh r1 = (d2, r2)"
  shows "c1 @ c2 = d1 @ d2 \<and> s2 = r2 \<and> gc_Number (cp_currentBGC s2) = -1 \<and>
    c1 @ c2 = map (\<lambda>l. CallGarbageCollectionEnd l (gc_Number (cp_currentBGC s)) 2 (gc_Reason (cp_currentBGC s)) BackgroundGC
        (gh_GlobalMechanisms payload AND Compaction = Compaction) (gc_PauseDuration (cp_currentBGC s))
        (t2 - gc_StartTimestamp (cp_currentBGC s)) t2 gen2 loh poh (gh_MemPressure payload))
      (cp_pGarbageCollectionsListeners s)"
  using assms
  by (auto simp: OnGCHeapStats_def OnGCGlobalHeapHistory_def GetCurrentGC_def set_current_gc_def ResetGC_def
      NotifyGarbageCollectionEnd_def Let_def)

definition demo_background :: "GCDetails \<Rightarrow> ClrEventsParser" where
  "demo_background j = snd (OnGCStart 6 \<lparr>gs_Count = 3, gs_Depth = 2, gs_Reason = 0, gs_Type = BackgroundGC\<rparr>
     (Register (Some 7) (newClrEventsParser True True True False False False 0 j j)))"

theorem background_end_any_order_witness:
  "\<forall>j. let s = demo_background j; p = \<lparr>gh_FinalYoungestDesired = 0, gh_NumHeaps = 1, gh_CondemnedGeneration = 2,
       gh_Gen0ReductionCount = 0, gh_Reason = 0, gh_GlobalMechanisms = 3, gh_ClrInstanceID = 0, gh_PauseMode = 0, gh_MemPressure = 40\<rparr>;
     a = OnGCHeapStats 8 100 200 300 s; b = OnGCGlobalHeapHistory 9 p (snd a)
   in fst a @ fst b = [CallGarbageCollectionEnd 7 3 2 0 BackgroundGC True 0 3 9 100 200 300 40]"
proof
  fix j
  define s where "s = demo_background j"
  define p where "p = \<lparr>gh_FinalYoungestDesired = 0, gh_NumHeaps = 1, gh_CondemnedGeneration = 2,
       gh_Gen0ReductionCount = 0, gh_Reason = 0, gh_GlobalMechanisms = 3, gh_ClrInstanceID = 0, gh_PauseMode = 0, gh_MemPressure = (40 :: u32)\<rparr>"
  note d = s_def demo_background_def OnGCStart_def Register_def newClrEventsParser_def InitializeGC_def ResetGC_def
  have "gc_Number (cp_gcInProgress s) = -1" "gc_Number (cp_currentBGC s) = 3" "gc_Generation (cp_currentBGC s) = 2"
    "gc_Type (cp_currentBGC s) = BackgroundGC" "\<not> gc_HasGlobalHeapHistoryBeenReceived (cp_currentBGC s)"
    "\<not> gc_HasHeapStatsBeenReceived (cp_currentBGC s)" "gc_Reason (cp_currentBGC s) = 0" "gc_PauseDuration (cp_currentBGC s) = 0"
    "gc_StartTimestamp (cp_currentBGC s) = 6" "cp_pGarbageCollectionsListeners s = [7]"
    by (simp_all add: d)
  moreover have "gh_GlobalMechanisms p AND Compaction = Compaction" "gh_MemPressure p = 40" by (simp_all add: p_def Compaction_def)
  moreover note background_end_any_order [of s 8 100 200 300 _ _ 9 p _ _ _ _ _ _, OF _ _ _ _ _ _
    prod.collapse [symmetric] prod.collapse [symmetric] prod.collapse [symmetric] prod.collapse [symmetric],
    THEN conjunct2, THEN conjunct2, THEN conjunct2]
  ultimately show "let s = demo_background j; p = \<lparr>gh_FinalYoungestDesired = 0, gh_NumHeaps = 1, gh_CondemnedGeneration = 2,
       gh_Gen0ReductionCount = 0, gh_Reason = 0, gh_GlobalMechanisms = 3, gh_ClrInstanceID = 0, gh_PauseMode = 0, gh_MemPressure = 40\<rparr>;
     a = OnGCHeapStats 8 100 200 300 s; b = OnGCGlobalHeapHistory 9 p (snd a)
   in fst a @ fst b = [CallGarbageCollectionEnd 7 3 2 0 BackgroundGC True 0 3 9 100 200 300 40]"
    unfolding Let_def s_def [symmetric] p_def [symmetric] by simp
qed

text \<open>
  The number of entries of a bulk event is not compared with the size of its payload: the listener may be
  told of more entries than the event has.
\<close>

lemma bulk_count_unchecked:
  "cp_pGCDumpListener s \<Longrightarrow> gc_dump_event 18 10 [0, 0, 0, 0, 0xFF, 0xFF, 0xFF, 0xFF, 0, 0] s =
     Some ([CallBulkNodes 0 0xFFFFFFFF 10], True)"
  by (simp add: gc_dump_event_def with_payload_def ReadGCBulk_def ReadStruct_def then_read_def give_def Read_def
      bytes_at_def field32_def)

text \<open>Rounding a duration is off by at most one half.\<close>

lemma round_parts_nearest:
  "ex < 0 \<Longrightarrow> 2 * \<bar>int m - int (round_parts (m, ex)) * 2 ^ nat (- ex)\<bar> \<le> 2 ^ nat (- ex)"
proof -
  assume "ex < 0"
  then obtain k where k: "nat (- ex) = Suc k" by (cases "nat (- ex)") auto
  define r where "r = (m + 2 ^ k) div 2 ^ Suc k"
  have "m + 2 ^ k = r * 2 ^ Suc k + (m + 2 ^ k) mod 2 ^ Suc k" unfolding r_def by (simp only: div_mult_mod_eq)
  moreover have "(m + 2 ^ k) mod 2 ^ Suc k < 2 ^ Suc k" by (rule mod_less_divisor) simp
  ultimately have "int m + 2 ^ k - int r * 2 ^ Suc k \<ge> 0 \<and> int m + 2 ^ k - int r * 2 ^ Suc k < 2 ^ Suc k"
    by (metis (mono_tags, lifting) add_diff_cancel_left' of_nat_0_le_iff of_nat_add of_nat_less_iff of_nat_mult
        of_nat_numeral of_nat_power)
  then have "\<bar>int m - int r * 2 ^ Suc k\<bar> \<le> 2 ^ k" by (simp only: power_Suc) linarith
  moreover have "round_parts (m, ex) = r" using k \<open>ex < 0\<close> by (simp add: round_parts_def r_def)
  ultimately show ?thesis unfolding k by simp
qed

end
