(* ===== verification/NetActivity.thy ===== *)
theory NetActivity
  imports Bytes
begin

unbundle bit_operations_syntax

text \<open>
  The activities of outgoing network requests (\<open>NetworkActivity.cpp\<close>): the runtime encodes the path of an
  activity, a list of numbers, in the nibbles of the first 12 bytes of a GUID. The profiler decodes the
  path, drops the last element for the events of a phase of a request, and encodes the rest again to
  find the request. Accesses outside of the buffers are the values \<open>None\<close> and \<open>Unreadable\<close>, so that the
  theorems can say when they do not happen. The encoding is shown to be lossless.
\<close>

section \<open>Model\<close>

record NetworkActivity =
  High :: u32
  Middle :: u32
  Low :: u32

definition newNetworkActivity :: NetworkActivity where
  "newNetworkActivity = \<lparr>High = 0, Middle = 0, Low = 0\<rparr>"

text \<open>The structure seen through a byte pointer, and back.\<close>

definition activity_bytes :: "NetworkActivity \<Rightarrow> u8 list" where
  "activity_bytes a = le_bytes 4 (unat (High a)) @ le_bytes 4 (unat (Middle a)) @ le_bytes 4 (unat (Low a))"

definition activity_of :: "u8 list \<Rightarrow> NetworkActivity" where
  "activity_of bs = \<lparr>High = of_nat (le_nat (take 4 bs)), Middle = of_nat (le_nat (take 4 (drop 4 bs))),
     Low = of_nat (le_nat (take 4 (drop 8 bs)))\<rparr>"

definition mix32 :: "u32 \<Rightarrow> u64" where
  "mix32 x0 =
     (let x1 = x0 XOR drop_bit 16 x0; x2 = x1 * 0x21f0aaad; x3 = x2 XOR drop_bit 15 x2;
          x4 = x3 * 0x735a2d97; x5 = x4 XOR drop_bit 15 x4
      in ucast x5)"

definition hash_combine :: "u64 \<Rightarrow> u32 \<Rightarrow> u64" where
  "hash_combine seed v = seed XOR mix32 (ucast seed + 0x9e3779b9 + v)"

definition get_hash_code :: "NetworkActivity \<Rightarrow> u64" where
  "get_hash_code a = hash_combine (hash_combine (hash_combine 0 (High a)) (Middle a)) (Low a)"

definition LastImmediateValue :: u32 where "LastImmediateValue = 0xA"
definition PrefixCode :: u32 where "PrefixCode = 0xB"
definition MultiByte1 :: u32 where "MultiByte1 = 0xC"

text \<open>\<open>None\<close> is an access outside of the buffer.\<close>

definition WriteNibble :: "u8 list \<Rightarrow> nat \<Rightarrow> u32 \<Rightarrow> (u8 list \<times> nat) option" where
  "WriteNibble buf ptr value =
     (if length buf \<le> ptr then None
      else if buf ! ptr \<noteq> 0 then Some (buf[ptr := buf ! ptr OR ucast value], ptr + 1)
      else Some (buf[ptr := ucast (push_bit 4 value)], ptr))"

fun write_id_bytes :: "nat \<Rightarrow> u8 list \<Rightarrow> nat \<Rightarrow> u32 \<Rightarrow> (u8 list \<times> nat) option" where
  "write_id_bytes 0 buf ptr i = Some (buf, ptr)"
| "write_id_bytes (Suc len) buf ptr i =
     (if 12 \<le> ptr then Some (buf, ptr + 1)
      else if length buf \<le> ptr then None
      else write_id_bytes len (buf[ptr := ucast i]) (ptr + 1) (drop_bit 8 i))"

definition id_length :: "u32 \<Rightarrow> nat" where
  "id_length i = (if i \<le> 0xFF then 1 else if i \<le> 0xFFFF then 2 else if i \<le> 0xFFFFFF then 3 else 4)"

text \<open>The code of the length, the odd nibble, and the bytes of a number.\<close>

definition write_multi :: "u8 list \<Rightarrow> nat \<Rightarrow> u32 \<Rightarrow> (u8 list \<times> nat) option" where
  "write_multi buf0 ptr0 i =
     (let len = id_length i in
      case WriteNibble buf0 ptr0 (MultiByte1 + of_nat (len - 1)) of
        None \<Rightarrow> None
      | Some (buf, ptr) \<Rightarrow>
          if ptr < 12 then
            if length buf \<le> ptr then None
            else if buf ! ptr \<noteq> 0 then
              if i < 4096
              then write_id_bytes 1 (buf[ptr := ucast (push_bit 4 MultiByte1 + drop_bit 8 i)]) (ptr + 1) (i AND 0xFF)
              else write_id_bytes len buf (ptr + 1) i
            else write_id_bytes len buf ptr i
          else write_id_bytes len buf ptr i)"

definition AddIdToGuid :: "u8 list \<Rightarrow> nat \<Rightarrow> u32 \<Rightarrow> bool \<Rightarrow> (u8 list \<times> nat) option" where
  "AddIdToGuid buf whereToAddId i overflow =
     (if 12 \<le> whereToAddId then Some (buf, 13)
      else if 0 < i \<and> i \<le> LastImmediateValue \<and> \<not> overflow then WriteNibble buf whereToAddId i
      else if overflow then
        if 12 \<le> whereToAddId + 2 then Some (buf, 13)
        else (case WriteNibble buf whereToAddId PrefixCode of
           None \<Rightarrow> None
         | Some (buf', ptr) \<Rightarrow> write_multi buf' ptr i)
      else write_multi buf whereToAddId i)"

definition MAX_NIBBLE_ELEMENTS :: u8 where
  "MAX_NIBBLE_ELEMENTS = 24"

text \<open>
  How the decoding ends: with an access outside of the GUID, by giving up, or with the array of elements
  and the number of those in use.
\<close>

datatype decoded = Unreadable | GiveUp | Elements "u32 list" u8

definition high_nibble :: "u8 \<Rightarrow> u32" where
  "high_nibble b = ucast (drop_bit 4 b)"

definition low_nibble :: "u8 \<Rightarrow> u32" where
  "low_nibble b = ucast (b AND 0xF)"

fun value_loop :: "u8 list \<Rightarrow> nat \<Rightarrow> nat \<Rightarrow> u32 \<Rightarrow> u32" where
  "value_loop guid p 0 value = value"
| "value_loop guid p (Suc i) value = value_loop guid p i (push_bit 8 value + ucast (guid ! (p + i)))"

text \<open>
  One number of several bytes: \<open>Inl\<close> ends the decoding, \<open>Inr\<close> gives the element and the next position.
\<close>

definition decode_multi :: "u8 list \<Rightarrow> nat \<Rightarrow> bool \<Rightarrow> u32 \<Rightarrow> u8 \<Rightarrow> (unit + u32 \<times> nat) option" where
  "decode_multi guid p secondNibble nibble currentElement =
     (let numBytes = unat (nibble - MultiByte1) + 1;
          value0 = (if \<not> secondNibble then low_nibble (guid ! p) else 0);
          bytePtr = p + 1 in
      if 12 < bytePtr + numBytes then Some (Inl ())
      else if length guid < bytePtr + numBytes then None
      else let value = value_loop guid bytePtr numBytes value0 in
        if MAX_NIBBLE_ELEMENTS \<le> currentElement then Some (Inl ())
        else let q = bytePtr + numBytes in
          Some (Inr (value,
            if 0xFF < value \<and> value \<le> 0xFFF \<and> q + 1 < 12 \<and> guid ! q = 0 \<and> guid ! (q + 1) \<noteq> 0 then q + 1 else q)))"

lemma decode_multi_advances: "decode_multi guid p s nibble cur = Some (Inr (value, q)) \<Longrightarrow> p + 1 < q"
  by (auto simp: decode_multi_def Let_def split: if_splits)

text \<open>
  The part of the loop from one label \<open>NextNibble\<close> to the next: it stops, or gives an element, the position
  to go on at and whether the second nibble of the byte there is next.
\<close>

datatype decode_step = Fails | GivesUp | Stops | Found u32 nat bool

definition decode_nibble :: "u8 list \<Rightarrow> u8 \<Rightarrow> nat \<Rightarrow> bool \<Rightarrow> decode_step" where
  "decode_nibble guid cur p secondNibble =
     (if 12 \<le> p then Stops
      else if length guid \<le> p then Fails
      else let nibble = (if secondNibble then low_nibble (guid ! p) else high_nibble (guid ! p)) in
        if nibble = 0 then Stops
        else if nibble \<le> LastImmediateValue then
          if MAX_NIBBLE_ELEMENTS \<le> cur then Stops
          else if \<not> secondNibble then Found nibble p True
          else Found nibble (p + 1) False
        else if nibble = PrefixCode \<and> secondNibble \<and> 12 \<le> p + 1 then Stops
        else if nibble = PrefixCode \<and> secondNibble \<and> length guid \<le> p + 1 then Fails
        else
          let p' = (if nibble = PrefixCode \<and> secondNibble then p + 1 else p);
              nibble' = (if nibble \<noteq> PrefixCode then nibble
                         else if \<not> secondNibble then low_nibble (guid ! p) else high_nibble (guid ! p')) in
          if nibble' < MultiByte1 then GivesUp
          else case decode_multi guid p' secondNibble nibble' cur of
            None \<Rightarrow> Fails
          | Some (Inl _) \<Rightarrow> Stops
          | Some (Inr (value, q)) \<Rightarrow> Found value q False)"

lemma decode_nibble_advances:
  "decode_nibble guid cur p s = Found v q s' \<Longrightarrow> p < 12 \<and> (p < q \<or> (q = p \<and> \<not> s \<and> s'))"
  by (auto simp: decode_nibble_def Let_def dest!: decode_multi_advances split: if_splits option.splits sum.splits prod.splits)

function decode_loop :: "u8 list \<Rightarrow> u32 list \<Rightarrow> u8 \<Rightarrow> nat \<Rightarrow> bool \<Rightarrow> decoded" where
  "decode_loop guid elements cur p secondNibble =
     (case decode_nibble guid cur p secondNibble of
        Fails \<Rightarrow> Unreadable
      | GivesUp \<Rightarrow> GiveUp
      | Stops \<Rightarrow> Elements elements cur
      | Found value q s \<Rightarrow> decode_loop guid (elements[unat cur := value]) (cur + 1) q s)"
  by pat_completeness auto
termination
  by (relation "measure (\<lambda>(guid, elements, cur, p, s). 2 * (12 - p) + (if s then 0 else 1))")
    (auto dest!: decode_nibble_advances)

declare decode_loop.simps [simp del]

text \<open>The loop that encodes the first \<open>n\<close> elements of the array from index \<open>i\<close> on.\<close>

function encode_loop :: "u32 list \<Rightarrow> nat \<Rightarrow> nat \<Rightarrow> u8 list \<Rightarrow> nat \<Rightarrow> u8 list option" where
  "encode_loop elements i n buf offset =
     (if n \<le> i then Some buf
      else if length elements \<le> i then None
      else case AddIdToGuid buf offset (elements ! i) False of
        None \<Rightarrow> None
      | Some (buf', offset') \<Rightarrow> encode_loop elements (i + 1) n buf' offset')"
  by pat_completeness auto
termination by (relation "measure (\<lambda>(elements, i, n, buf, offset). n - i)") auto

declare encode_loop.simps [simp del]

text \<open>
  \<open>None\<close> is an access outside of a buffer; otherwise the result and the activity, which the caller passes
  in as it was constructed.
\<close>

definition GetRootActivity :: "u8 list \<Rightarrow> NetworkActivity \<Rightarrow> bool \<Rightarrow> (bool \<times> NetworkActivity) option" where
  "GetRootActivity guid activity isRoot =
     (case decode_loop guid (replicate (unat MAX_NIBBLE_ELEMENTS) 0) 0 0 False of
        Unreadable \<Rightarrow> None
      | GiveUp \<Rightarrow> Some (False, activity)
      | Elements elements cur \<Rightarrow>
          let currentElement = (if \<not> isRoot then cur - 1 else cur) in
          (case encode_loop elements 0 (unat currentElement) (activity_bytes activity) 0 of
             None \<Rightarrow> None
           | Some buf \<Rightarrow> Some (True, activity_of buf)))"

section \<open>Memory safety\<close>

lemma WriteNibble_safe:
  "ptr < length buf \<Longrightarrow> \<exists>buf' ptr'. WriteNibble buf ptr v = Some (buf', ptr') \<and> length buf' = length buf \<and> ptr \<le> ptr' \<and> ptr' \<le> ptr + 1"
  by (simp add: WriteNibble_def)

lemma write_id_bytes_safe:
  "length buf = 12 \<Longrightarrow> \<exists>buf' ptr'. write_id_bytes len buf ptr i = Some (buf', ptr') \<and> length buf' = 12"
  by (induction len arbitrary: buf ptr i) auto

lemma write_multi_safe:
  assumes "length buf = 12" and "ptr < 12"
  shows "\<exists>buf' ptr'. write_multi buf ptr i = Some (buf', ptr') \<and> length buf' = 12"
proof -
  obtain b q where "WriteNibble buf ptr (MultiByte1 + of_nat (id_length i - 1)) = Some (b, q)" "length b = 12"
    using WriteNibble_safe [of ptr buf] assms by metis
  then show ?thesis using write_id_bytes_safe by (auto simp: write_multi_def Let_def simp del: write_id_bytes.simps)
qed

lemma AddIdToGuid_safe:
  assumes "length buf = 12"
  shows "\<exists>buf' q. AddIdToGuid buf w i overflow = Some (buf', q) \<and> length buf' = 12"
proof (cases "overflow \<and> w + 2 < 12")
  case True
  obtain b q where "WriteNibble buf w PrefixCode = Some (b, q)" "length b = 12" "q \<le> w + 1"
    using WriteNibble_safe [of w buf PrefixCode] assms True by auto
  then show ?thesis using True write_multi_safe [of b q i] by (auto simp: AddIdToGuid_def)
next
  case False
  then show ?thesis
    using WriteNibble_safe [of w buf i] write_multi_safe [of buf w i] assms
    by (cases "w < 12") (auto simp: AddIdToGuid_def)
qed

lemma encode_loop_safe:
  "length buf = 12 \<Longrightarrow> i \<le> n \<Longrightarrow> encode_loop elements i n buf offset = None \<longleftrightarrow> length elements < n \<and> i < n"
proof (induction "n - i" arbitrary: i buf offset)
  case 0
  then show ?case by (simp add: encode_loop.simps)
next
  case (Suc k)
  show ?case
  proof (cases "length elements \<le> i")
    case True
    then show ?thesis using Suc by (subst encode_loop.simps) auto
  next
    case False
    obtain b q where b: "AddIdToGuid buf offset (elements ! i) False = Some (b, q)" "length b = 12"
      using AddIdToGuid_safe [OF Suc.prems(1)] by metis
    have "k = n - (i + 1)" "i + 1 \<le> n" using Suc.hyps(2) by simp_all
    from Suc.hyps(1) [OF this(1) b(2) this(2), of q] show ?thesis
      using False b Suc.hyps(2) by (subst encode_loop.simps) auto
  qed
qed

definition path_of :: "u8 list \<Rightarrow> u32 list option" where
  "path_of guid = (case decode_loop guid (replicate 24 0) 0 0 False of
     Elements elements cur \<Rightarrow> Some (take (unat cur) elements) | _ \<Rightarrow> None)"

lemma decode_multi_safe: "12 \<le> length guid \<Longrightarrow> decode_multi guid p s nibble cur \<noteq> None"
  by (auto simp: decode_multi_def Let_def)

lemma unat_next_element: "cur < (24 :: u8) \<Longrightarrow> unat (cur + 1) = unat cur + 1"
  by (simp add: word_less_nat_alt unat_word_ariths)

lemma decode_multi_room: "decode_multi guid p s nibble cur = Some (Inr x) \<Longrightarrow> cur < MAX_NIBBLE_ELEMENTS"
  by (auto simp: decode_multi_def Let_def not_le split: if_splits)

lemma decode_nibble_room: "decode_nibble guid cur p s = Found v q s' \<Longrightarrow> cur < MAX_NIBBLE_ELEMENTS"
  by (auto simp: decode_nibble_def Let_def not_le dest: decode_multi_room
    split: if_splits option.splits sum.splits prod.splits)

lemma decode_nibble_safe: "12 \<le> length guid \<Longrightarrow> decode_nibble guid cur p s \<noteq> Fails"
  by (auto simp: decode_nibble_def Let_def decode_multi_safe split: if_splits option.splits sum.splits prod.splits)

lemma decode_loop_safe:
  "12 \<le> length guid \<Longrightarrow> length elements = 24 \<Longrightarrow> unat cur \<le> 24 \<Longrightarrow>
     case decode_loop guid elements cur p s of Unreadable \<Rightarrow> False | GiveUp \<Rightarrow> True
     | Elements es c \<Rightarrow> length es = 24 \<and> unat c \<le> 24"
proof (induction guid elements cur p s rule: decode_loop.induct)
  case (1 guid elements cur p s)
  show ?case
  proof (cases "decode_nibble guid cur p s")
    case (Found v q s')
    have "cur < 24" using decode_nibble_room [OF Found] by (simp add: MAX_NIBBLE_ELEMENTS_def)
    then have "unat (cur + 1) \<le> 24" using unat_next_element [of cur] by (simp add: word_less_nat_alt)
    then show ?thesis using "1.IH" [OF Found "1.prems"(1)] "1.prems" Found by (subst decode_loop.simps) simp
  qed (use "1.prems" decode_nibble_safe [OF "1.prems"(1)] in \<open>subst decode_loop.simps, simp\<close>)+
qed

lemma length_activity_bytes [simp]: "length (activity_bytes a) = 12"
  by (simp add: activity_bytes_def)

lemma unat_MAX [simp]: "unat MAX_NIBBLE_ELEMENTS = 24"
  by (simp add: MAX_NIBBLE_ELEMENTS_def)

lemma max255: "unat (- 1 :: u8) = 255"
  by code_simp

lemma GetRootActivity_None:
  assumes "12 \<le> length guid"
  shows "GetRootActivity guid activity isRoot = None \<longleftrightarrow> \<not> isRoot \<and> path_of guid = Some []"
proof (cases "decode_loop guid (replicate 24 0) 0 0 False")
  case Unreadable
  then show ?thesis using decode_loop_safe [of guid "replicate 24 0" 0 0 False] assms by simp
next
  case GiveUp
  then show ?thesis by (simp add: GetRootActivity_def path_of_def)
next
  case (Elements es c)
  then have es: "length es = 24" "unat c \<le> 24"
    using decode_loop_safe [of guid "replicate 24 0" 0 0 False] assms by simp_all
  have "unat (c - 1) = (if c = 0 then 255 else unat c - 1)"
    by (cases "c = 0") (simp_all add: unat_minus_one max255)
  then have "24 < unat (if \<not> isRoot then c - 1 else c) \<longleftrightarrow> \<not> isRoot \<and> c = 0" using es(2) by auto
  moreover have "path_of guid = Some [] \<longleftrightarrow> c = 0"
    using Elements es(1) by (auto simp: path_of_def unat_eq_0)
  ultimately show ?thesis
    using Elements es(1) encode_loop_safe [of "activity_bytes activity" 0 "unat (if \<not> isRoot then c - 1 else c)" es 0]
    by (auto simp: GetRootActivity_def Let_def split: option.splits if_splits)
qed

text \<open>
  C20. The search for the activity of a request never leaves its buffers on any 12 readable bytes, except
  in one case: an event of a phase of a request whose GUID holds an empty path. The counter of elements
  then wraps around to 255 and the encoding reads past the array of 24 elements.
\<close>

theorem GetRootActivity_bounds:
  assumes "12 \<le> length guid"
  shows "GetRootActivity guid activity isRoot = None \<longleftrightarrow> \<not> isRoot \<and> path_of guid = Some []"
  using assms by (rule GetRootActivity_None)

theorem GetRootActivity_bounds_witness:
  "GetRootActivity (replicate 16 0) newNetworkActivity False = None \<and>
   GetRootActivity (replicate 16 0) newNetworkActivity True \<noteq> None"
proof -
  have "decode_nibble (replicate 16 0) 0 0 False = Stops" by code_simp
  then have "path_of (replicate 16 0) = Some []"
    by (simp add: path_of_def decode_loop.simps [of "replicate 16 0" _ 0 0 False])
  then show ?thesis
    using GetRootActivity_bounds [of "replicate 16 0" newNetworkActivity False]
      GetRootActivity_bounds [of "replicate 16 0" newNetworkActivity True] by simp
qed

section \<open>The layout of an encoded path\<close>

lemma unat_high_nibble: "unat (high_nibble b) = unat b div 16"
proof -
  have "unat b div 16 < 2 ^ 32"
    by (rule order_le_less_trans [OF div_le_dividend order_less_trans [OF unat_byte_less]]) simp
  then show ?thesis by (simp add: high_nibble_def unsigned_ucast_eq drop_bit_eq_div unat_div take_bit_nat_eq_self)
qed

lemma unat_low_nibble: "unat (low_nibble b) = unat b mod 16"
proof -
  have "b AND 0xF = take_bit 4 b" by (simp add: take_bit_eq_mask mask_eq_decr_exp)
  then show ?thesis by (simp add: low_nibble_def unsigned_ucast_eq take_bit_eq_mod unat_mod)
qed

definition immediate :: "u32 \<Rightarrow> bool" where
  "immediate i \<longleftrightarrow> 0 < i \<and> i \<le> LastImmediateValue"

definition multi_code :: "u32 \<Rightarrow> u32" where
  "multi_code i = MultiByte1 + of_nat (id_length i - 1)"

text \<open>
  The state of the encoder is the high nibble that waits for its low nibble, if there is one. An element
  adds whole bytes and leaves a new state.
\<close>

fun enc_id :: "u32 option \<Rightarrow> u32 \<Rightarrow> u8 list \<times> u32 option" where
  "enc_id None i =
     (if immediate i then ([], Some i)
      else if i < 4096 then ([ucast (push_bit 4 MultiByte1 + drop_bit 8 i), ucast (i AND 0xFF)], None)
      else (ucast (push_bit 4 (multi_code i)) # le_bytes (id_length i) (unat i), None))"
| "enc_id (Some h) i =
     (if immediate i then ([ucast (push_bit 4 h) OR ucast i], None)
      else ((ucast (push_bit 4 h) OR ucast (multi_code i)) # le_bytes (id_length i) (unat i), None))"

fun odd_bytes :: "u32 option \<Rightarrow> u8 list" where
  "odd_bytes None = []"
| "odd_bytes (Some h) = [ucast (push_bit 4 h)]"

fun odd_ok :: "u32 option \<Rightarrow> bool" where
  "odd_ok None = True"
| "odd_ok (Some h) = immediate h"

fun path_bytes :: "u32 option \<Rightarrow> u32 list \<Rightarrow> u8 list" where
  "path_bytes hi [] = odd_bytes hi"
| "path_bytes hi (i # ids) = (case enc_id hi i of (bs, hi') \<Rightarrow> bs @ path_bytes hi' ids)"

definition layout :: "u8 list \<Rightarrow> u32 option \<Rightarrow> u8 list" where
  "layout front hi = (let bs = front @ odd_bytes hi in bs @ replicate (12 - length bs) 0)"

lemma immediate_nat: "immediate i \<longleftrightarrow> 0 < unat i \<and> unat i \<le> 10"
  by (simp add: immediate_def LastImmediateValue_def word_less_nat_alt word_le_nat_alt)

lemma multi_code_nat: "unat (multi_code i) = 11 + id_length i" "1 \<le> id_length i" "id_length i \<le> 4"
  by (auto simp: multi_code_def MultiByte1_def id_length_def)

lemma unat_shifted: "unat h < 16 \<Longrightarrow> unat (ucast (push_bit 4 (h :: u32)) :: u8) = 16 * unat h"
  by (simp add: unsigned_ucast_eq push_bit_eq_mult unat_word_ariths take_bit_eq_mod)

lemma nibbles_joined:
  assumes "unat (h :: u32) < 16" and "unat (l :: u32) < 16"
  shows "unat (ucast (push_bit 4 h) OR ucast l :: u8) = 16 * unat h + unat l"
proof -
  have l: "unat (ucast l :: u8) = unat l" using assms(2) by (simp add: unsigned_ucast_eq take_bit_nat_eq_self)
  have "(ucast (push_bit 4 h) :: u8) AND ucast l = 0"
  proof (rule bit_eqI)
    fix n
    have "\<not> bit l m" if "4 \<le> m" for m
    proof -
      have "take_bit 4 l = l" using assms(2) by (intro unat_eqI) (simp add: unsigned_take_bit_eq take_bit_nat_eq_self)
      then show ?thesis using that by (metis bit_take_bit_iff not_le)
    qed
    then show "bit ((ucast (push_bit 4 h) :: u8) AND ucast l) n \<longleftrightarrow> bit (0 :: u8) n"
      by (auto simp: bit_and_iff bit_ucast_iff bit_push_bit_iff)
  qed
  then have "(ucast (push_bit 4 h) :: u8) OR ucast l = ucast (push_bit 4 h) + ucast l" by (simp add: disjunctive_add_eq_or)
  then show ?thesis using assms l unat_shifted [OF assms(1)] by (simp add: unat_word_ariths)
qed

lemma immediate_nibble: "immediate i \<Longrightarrow> unat i < 16"
  by (simp add: immediate_nat)

lemma multi_code_nibble: "unat (multi_code i) < 16"
  using multi_code_nat [of i] by simp

lemma le_bytes_word: "le_bytes (Suc n) (unat (i :: u32)) = ucast i # le_bytes n (unat (drop_bit 8 i))"
proof -
  have "(of_nat (unat i mod 256) :: u8) = ucast i"
    by (intro unat_eqI) (simp add: unsigned_ucast_eq take_bit_eq_mod unsigned_of_nat)
  then show ?thesis by (simp add: drop_bit_eq_div unat_div)
qed

lemma write_id_bytes_layout:
  "length front \<le> 12 \<Longrightarrow> write_id_bytes n (front @ replicate (12 - length front) 0) (length front) i = Some (buf, q) \<Longrightarrow> q \<le> 12 \<Longrightarrow>
     buf = (front @ le_bytes n (unat i)) @ replicate (12 - length (front @ le_bytes n (unat i))) 0 \<and>
     q = length front + n"
proof (induction n arbitrary: front i)
  case (Suc n)
  have len: "length front < 12" using Suc.prems by (auto split: if_splits)
  obtain k where k: "12 - length front = Suc k" "12 - length (front @ [ucast i :: u8]) = k"
    using len by (cases "12 - length front") auto
  have "(front @ replicate (12 - length front) 0)[length front := ucast i] =
      (front @ [ucast i]) @ replicate (12 - length (front @ [ucast i])) 0"
    unfolding k by simp
  then have "write_id_bytes n ((front @ [ucast i]) @ replicate (12 - length (front @ [ucast i])) 0)
      (length (front @ [ucast i])) (drop_bit 8 i) = Some (buf, q)"
    using Suc.prems(2) len by simp
  from Suc.IH [OF _ this Suc.prems(3)] show ?case
    using len by (simp add: le_bytes_word del: le_bytes.simps(2))
qed auto

lemma layout_None: "layout front None = front @ replicate (12 - length front) 0"
  by (simp add: layout_def)

lemma layout_Some: "layout front (Some h) = layout (front @ [ucast (push_bit 4 h)]) None"
  by (simp add: layout_def)

lemma layout_split: "length front < 12 \<Longrightarrow> layout front None = front @ 0 # replicate (11 - length front) 0"
  by (cases "12 - length front") (auto simp: layout_None intro: arg_cong2 [where f = replicate])

lemma layout_length: "length (front @ odd_bytes hi) \<le> 12 \<Longrightarrow> length (layout front hi) = 12"
  by (simp add: layout_def Let_def)

lemma layout_put: "length front < 12 \<Longrightarrow> (layout front None)[length front := b] = layout (front @ [b]) None"
  using layout_split [of front] by (auto simp: layout_None list_update_append)

lemma layout_put_Some: "length front < 12 \<Longrightarrow> (layout front (Some h))[length front := b] = layout (front @ [b]) None"
  by (simp add: layout_def Let_def list_update_append)

lemma layout_at: "length front < 12 \<Longrightarrow> layout front None ! length front = 0"
  using layout_split [of front] by auto

lemma layout_at_Some: "layout front (Some h) ! length front = ucast (push_bit 4 h)"
  by (simp add: layout_def nth_append)

lemma shifted_nonzero: "unat h < 16 \<Longrightarrow> 0 < unat h \<Longrightarrow> (ucast (push_bit 4 (h :: u32)) :: u8) \<noteq> 0"
  using unat_shifted [of h] by auto

lemma WriteNibble_first:
  "length front < 12 \<Longrightarrow> WriteNibble (layout front None) (length front) v = Some (layout front (Some v), length front)"
  using layout_length [of front None] by (simp add: WriteNibble_def layout_at layout_put layout_Some)

lemma WriteNibble_second:
  "length front < 12 \<Longrightarrow> immediate h \<Longrightarrow> WriteNibble (layout front (Some h)) (length front) v =
     Some (layout (front @ [ucast (push_bit 4 h) OR ucast v]) None, length front + 1)"
  using layout_length [of front "Some h"] shifted_nonzero [OF immediate_nibble, of h]
  by (simp add: WriteNibble_def layout_at_Some layout_put_Some immediate_nat)

lemma write_bytes_layout:
  "length front \<le> 12 \<Longrightarrow> write_id_bytes n (layout front None) (length front) i = Some (buf, q) \<Longrightarrow> q \<le> 12 \<Longrightarrow>
     buf = layout (front @ le_bytes n (unat i)) None \<and> q = length (front @ le_bytes n (unat i))"
  using write_id_bytes_layout [of front n i buf q] by (simp add: layout_None)

lemma write_multi_alt:
  "write_multi buf0 ptr0 i =
     (case WriteNibble buf0 ptr0 (multi_code i) of
        None \<Rightarrow> None
      | Some (buf, ptr) \<Rightarrow>
          if ptr < 12 then
            if length buf \<le> ptr then None
            else if buf ! ptr \<noteq> 0 then
              if i < 4096
              then write_id_bytes 1 (buf[ptr := ucast (push_bit 4 MultiByte1 + drop_bit 8 i)]) (ptr + 1) (i AND 0xFF)
              else write_id_bytes (id_length i) buf (ptr + 1) i
            else write_id_bytes (id_length i) buf ptr i
          else write_id_bytes (id_length i) buf ptr i)"
  by (simp add: write_multi_def multi_code_def Let_def)

lemma write_multi_first:
  assumes "length front < 12" and "write_multi (layout front None) (length front) i = Some (buf, q)" and "q \<le> 12" and "\<not> immediate i"
  shows "buf = layout (front @ fst (enc_id None i)) None \<and> q = length (front @ fst (enc_id None i))"
proof -
  let ?c = "ucast (push_bit 4 (multi_code i)) :: u8" and ?d = "ucast (push_bit 4 MultiByte1 + drop_bit 8 i) :: u8"
  have c: "?c \<noteq> 0" using shifted_nonzero [OF multi_code_nibble] multi_code_nat [of i] by simp
  show ?thesis
  proof (cases "i < 4096")
    case True
    then have "write_id_bytes 1 (layout (front @ [?d]) None) (length (front @ [?d])) (i AND 0xFF) = Some (buf, q)"
      using assms(1,2) c layout_length [of front "Some (multi_code i)"]
      by (simp del: write_id_bytes.simps add: write_multi_alt WriteNibble_first layout_at_Some layout_put_Some)
    from write_bytes_layout [OF _ this assms(3)] show ?thesis
      using assms(1,4) True le_bytes_word [of 0 "i AND 0xFF"] by simp
  next
    case False
    then have "write_id_bytes (id_length i) (layout front (Some (multi_code i))) (length (front @ [?c])) i = Some (buf, q)"
      using assms(1,2) c layout_length [of front "Some (multi_code i)"]
      by (simp del: write_id_bytes.simps add: write_multi_alt WriteNibble_first layout_at_Some)
    then have "write_id_bytes (id_length i) (layout (front @ [?c]) None) (length (front @ [?c])) i = Some (buf, q)"
      by (simp only: layout_Some)
    from write_bytes_layout [OF _ this assms(3)] show ?thesis using assms(1,4) False by simp
  qed
qed

lemma write_multi_second:
  assumes "length front < 12" and "immediate h" and "write_multi (layout front (Some h)) (length front) i = Some (buf, q)" and "q \<le> 12" and "\<not> immediate i"
  shows "buf = layout (front @ fst (enc_id (Some h) i)) None \<and> q = length (front @ fst (enc_id (Some h) i))"
proof -
  let ?c = "ucast (push_bit 4 h) OR ucast (multi_code i) :: u8"
  have "write_id_bytes (id_length i) (layout (front @ [?c]) None) (length (front @ [?c])) i = Some (buf, q)"
    using assms(1-3) layout_length [of "front @ [?c]" None] layout_at [of "front @ [?c]"]
    by (simp del: write_id_bytes.simps add: write_multi_alt WriteNibble_second split: if_splits)
  from write_bytes_layout [OF _ this assms(4)] show ?thesis using assms(1,5) by simp
qed

lemma AddIdToGuid_layout:
  assumes "odd_ok hi" and "AddIdToGuid (layout front hi) (length front) i False = Some (buf, q)" and "q \<le> 12"
    and "enc_id hi i = (bs, hi')"
  shows "buf = layout (front @ bs) hi' \<and> q = length (front @ bs) \<and> length (front @ bs @ odd_bytes hi') \<le> 12 \<and> odd_ok hi'"
proof -
  have len: "length front < 12" using assms(2,3) by (auto simp: AddIdToGuid_def split: if_splits)
  have add: "AddIdToGuid (layout front hi) (length front) i False =
      (if immediate i then WriteNibble (layout front hi) (length front) i else write_multi (layout front hi) (length front) i)"
    using len by (simp add: AddIdToGuid_def immediate_def)
  show ?thesis
  proof (cases hi)
    case None
    then show ?thesis
      using assms add len write_multi_first [of front i buf q]
      by (auto simp: WriteNibble_first split: if_splits)
  next
    case (Some h)
    then show ?thesis
      using assms add len write_multi_second [of front h i buf q]
      by (auto simp: WriteNibble_second split: if_splits)
  qed
qed

text \<open>The encoder on a whole path, and the bytes it writes when they fit.\<close>

fun add_ids :: "u32 list \<Rightarrow> u8 list \<Rightarrow> nat \<Rightarrow> (u8 list \<times> nat) option" where
  "add_ids [] buf offset = Some (buf, offset)"
| "add_ids (i # ids) buf offset =
     (case AddIdToGuid buf offset i False of None \<Rightarrow> None | Some (buf', offset') \<Rightarrow> add_ids ids buf' offset')"

definition encode_path :: "u32 list \<Rightarrow> u8 list option" where
  "encode_path path = (case add_ids path (replicate 12 0) 0 of
     None \<Rightarrow> None | Some (buf, offset) \<Rightarrow> if offset \<le> 12 then Some buf else None)"

lemma add_ids_full: "add_ids ids buf 13 = Some (buf, 13)"
  by (induction ids) (simp_all add: AddIdToGuid_def)

lemma add_ids_overflow: "12 < offset \<Longrightarrow> add_ids ids buf offset = Some (b, q) \<Longrightarrow> 12 < q"
  by (cases ids) (auto simp: AddIdToGuid_def add_ids_full)

lemma add_ids_layout:
  "odd_ok hi \<Longrightarrow> length (front @ odd_bytes hi) \<le> 12 \<Longrightarrow> add_ids ids (layout front hi) (length front) = Some (buf, q) \<Longrightarrow> q \<le> 12 \<Longrightarrow>
     buf = layout (front @ path_bytes hi ids) None \<and> length (front @ path_bytes hi ids) \<le> 12"
proof (induction ids arbitrary: front hi)
  case Nil
  then show ?case by (auto simp: layout_def)
next
  case (Cons i ids)
  obtain bs hi' where e: "enc_id hi i = (bs, hi')" by (cases "enc_id hi i")
  obtain b o1 where b: "AddIdToGuid (layout front hi) (length front) i False = Some (b, o1)" "add_ids ids b o1 = Some (buf, q)"
    using Cons.prems(3) by (auto split: option.splits)
  have "o1 \<le> 12" using add_ids_overflow [OF _ b(2)] Cons.prems(4) by (meson not_le)
  then have l: "b = layout (front @ bs) hi'" "o1 = length (front @ bs)" "length ((front @ bs) @ odd_bytes hi') \<le> 12" "odd_ok hi'"
    using AddIdToGuid_layout [OF Cons.prems(1) b(1) _ e] by auto
  show ?case using Cons.IH [OF l(4,3)] b(2) Cons.prems(4) e unfolding l by simp
qed

lemma enc_id_ok: "odd_ok hi \<Longrightarrow> enc_id hi i = (bs, hi') \<Longrightarrow> odd_ok hi'"
  by (cases hi) (auto split: if_splits)

lemma enc_id_nibbles: "enc_id hi i = (bs, hi') \<Longrightarrow> of_bool (hi \<noteq> None) + 1 \<le> 2 * length bs + (of_bool (hi' \<noteq> None) :: nat)"
  by (cases hi) (auto split: if_splits)

lemma path_nibbles: "length ids + of_bool (hi \<noteq> None) \<le> 2 * length (path_bytes hi ids)"
proof (induction ids arbitrary: hi)
  case Nil
  show ?case by (cases hi) simp_all
next
  case (Cons i ids)
  obtain bs hi' where e: "enc_id hi i = (bs, hi')" by (cases "enc_id hi i")
  show ?case using Cons.IH [of hi'] enc_id_nibbles [OF e] e by simp
qed

lemma joined_high: "unat h < 16 \<Longrightarrow> unat (l :: u32) < 16 \<Longrightarrow> high_nibble (ucast (push_bit 4 h) OR ucast l) = h"
  by (intro unat_eqI) (simp add: unat_high_nibble nibbles_joined)

lemma joined_low: "unat (h :: u32) < 16 \<Longrightarrow> unat l < 16 \<Longrightarrow> low_nibble (ucast (push_bit 4 h) OR ucast l) = l"
  by (intro unat_eqI) (simp add: unat_low_nibble nibbles_joined)

lemma shifted_high: "unat h < 16 \<Longrightarrow> high_nibble (ucast (push_bit 4 h)) = h"
  by (intro unat_eqI) (simp add: unat_high_nibble unat_shifted)

lemma shifted_low: "unat h < 16 \<Longrightarrow> low_nibble (ucast (push_bit 4 (h :: u32))) = 0"
  by (intro unat_eqI) (simp add: unat_low_nibble unat_shifted)

lemma small_code:
  assumes "(i :: u32) < 4096"
  shows "unat (ucast (push_bit 4 MultiByte1 + drop_bit 8 i) :: u8) = 192 + unat i div 256"
proof -
  have "unat i div 256 < 16" using assms by (simp add: word_less_nat_alt)
  moreover have "unat (push_bit 4 MultiByte1 + drop_bit 8 i) = 192 + unat i div 256"
    using calculation by (simp add: MultiByte1_def unat_word_ariths drop_bit_eq_div unat_div)
  ultimately show ?thesis by (simp add: unsigned_ucast_eq take_bit_eq_mod)
qed

lemma path_head_Some:
  assumes "immediate h"
  shows "\<exists>b bs. path_bytes (Some h) ids = b # bs \<and> high_nibble b = h"
  using assms immediate_nibble [OF assms] immediate_nibble multi_code_nibble
  by (cases ids) (auto simp: shifted_high joined_high)

lemma high_nibble_zero: "high_nibble 0 = 0"
  by (simp add: high_nibble_def)

lemma path_head_None: "\<exists>b bs. path_bytes None (i # ids) = b # bs \<and> b \<noteq> 0"
proof (cases "immediate i")
  case True
  then obtain b bs where "path_bytes (Some i) ids = b # bs" "high_nibble b = i" using path_head_Some by blast
  then show ?thesis using True by (auto simp: immediate_nat high_nibble_zero)
next
  case False
  then show ?thesis
    using small_code [of i] shifted_nonzero [OF multi_code_nibble, of i] multi_code_nat [of i] by auto
qed

section \<open>Decoding\<close>

lemma value_loop_le:
  "p + n \<le> length guid \<Longrightarrow> value_loop guid p n v = of_nat (le_nat (take n (drop p guid))) + v * 256 ^ n"
proof (induction n arbitrary: v)
  case (Suc n)
  have "take (Suc n) (drop p guid) = take n (drop p guid) @ [guid ! (p + n)]"
    using Suc.prems by (simp add: take_Suc_conv_app_nth)
  moreover have "push_bit 8 v = v * 256" by (simp add: push_bit_eq_mult)
  ultimately show ?case
    using Suc by (simp add: le_nat_append algebra_simps)
qed simp

lemma unat_MultiByte1: "unat MultiByte1 = 12"
  by (simp add: MultiByte1_def)

lemma decode_multi_found:
  assumes "guid = front @ b # bs @ rest" and "unat c = 11 + length bs" and "1 \<le> length bs" and "length front + 1 + length bs \<le> 12"
    and "12 \<le> length guid" and "cur < MAX_NIBBLE_ELEMENTS"
    and "v = of_nat (le_nat bs) + (if s then 0 else low_nibble b) * 256 ^ length bs"
    and "length front + length bs + 2 < 12 \<Longrightarrow> rest ! 0 = 0 \<Longrightarrow> rest ! 1 = 0"
  shows "decode_multi guid (length front) s c cur = Some (Inr (v, length front + 1 + length bs))"
proof -
  have "MultiByte1 \<le> c" using assms(2,3) by (simp add: word_le_nat_alt unat_MultiByte1)
  then have n: "unat (c - MultiByte1) + 1 = length bs"
    using assms(2,3) by (simp add: unat_sub unat_MultiByte1)
  have at: "guid ! length front = b" "take (length bs) (drop (length front + 1) guid) = bs"
    "guid ! (length front + 1 + length bs) = rest ! 0" "guid ! (length front + 1 + length bs + 1) = rest ! 1"
    using assms(1) by (simp_all add: nth_append)
  have "value_loop guid (length front + 1) (length bs) (if \<not> s then low_nibble b else 0) = v"
    using value_loop_le [of "length front + 1" "length bs" guid "if \<not> s then low_nibble b else 0"] assms(4,5,7) at by simp
  then show ?thesis
    using assms(4-6,8) unfolding decode_multi_def Let_def n at by (auto simp: not_le)
qed

lemma decode_nibble_multi:
  assumes "p < 12" "12 \<le> length guid" "n = (if s then low_nibble (guid ! p) else high_nibble (guid ! p))" "12 \<le> unat n"
    and "decode_multi guid p s n cur = Some (Inr (v, q))"
  shows "decode_nibble guid cur p s = Found v q False"
proof -
  have "n \<noteq> 0" "\<not> n \<le> LastImmediateValue" "n \<noteq> PrefixCode" "\<not> n < MultiByte1"
    using assms(4) by (auto simp: LastImmediateValue_def PrefixCode_def MultiByte1_def word_le_nat_alt word_less_nat_alt)
  then show ?thesis using assms(1,2,5) unfolding decode_nibble_def assms(3) [symmetric] by simp
qed

lemma decode_nibble_immediate:
  assumes "p < 12" "12 \<le> length guid" "n = (if s then low_nibble (guid ! p) else high_nibble (guid ! p))" "immediate n"
    and "cur < MAX_NIBBLE_ELEMENTS"
  shows "decode_nibble guid cur p s = Found n (if s then p + 1 else p) (\<not> s)"
  using assms(1,2,4,5) unfolding decode_nibble_def assms(3) [symmetric] by (auto simp: immediate_def not_le)

lemma rest_zero:
  "length front + length (path_bytes None ids) + k = 12 \<Longrightarrow> length front + 1 < 12 \<Longrightarrow>
     (path_bytes None ids @ replicate k 0 @ tail) ! 0 = 0 \<Longrightarrow> (path_bytes None ids @ replicate k 0 @ tail) ! 1 = 0"
proof (cases ids)
  case Nil
  assume "length front + length (path_bytes None ids) + k = 12" "length front + 1 < 12"
  then have "1 < k" using Nil by simp
  then show ?thesis using Nil by (simp add: nth_append)
next
  case (Cons i ids')
  assume "(path_bytes None ids @ replicate k 0 @ tail) ! 0 = 0"
  then show ?thesis using Cons path_head_None [of i ids'] by (auto simp del: path_bytes.simps)
qed

lemma le_nat_id: "le_nat (le_bytes (id_length i) (unat i)) = unat i"
proof -
  have "unat i < 256 ^ id_length i"
    using unsigned_less [of i] by (auto simp: id_length_def word_le_nat_alt)
  then show ?thesis by (simp add: le_nat_le_bytes)
qed

lemma enc_multi:
  assumes "\<not> immediate i" and "odd_ok hi" and "enc_id hi i = (bs, hi')"
  shows "\<exists>b cs c. bs = b # cs \<and> unat c = 11 + length cs \<and> 1 \<le> length cs \<and>
     c = (if hi \<noteq> None then low_nibble b else high_nibble b) \<and>
     i = of_nat (le_nat cs) + (if hi \<noteq> None then 0 else low_nibble b) * 256 ^ length cs"
proof -
  note code = multi_code_nat [of i] multi_code_nibble [of i]
  have i: "of_nat (le_nat (le_bytes (id_length i) (unat i))) = i" by (simp add: le_nat_id)
  show ?thesis
  proof (cases "hi = None \<and> i < 4096")
    case True
    let ?b = "ucast (push_bit 4 MultiByte1 + drop_bit 8 i) :: u8"
    have d: "unat i div 256 < 16" using True by (intro less_mult_imp_div_less) (simp add: word_less_nat_alt)
    have "(192 + x) div 16 = 12" "(192 + x) mod 16 = x" if "x < 16" for x :: nat using that by presburger+
    then have "unat (high_nibble ?b) = 12" "unat (low_nibble ?b) = unat i div 256"
      using small_code [of i] True d by (simp_all add: unat_high_nibble unat_low_nibble)
    moreover have "low_nibble ?b = of_nat (unat (low_nibble ?b))" by simp
    moreover have "unat (ucast (i AND 0xFF) :: u8) = unat i mod 256"
    proof -
      have "i AND 0xFF = take_bit 8 i" by (simp add: take_bit_eq_mask mask_eq_decr_exp)
      then show ?thesis by (simp add: unsigned_ucast_eq take_bit_eq_mod unat_mod)
    qed
    moreover have "i = of_nat (unat i mod 256) + of_nat (unat i div 256) * 256"
    proof -
      have "of_nat (unat i mod 256 + unat i div 256 * 256) = i" by simp
      then show ?thesis by (simp only: of_nat_add of_nat_mult of_nat_numeral)
    qed
    ultimately show ?thesis using True assms by auto
  next
    case False
    then show ?thesis
      using assms code i joined_low [OF immediate_nibble multi_code_nibble, of _ i] shifted_high [OF multi_code_nibble, of i]
        shifted_low [OF multi_code_nibble, of i]
      by (cases hi) auto
  qed
qed

lemma decode_nibble_found:
  assumes ok: "odd_ok hi" and e: "enc_id hi i = (bs, hi')"
    and guid: "guid = front @ path_bytes hi (i # ids) @ replicate k 0 @ tail"
    and len: "length (front @ path_bytes hi (i # ids)) + k = 12" and cur: "cur < MAX_NIBBLE_ELEMENTS"
  shows "decode_nibble guid cur (length front) (hi \<noteq> None) = Found i (length (front @ bs)) (hi' \<noteq> None)"
proof -
  let ?rest = "path_bytes hi' ids @ replicate k 0 @ tail"
  have g: "guid = front @ bs @ ?rest" "12 \<le> length guid" and l: "length (front @ bs) + length (path_bytes hi' ids) + k = 12"
    using guid len e by simp_all
  show ?thesis
  proof (cases "immediate i")
    case True
    show ?thesis
    proof (cases hi)
      case None
      then have h: "bs = []" "hi' = Some i" using True e by simp_all
      then obtain b cs where b: "path_bytes hi' ids = b # cs" "high_nibble b = i"
        using path_head_Some [OF True, of ids] by blast
      have "length front < 12" "guid ! length front = b" using l b h g(1) by simp_all
      then have "decode_nibble guid cur (length front) False = Found i (length front) True"
        using decode_nibble_immediate [OF _ g(2) _ True cur, of "length front" False] b(2) by simp
      then show ?thesis using None h by simp
    next
      case (Some h)
      then have b: "bs = [ucast (push_bit 4 h) OR ucast i]" "hi' = None" "low_nibble (hd bs) = i"
        using True e ok joined_low immediate_nibble by auto
      have "length front < 12" "guid ! length front = hd bs" using l b g(1) by simp_all
      then have "decode_nibble guid cur (length front) True = Found i (length front + 1) False"
        using decode_nibble_immediate [OF _ g(2) _ True cur, of "length front" True] b(3) by simp
      then show ?thesis using Some b(1,2) by simp
    qed
  next
    case False
    then have hi': "hi' = None" using e by (cases hi) (auto split: if_splits)
    obtain b cs c where bs: "bs = b # cs" "unat c = 11 + length cs" "1 \<le> length cs"
      "c = (if hi \<noteq> None then low_nibble b else high_nibble b)"
      "i = of_nat (le_nat cs) + (if hi \<noteq> None then 0 else low_nibble b) * 256 ^ length cs"
      using enc_multi [OF False ok e] by blast
    have "decode_multi guid (length front) (hi \<noteq> None) c cur = Some (Inr (i, length front + 1 + length cs))"
      using rest_zero [of "front @ bs" ids k tail] g l cur bs hi'
      by (intro decode_multi_found [of guid front b cs ?rest]) auto
    note multi = this
    have p: "length front < 12" and at: "guid ! length front = b" using l bs(1) g(1) by simp_all
    have c: "c = (if hi \<noteq> None then low_nibble (guid ! length front) else high_nibble (guid ! length front))"
      unfolding at by (rule bs(4))
    have "12 \<le> unat c" using bs(2,3) by simp
    from decode_nibble_multi [OF p g(2) c this multi]
    have "decode_nibble guid cur (length front) (hi \<noteq> None) = Found i (length front + 1 + length cs) False" .
    then show ?thesis using bs(1) hi' by simp
  qed
qed

lemma decode_nibble_end:
  assumes "odd_ok hi" and "guid = front @ odd_bytes hi @ replicate k 0 @ tail" and "length (front @ odd_bytes hi) + k = 12"
  shows "decode_nibble guid cur (length front) (hi \<noteq> None) = Stops"
proof (cases "length front < 12")
  case True
  then have "(if hi \<noteq> None then low_nibble (guid ! length front) else high_nibble (guid ! length front)) = 0"
    using assms shifted_low [OF immediate_nibble]
    by (cases hi) (auto simp: nth_append high_nibble_zero)
  moreover have "length front < length guid" using True assms(2,3) by (cases hi) auto
  ultimately show ?thesis using True by (simp add: decode_nibble_def)
qed (simp add: decode_nibble_def)

text \<open>The array of elements after the numbers of a path were stored from an index on.\<close>

fun stored :: "u32 list \<Rightarrow> nat \<Rightarrow> u32 list \<Rightarrow> u32 list" where
  "stored elements n [] = elements"
| "stored elements n (i # ids) = stored (elements[n := i]) (n + 1) ids"

lemma stored_take:
  "n + length ids \<le> length elements \<Longrightarrow>
     take (n + length ids) (stored elements n ids) = take n elements @ ids \<and> length (stored elements n ids) = length elements"
proof (induction ids arbitrary: elements n)
  case (Cons i ids)
  then show ?case using Cons.IH [of "n + 1" "elements[n := i]"] by (simp add: take_Suc_conv_app_nth)
qed simp

lemma decode_path:
  "odd_ok hi \<Longrightarrow> guid = front @ path_bytes hi ids @ replicate k 0 @ tail \<Longrightarrow> length (front @ path_bytes hi ids) + k = 12 \<Longrightarrow>
     unat cur + length ids \<le> 24 \<Longrightarrow>
     decode_loop guid elements cur (length front) (hi \<noteq> None) =
       Elements (stored elements (unat cur) ids) (cur + of_nat (length ids))"
proof (induction ids arbitrary: front hi cur elements)
  case Nil
  then show ?case using decode_nibble_end [of hi guid front k tail cur] by (subst decode_loop.simps) simp
next
  case (Cons i ids)
  obtain bs hi' where e: "enc_id hi i = (bs, hi')" by (cases "enc_id hi i")
  have cur: "cur < MAX_NIBBLE_ELEMENTS" using Cons.prems(4) by (simp add: MAX_NIBBLE_ELEMENTS_def word_less_nat_alt)
  then have u: "unat (cur + 1) = unat cur + 1" using unat_next_element [of cur] by (simp add: MAX_NIBBLE_ELEMENTS_def)
  have "decode_loop guid (elements[unat cur := i]) (cur + 1) (length (front @ bs)) (hi' \<noteq> None) =
      Elements (stored (elements[unat cur := i]) (unat (cur + 1)) ids) (cur + 1 + of_nat (length ids))"
    using Cons.prems e u enc_id_ok [OF Cons.prems(1) e] by (intro Cons.IH) simp_all
  then show ?case
    using decode_nibble_found [OF Cons.prems(1) e Cons.prems(2,3) cur] u
    by (subst decode_loop.simps) (simp add: algebra_simps)
qed

section \<open>Round trip\<close>

lemma zeros_layout: "replicate 12 0 = layout [] None"
  by (simp add: layout_def)

lemma encode_path_layout:
  assumes "encode_path path = Some bytes"
  shows "bytes = path_bytes None path @ replicate (12 - length (path_bytes None path)) 0 \<and>
     length (path_bytes None path) \<le> 12 \<and> length path \<le> 24"
proof -
  obtain q where "add_ids path (layout [] None) (length ([] :: u8 list)) = Some (bytes, q)" "q \<le> 12"
    using assms by (auto simp: encode_path_def zeros_layout split: option.splits if_splits)
  from add_ids_layout [OF _ _ this] show ?thesis
    using path_nibbles [of path None] by (simp add: layout_None)
qed

lemma decode_encoded_path:
  assumes "encode_path path = Some bytes"
  shows "decode_loop (bytes @ tail) (replicate 24 0) 0 0 False =
     Elements (stored (replicate 24 0) 0 path) (of_nat (length path))"
  using decode_path [of None "bytes @ tail" "[]" path "12 - length (path_bytes None path)" tail 0 "replicate 24 0"]
    encode_path_layout [OF assms] by simp

lemma add_ids_append:
  "add_ids (xs @ ys) buf offset =
     (case add_ids xs buf offset of None \<Rightarrow> None | Some (b, p) \<Rightarrow> add_ids ys b p)"
  by (induction xs arbitrary: buf offset) (auto split: option.splits)

lemma encode_loop_add_ids:
  "n \<le> length elements \<Longrightarrow> i \<le> n \<Longrightarrow>
     encode_loop elements i n buf offset = map_option fst (add_ids (drop i (take n elements)) buf offset)"
proof (induction "n - i" arbitrary: i buf offset)
  case 0
  then show ?case by (subst encode_loop.simps) simp
next
  case (Suc k)
  then have "drop i (take n elements) = elements ! i # drop (i + 1) (take n elements)"
    by (simp add: Cons_nth_drop_Suc [symmetric])
  moreover have "encode_loop elements (i + 1) n b p = map_option fst (add_ids (drop (i + 1) (take n elements)) b p)" for b p
    using Suc by (intro Suc.hyps(1)) simp_all
  ultimately show ?case using Suc by (subst encode_loop.simps) (auto split: option.splits)
qed

lemma butlast_fits:
  assumes "encode_path path = Some bytes"
  shows "\<exists>b. encode_path (butlast path) = Some b"
proof (cases path rule: rev_cases)
  case (snoc xs x)
  obtain b p where b: "add_ids xs (replicate 12 0) 0 = Some (b, p)"
    using assms snoc by (auto simp: encode_path_def add_ids_append split: option.splits)
  have "p \<le> 12"
    using assms snoc b add_ids_overflow [of p "[x]" b]
    by (auto simp: encode_path_def add_ids_append simp del: add_ids.simps split: option.splits if_splits) (meson not_le)
  then show ?thesis using b snoc by (simp add: encode_path_def)
qed (use assms in simp)

lemma activity_bytes_new: "activity_bytes newNetworkActivity = replicate 12 0"
  by code_simp

lemma encode_prefix:
  assumes "encode_path (take n path) = Some b" and "length path \<le> 24" and "n \<le> length path"
  shows "encode_loop (stored (replicate 24 0) 0 path) 0 n (replicate 12 0) 0 = Some b"
proof -
  have s: "take (length path) (stored (replicate 24 0) 0 path) = path" "length (stored (replicate 24 0) 0 path) = 24"
    using stored_take [of 0 path "replicate 24 0"] assms(2) by simp_all
  have "take n (stored (replicate 24 0) 0 path) = take n (take (length path) (stored (replicate 24 0) 0 path))"
    using assms(3) by (simp only: take_take min.absorb1)
  then have "take n (stored (replicate 24 0) 0 path) = take n path" by (simp only: s(1))
  then show ?thesis
    using encode_loop_add_ids [of n "stored (replicate 24 0) 0 path" 0] s(2) assms
    by (auto simp: encode_path_def split: option.splits if_splits)
qed

text \<open>
  C19. The encoding of activities is lossless: a path that fits into 12 bytes is decoded to itself whatever
  follows in the GUID, so that different paths have different activities; the activity of a request is
  the encoding of the path itself, and the activity found for an event of a phase of the request is the
  encoding of the path without its last element.
\<close>

theorem activity_roundtrip:
  assumes "encode_path path = Some bytes"
  shows "path_of (bytes @ tail) = Some path \<and>
     GetRootActivity (bytes @ tail) newNetworkActivity True = Some (True, activity_of bytes) \<and>
     (path \<noteq> [] \<longrightarrow> (\<exists>parent. encode_path (butlast path) = Some parent \<and>
        GetRootActivity (bytes @ tail) newNetworkActivity False = Some (True, activity_of parent)))"
proof -
  have len: "length path \<le> 24" using encode_path_layout [OF assms] by simp
  then have u: "unat (of_nat (length path) :: u8) = length path" by (intro unat_of_nat_less) simp
  note dec = decode_encoded_path [OF assms, of tail]
  have path: "path_of (bytes @ tail) = Some path"
    using stored_take [of 0 path "replicate 24 0"] len dec u by (simp add: path_of_def)
  have root: "GetRootActivity (bytes @ tail) newNetworkActivity True = Some (True, activity_of bytes)"
    using encode_prefix [of "length path" path bytes] assms len dec u by (simp add: GetRootActivity_def activity_bytes_new)
  have "\<exists>parent. encode_path (butlast path) = Some parent \<and>
      GetRootActivity (bytes @ tail) newNetworkActivity False = Some (True, activity_of parent)" if "path \<noteq> []"
  proof -
    obtain parent where p: "encode_path (butlast path) = Some parent" using butlast_fits [OF assms] by blast
    have "(of_nat (length path) :: u8) \<noteq> 0" using u that by auto
    then have "unat (of_nat (length path) - 1 :: u8) = length path - 1" using u by (simp add: unat_minus_one)
    then show ?thesis
      using encode_prefix [of "length path - 1" path parent] p len dec by (simp add: GetRootActivity_def activity_bytes_new butlast_conv_take)
  qed
  then show ?thesis using path root by blast
qed

theorem activity_roundtrip_witness:
  "encode_path [1, 1, 300] = Some [0x11, 0xC1, 0x2C, 0, 0, 0, 0, 0, 0, 0, 0, 0] \<and>
   path_of ([0x11, 0xC1, 0x2C, 0, 0, 0, 0, 0, 0, 0, 0, 0] @ [0x59, 0x9d, 0x6a, 0xf2]) = Some [1, 1, 300]"
proof -
  have "encode_path [1, 1, 300] = Some [0x11, 0xC1, 0x2C, 0, 0, 0, 0, 0, 0, 0, 0, 0]" by code_simp
  with activity_roundtrip [OF this, of "[0x59, 0x9d, 0x6a, 0xf2]"] show ?thesis by blast
qed

text \<open>
  Overflow identifiers, which the runtime writes with a prefix code, are not covered by the round trip:
  when the prefix is the second nibble of a byte, the decoder ignores the low nibble of the length
  code, and two of them get the same activity.
\<close>

lemma overflow_ids_collide:
  "AddIdToGuid ([0x10] @ replicate 11 0) 0 0x105 True = Some ([0x1B, 0xC1, 0x05] @ replicate 9 0, 3) \<and>
   AddIdToGuid ([0x10] @ replicate 11 0) 0 0x205 True = Some ([0x1B, 0xC2, 0x05] @ replicate 9 0, 3) \<and>
   path_of ([0x1B, 0xC1, 0x05] @ replicate 9 0) = Some [1, 5] \<and>
   path_of ([0x1B, 0xC2, 0x05] @ replicate 9 0) = Some [1, 5]"
  by code_simp

end
