(* ===== verification/BclEvents.thy ===== *)
theory BclEvents
  imports EventReader Utf
begin

unbundle bit_operations_syntax

text \<open>
  The parser of the network events of the base class library (\<open>BclEventsParser.cpp\<close>): it reads the payload
  of an event and calls the network listener at most once. A call is a value of \<open>network_call\<close>; the
  listener that handles it is modelled in \<open>NetProvider\<close>.
\<close>

type_synonym GUID = "u8 list"

text \<open>The methods of \<open>INetworkListener\<close> with their arguments: a time stamp, the activity, and details.\<close>

datatype network_call =
    CallRequestStart u64 GUID "u8 list"
  | CallRequestStop u64 GUID u32
  | CallRequestFailed u64 GUID "u8 list"
  | CallRedirect u64 GUID "u8 list"
  | CallDnsResolutionStart u64 GUID
  | CallDnsResolutionStop u64 GUID bool
  | CallConnectStart u64 GUID
  | CallConnectStop u64 GUID
  | CallConnectFailed u64 GUID "u8 list"
  | CallHandshakeStart u64 GUID "u8 list"
  | CallHandshakeStop u64 GUID
  | CallHandshakeFailed u64 GUID "u8 list"
  | CallRequestHeaderStart u64 GUID
  | CallResponseHeaderStop u64 GUID u32
  | CallResponseContentStart u64 GUID
  | CallResponseContentStop u64 GUID

datatype DotnetEventsProvider = UnknownProvider | Clr | Http | Sockets | NameResolution | NetSecurity

section \<open>Handlers\<close>

text \<open>\<open>std::to_string(int)\<close>.\<close>

definition to_string_int :: "u32 \<Rightarrow> u8 list" where
  "to_string_int v = (if sint v < 0 then 0x2D # decimal (nat (- sint v)) else decimal (nat (sint v)))"

definition request_url :: "u16 list \<Rightarrow> u16 list \<Rightarrow> u32 \<Rightarrow> u16 list \<Rightarrow> u8 list" where
  "request_url scheme host port path =
     (let url = ToString (Some scheme) @ [0x3A, 0x2F, 0x2F] @ ToString (Some host);
          url' = (if port \<noteq> 0 then url @ [0x3A] @ to_string_int port else url)
      in url' @ ToString (Some path))"

definition ParseRequestStart :: "u64 \<Rightarrow> GUID \<Rightarrow> network_call reader" where
  "ParseRequestStart timestamp pActivityId =
     then_read ReadWideString (\<lambda>scheme.
     then_read ReadWideString (\<lambda>host.
     then_read ReadU32 (\<lambda>port.
     then_read ReadWideString (\<lambda>path.
     give (CallRequestStart timestamp pActivityId (request_url scheme host port path))))))"

definition ParseRequestStop :: "u64 \<Rightarrow> GUID \<Rightarrow> network_call reader" where
  "ParseRequestStop timestamp pActivityId =
     then_read ReadU32 (\<lambda>statusCode. give (CallRequestStop timestamp pActivityId statusCode))"

definition ParseRequestFailed :: "u64 \<Rightarrow> GUID \<Rightarrow> network_call reader" where
  "ParseRequestFailed timestamp pActivityId =
     then_read ReadWideString (\<lambda>message. give (CallRequestFailed timestamp pActivityId (ToString (Some message))))"

definition ParseRequestHeadersStart :: "u64 \<Rightarrow> GUID \<Rightarrow> network_call reader" where
  "ParseRequestHeadersStart timestamp pActivityId = give (CallRequestHeaderStart timestamp pActivityId)"

definition ParseResponseHeadersStop :: "u64 \<Rightarrow> GUID \<Rightarrow> network_call reader" where
  "ParseResponseHeadersStop timestamp pActivityId =
     then_read ReadU32 (\<lambda>statusCode. give (CallResponseHeaderStop timestamp pActivityId statusCode))"

definition ParseResponseContentStart :: "u64 \<Rightarrow> GUID \<Rightarrow> network_call reader" where
  "ParseResponseContentStart timestamp pActivityId = give (CallResponseContentStart timestamp pActivityId)"

definition ParseResponseContentStop :: "u64 \<Rightarrow> GUID \<Rightarrow> network_call reader" where
  "ParseResponseContentStop timestamp pActivityId = give (CallResponseContentStop timestamp pActivityId)"

definition ParseRedirect :: "u64 \<Rightarrow> GUID \<Rightarrow> network_call reader" where
  "ParseRedirect timestamp pActivityId =
     then_read ReadWideString (\<lambda>redirectUrl. give (CallRedirect timestamp pActivityId (ToString (Some redirectUrl))))"

definition ParseHttpEvent :: "u64 \<Rightarrow> u32 \<Rightarrow> GUID \<Rightarrow> network_call reader" where
  "ParseHttpEvent timestamp i pActivityId =
     (if i = 1 then ParseRequestStart timestamp pActivityId
      else if i = 2 then ParseRequestStop timestamp pActivityId
      else if i = 3 then ParseRequestFailed timestamp pActivityId
      else if i = 7 then ParseRequestHeadersStart timestamp pActivityId
      else if i = 12 then ParseResponseHeadersStop timestamp pActivityId
      else if i = 13 then ParseResponseContentStart timestamp pActivityId
      else if i = 14 then ParseResponseContentStop timestamp pActivityId
      else if i = 16 then ParseRedirect timestamp pActivityId
      else refuse)"

definition ParseConnectStart :: "u64 \<Rightarrow> GUID \<Rightarrow> network_call reader" where
  "ParseConnectStart timestamp pActivityId = give (CallConnectStart timestamp pActivityId)"

definition ParseConnectStop :: "u64 \<Rightarrow> GUID \<Rightarrow> network_call reader" where
  "ParseConnectStop timestamp pActivityId = give (CallConnectStop timestamp pActivityId)"

definition ParseConnectFailed :: "u64 \<Rightarrow> GUID \<Rightarrow> network_call reader" where
  "ParseConnectFailed timestamp pActivityId =
     then_read ReadWideString (\<lambda>message. give (CallConnectFailed timestamp pActivityId (ToString (Some message))))"

definition ParseSocketsEvent :: "u64 \<Rightarrow> u32 \<Rightarrow> GUID \<Rightarrow> network_call reader" where
  "ParseSocketsEvent timestamp i pActivityId =
     (if i = 1 then ParseConnectStart timestamp pActivityId
      else if i = 2 then ParseConnectStop timestamp pActivityId
      else if i = 3 then ParseConnectFailed timestamp pActivityId
      else refuse)"

definition ParseDnsResolutionStart :: "u64 \<Rightarrow> GUID \<Rightarrow> network_call reader" where
  "ParseDnsResolutionStart timestamp pActivityId = give (CallDnsResolutionStart timestamp pActivityId)"

definition ParseDnsResolutionStop :: "u64 \<Rightarrow> GUID \<Rightarrow> bool \<Rightarrow> network_call reader" where
  "ParseDnsResolutionStop timestamp pActivityId success = give (CallDnsResolutionStop timestamp pActivityId success)"

definition ParseNameResolutionEvent :: "u64 \<Rightarrow> u32 \<Rightarrow> GUID \<Rightarrow> network_call reader" where
  "ParseNameResolutionEvent timestamp i pActivityId =
     (if i = 1 then ParseDnsResolutionStart timestamp pActivityId
      else if i = 2 then ParseDnsResolutionStop timestamp pActivityId True
      else if i = 3 then ParseDnsResolutionStop timestamp pActivityId False
      else refuse)"

definition ParseHandshakeStart :: "u64 \<Rightarrow> GUID \<Rightarrow> network_call reader" where
  "ParseHandshakeStart timestamp pActivityId =
     then_read ReadU32 (\<lambda>isServer.
     then_read ReadWideString (\<lambda>targetHost.
     give (CallHandshakeStart timestamp pActivityId (ToString (Some targetHost)))))"

definition ParseHandshakeStop :: "u64 \<Rightarrow> GUID \<Rightarrow> network_call reader" where
  "ParseHandshakeStop timestamp pActivityId = give (CallHandshakeStop timestamp pActivityId)"

definition ParseHandshakeFailed :: "u64 \<Rightarrow> GUID \<Rightarrow> network_call reader" where
  "ParseHandshakeFailed timestamp pActivityId =
     then_read ReadU32 (\<lambda>isServer.
     then_read (Read 8) (\<lambda>elapsedMilliseconds.
     then_read ReadWideString (\<lambda>message.
     give (CallHandshakeFailed timestamp pActivityId (ToString (Some message))))))"

definition ParseNetSecurityEvent :: "u64 \<Rightarrow> u32 \<Rightarrow> GUID \<Rightarrow> network_call reader" where
  "ParseNetSecurityEvent timestamp i pActivityId =
     (if i = 1 then ParseHandshakeStart timestamp pActivityId
      else if i = 2 then ParseHandshakeStop timestamp pActivityId
      else if i = 3 then ParseHandshakeFailed timestamp pActivityId
      else refuse)"

definition bcl_reader :: "DotnetEventsProvider \<Rightarrow> u64 \<Rightarrow> u32 \<Rightarrow> GUID \<Rightarrow> network_call reader" where
  "bcl_reader provider timestamp i pActivityId =
     (case provider of
        Http \<Rightarrow> ParseHttpEvent timestamp i pActivityId
      | Sockets \<Rightarrow> ParseSocketsEvent timestamp i pActivityId
      | NameResolution \<Rightarrow> ParseNameResolutionEvent timestamp i pActivityId
      | NetSecurity \<Rightarrow> ParseNetSecurityEvent timestamp i pActivityId
      | _ \<Rightarrow> refuse)"

text \<open>\<open>Rejected\<close> means that the listener is not called. Every handler starts at offset 0.\<close>

definition ParseBclEvent ::
  "bool \<Rightarrow> DotnetEventsProvider \<Rightarrow> u64 \<Rightarrow> u32 \<Rightarrow> u8 list \<Rightarrow> u32 \<Rightarrow> GUID \<Rightarrow> network_call read" where
  "ParseBclEvent hasListener provider timestamp i pEventData cbEventData pActivityId =
     (if \<not> hasListener then Rejected
      else case bcl_reader provider timestamp i pActivityId pEventData cbEventData 0 of
        OutOfBounds \<Rightarrow> OutOfBounds
      | Rejected \<Rightarrow> Rejected
      | Got (c, _) \<Rightarrow> Got c)"

section \<open>The documented payloads\<close>

text \<open>The events the parser handles, with the fields the comments of the source list for their payloads.\<close>

datatype network_event =
    RequestStartEvent "u16 list" "u16 list" u32 "u16 list"
  | RequestStopEvent u32
  | RequestFailedEvent "u16 list"
  | RequestHeadersStartEvent
  | ResponseHeadersStopEvent u32
  | ResponseContentStartEvent
  | ResponseContentStopEvent
  | RedirectEvent "u16 list"
  | ConnectStartEvent
  | ConnectStopEvent
  | ConnectFailedEvent "u16 list"
  | DnsResolutionStartEvent
  | DnsResolutionStopEvent
  | DnsResolutionFailedEvent
  | HandshakeStartEvent u32 "u16 list"
  | HandshakeStopEvent
  | HandshakeFailedEvent u32 u64 "u16 list"

fun event_source :: "network_event \<Rightarrow> DotnetEventsProvider \<times> u32" where
  "event_source (RequestStartEvent _ _ _ _) = (Http, 1)"
| "event_source (RequestStopEvent _) = (Http, 2)"
| "event_source (RequestFailedEvent _) = (Http, 3)"
| "event_source RequestHeadersStartEvent = (Http, 7)"
| "event_source (ResponseHeadersStopEvent _) = (Http, 12)"
| "event_source ResponseContentStartEvent = (Http, 13)"
| "event_source ResponseContentStopEvent = (Http, 14)"
| "event_source (RedirectEvent _) = (Http, 16)"
| "event_source ConnectStartEvent = (Sockets, 1)"
| "event_source ConnectStopEvent = (Sockets, 2)"
| "event_source (ConnectFailedEvent _) = (Sockets, 3)"
| "event_source DnsResolutionStartEvent = (NameResolution, 1)"
| "event_source DnsResolutionStopEvent = (NameResolution, 2)"
| "event_source DnsResolutionFailedEvent = (NameResolution, 3)"
| "event_source (HandshakeStartEvent _ _) = (NetSecurity, 1)"
| "event_source HandshakeStopEvent = (NetSecurity, 2)"
| "event_source (HandshakeFailedEvent _ _ _) = (NetSecurity, 3)"

fun event_payload :: "network_event \<Rightarrow> u8 list" where
  "event_payload (RequestStartEvent scheme host port path) =
     wide_bytes scheme @ wide_bytes host @ le_bytes 4 (unat port) @ wide_bytes path"
| "event_payload (RequestStopEvent status) = le_bytes 4 (unat status)"
| "event_payload (RequestFailedEvent message) = wide_bytes message"
| "event_payload (ResponseHeadersStopEvent status) = le_bytes 4 (unat status)"
| "event_payload (RedirectEvent url) = wide_bytes url"
| "event_payload (ConnectFailedEvent message) = wide_bytes message"
| "event_payload (HandshakeStartEvent isServer host) = le_bytes 4 (unat isServer) @ wide_bytes host"
| "event_payload (HandshakeFailedEvent isServer elapsed message) =
     le_bytes 4 (unat isServer) @ le_bytes 8 (unat elapsed) @ wide_bytes message"
| "event_payload _ = []"

fun event_strings :: "network_event \<Rightarrow> u16 list list" where
  "event_strings (RequestStartEvent scheme host port path) = [scheme, host, path]"
| "event_strings (RequestFailedEvent message) = [message]"
| "event_strings (RedirectEvent url) = [url]"
| "event_strings (ConnectFailedEvent message) = [message]"
| "event_strings (HandshakeStartEvent isServer host) = [host]"
| "event_strings (HandshakeFailedEvent isServer elapsed message) = [message]"
| "event_strings _ = []"

fun event_call :: "u64 \<Rightarrow> GUID \<Rightarrow> network_event \<Rightarrow> network_call" where
  "event_call t g (RequestStartEvent scheme host port path) = CallRequestStart t g (request_url scheme host port path)"
| "event_call t g (RequestStopEvent status) = CallRequestStop t g status"
| "event_call t g (RequestFailedEvent message) = CallRequestFailed t g (ToString (Some message))"
| "event_call t g RequestHeadersStartEvent = CallRequestHeaderStart t g"
| "event_call t g (ResponseHeadersStopEvent status) = CallResponseHeaderStop t g status"
| "event_call t g ResponseContentStartEvent = CallResponseContentStart t g"
| "event_call t g ResponseContentStopEvent = CallResponseContentStop t g"
| "event_call t g (RedirectEvent url) = CallRedirect t g (ToString (Some url))"
| "event_call t g ConnectStartEvent = CallConnectStart t g"
| "event_call t g ConnectStopEvent = CallConnectStop t g"
| "event_call t g (ConnectFailedEvent message) = CallConnectFailed t g (ToString (Some message))"
| "event_call t g DnsResolutionStartEvent = CallDnsResolutionStart t g"
| "event_call t g DnsResolutionStopEvent = CallDnsResolutionStop t g True"
| "event_call t g DnsResolutionFailedEvent = CallDnsResolutionStop t g False"
| "event_call t g (HandshakeStartEvent isServer host) = CallHandshakeStart t g (ToString (Some host))"
| "event_call t g HandshakeStopEvent = CallHandshakeStop t g"
| "event_call t g (HandshakeFailedEvent isServer elapsed message) = CallHandshakeFailed t g (ToString (Some message))"

section \<open>Every payload is read within its bounds\<close>

lemmas bcl_handlers = ParseRequestStart_def ParseRequestStop_def ParseRequestFailed_def ParseRequestHeadersStart_def
  ParseResponseHeadersStop_def ParseResponseContentStart_def ParseResponseContentStop_def ParseRedirect_def
  ParseConnectStart_def ParseConnectStop_def ParseConnectFailed_def ParseDnsResolutionStart_def ParseDnsResolutionStop_def
  ParseHandshakeStart_def ParseHandshakeStop_def ParseHandshakeFailed_def

lemmas bcl_tables = bcl_reader_def ParseHttpEvent_def ParseSocketsEvent_def ParseNameResolutionEvent_def
  ParseNetSecurityEvent_def

lemma safe_bcl_handlers:
  "safe_reader (ParseRequestStart t g)" "safe_reader (ParseRequestStop t g)" "safe_reader (ParseRequestFailed t g)"
  "safe_reader (ParseRequestHeadersStart t g)" "safe_reader (ParseResponseHeadersStop t g)"
  "safe_reader (ParseResponseContentStart t g)" "safe_reader (ParseResponseContentStop t g)" "safe_reader (ParseRedirect t g)"
  "safe_reader (ParseConnectStart t g)" "safe_reader (ParseConnectStop t g)" "safe_reader (ParseConnectFailed t g)"
  "safe_reader (ParseDnsResolutionStart t g)" "safe_reader (ParseDnsResolutionStop t g b)"
  "safe_reader (ParseHandshakeStart t g)" "safe_reader (ParseHandshakeStop t g)" "safe_reader (ParseHandshakeFailed t g)"
  unfolding bcl_handlers by (intro safe_readers)+

lemma safe_bcl_reader: "safe_reader (bcl_reader provider t i g)"
  unfolding bcl_tables by (cases provider) (simp_all add: safe_bcl_handlers safe_refuse)

text \<open>
  Parsing a network event never reads outside of the payload: for every provider, event identifier
  and content of a buffer of at least the announced size, the event is either rejected or handed to the
  listener.
\<close>

lemma ParseBclEvent_in_bounds:
  assumes "unat cbEventData \<le> length pEventData"
  shows "ParseBclEvent hasListener provider timestamp i pEventData cbEventData pActivityId \<noteq> OutOfBounds"
  using safe_readerD [OF safe_bcl_reader assms, where offset = 0]
  by (auto simp: ParseBclEvent_def split: read.splits)

section \<open>Documented payloads are understood\<close>

lemma reads_last: "reads m bs a \<Longrightarrow> reads (then_read m (\<lambda>x. give (f x))) bs (f a)"
  using reads_then [of m bs a "\<lambda>x. give (f x)" "[]" "f a"] reads_give [of "f a"] by simp

lemma reads_event:
  assumes "\<forall>s\<in>set (event_strings e). 0 \<notin> set s" and "event_source e = (provider, i)"
  shows "reads (bcl_reader provider t i g) (event_payload e) (event_call t g e)"
proof (cases e)
  case (RequestStartEvent scheme host port path)
  then show ?thesis using assms
    by (auto simp: bcl_tables ParseRequestStart_def intro!: reads_then reads_last field_readers)
next
  case (HandshakeFailedEvent isServer elapsed message)
  then show ?thesis using assms
    by (auto simp: bcl_tables ParseHandshakeFailed_def intro!: reads_then reads_last field_readers)
qed (use assms in \<open>auto simp: bcl_tables bcl_handlers intro!: reads_then reads_last field_readers\<close>)

lemma ParseBclEvent_event:
  assumes "\<forall>s\<in>set (event_strings e). 0 \<notin> set s" and "event_source e = (provider, i)"
    and "length (event_payload e @ more) < 2 ^ 32"
  shows "ParseBclEvent True provider timestamp i (event_payload e @ more) (of_nat (length (event_payload e @ more)))
      pActivityId = Got (event_call timestamp pActivityId e)"
  using readsD [OF reads_event [OF assms(1,2)] assms(3)] by (simp add: ParseBclEvent_def)

text \<open>
  C14. Every network event whose payload has the fields that the source documents, followed by any further
  fields, reaches the listener as the one call with these fields: strings are converted to UTF-8 and the
  URL of a request is put together from scheme, host, port and path.
\<close>

theorem ParseBclEvent_understands:
  assumes "\<forall>s\<in>set (event_strings e). 0 \<notin> set s" and "event_source e = (provider, i)"
    and "length (event_payload e @ more) < 2 ^ 32"
  shows "ParseBclEvent True provider timestamp i (event_payload e @ more) (of_nat (length (event_payload e @ more)))
      pActivityId = Got (event_call timestamp pActivityId e)"
  using assms by (rule ParseBclEvent_event)

theorem ParseBclEvent_understands_witness:
  "ParseBclEvent True Http 5 1
     (event_payload (RequestStartEvent [0x68] [0x61, 0x2E, 0x62] 8080 [0x2F, 0xE9]) @ [9]) 23 [] =
   Got (CallRequestStart 5 [] [0x68, 0x3A, 0x2F, 0x2F, 0x61, 0x2E, 0x62, 0x3A, 0x38, 0x30, 0x38, 0x30, 0x2F, 0xC3, 0xA9])"
proof -
  let ?e = "RequestStartEvent [0x68] [0x61, 0x2E, 0x62] 8080 [0x2F, 0xE9]"
  have str: "ToString (Some [0x68]) = [0x68]" "ToString (Some [0x61, 0x2E, 0x62]) = [0x61, 0x2E, 0x62]"
    "ToString (Some [0x2F, 0xE9]) = [0x2F, 0xC3, 0xA9]"
    by code_simp+
  have p: "to_string_int 8080 = [0x38, 0x30, 0x38, 0x30]" by (simp add: to_string_int_def decimal.simps)
  have l: "length (event_payload ?e @ [9]) = 23" by (simp add: length_wide_bytes)
  have "event_call 5 [] ?e =
      CallRequestStart 5 [] [0x68, 0x3A, 0x2F, 0x2F, 0x61, 0x2E, 0x62, 0x3A, 0x38, 0x30, 0x38, 0x30, 0x2F, 0xC3, 0xA9]"
    by (simp add: request_url_def Let_def str p)
  moreover have "length (event_payload ?e @ [9]) < 2 ^ 32" unfolding l by simp
  moreover have "\<forall>s\<in>set (event_strings ?e). 0 \<notin> set s" by simp
  moreover have "event_source ?e = (Http, 1)" by simp
  ultimately have "ParseBclEvent True Http 5 1 (event_payload ?e @ [9]) (of_nat 23) [] =
      Got (CallRequestStart 5 [] [0x68, 0x3A, 0x2F, 0x2F, 0x61, 0x2E, 0x62, 0x3A, 0x38, 0x30, 0x38, 0x30, 0x2F, 0xC3, 0xA9])"
    using ParseBclEvent_understands [of ?e Http 1 "[9]" 5 "[]"] unfolding l by (simp only:)
  then show ?thesis by (simp only: of_nat_numeral)
qed

end
