(* ===== verification/NetProvider.thy ===== *)
theory NetProvider
  imports NetActivity BclEvents
begin

unbundle bit_operations_syntax

text \<open>
  The listener of the network events (\<open>NetworkProvider.cpp\<close>, \<open>NetworkRequestInfo.cpp\<close>, \<open>RawNetworkSample.h\<close>):
  it follows every outgoing HTTP request by its activity through its phases and turns it into one sample when
  it stops. Time stamps and durations are 64-bit words (\<open>std::chrono::nanoseconds\<close>). What the handlers find
  out about the thread they run on is an argument, and so is the value of a member that nothing initialises.
\<close>

section \<open>Requests\<close>

record NetworkRequestCommon =
  rc_Url :: "u8 list"
  rc_StartTimestamp :: u64
  rc_DnsWait :: u64
  rc_DnsStartTime :: u64
  rc_DnsDuration :: u64
  rc_HandshakeWait :: u64
  rc_HandshakeStartTime :: u64
  rc_HandshakeDuration :: u64
  rc_SocketConnectStartTime :: u64
  rc_SocketDuration :: u64
  rc_RequestHeadersStartTimestamp :: u64
  rc_RequestDuration :: u64
  rc_ResponseContentStartTimestamp :: u64
  rc_ResponseDuration :: u64

type_synonym TraceContext = "u64 \<times> u64 \<times> u64"

text \<open>The base class is a field. The call stack is a list of addresses, a thread is its address.\<close>

record NetworkRequestInfo =
  ri_Common :: NetworkRequestCommon
  ri_TraceContext :: TraceContext
  ri_AppDomainId :: u64
  ri_StartCallStack :: "u64 list"
  ri_StartThreadInfo :: "u64 option"
  ri_DnsResolutionSuccess :: bool
  ri_HandshakeError :: "u8 list"
  ri_Error :: "u8 list"
  ri_Redirect :: "NetworkRequestCommon option"

definition newNetworkRequestCommon :: "u8 list \<Rightarrow> u64 \<Rightarrow> NetworkRequestCommon" where
  "newNetworkRequestCommon url timestamp =
     \<lparr>rc_Url = url, rc_StartTimestamp = timestamp, rc_DnsWait = 0, rc_DnsStartTime = 0, rc_DnsDuration = 0,
      rc_HandshakeWait = 0, rc_HandshakeStartTime = 0, rc_HandshakeDuration = 0, rc_SocketConnectStartTime = 0,
      rc_SocketDuration = 0, rc_RequestHeadersStartTimestamp = 0, rc_RequestDuration = 0,
      rc_ResponseContentStartTimestamp = 0, rc_ResponseDuration = 0\<rparr>"

definition newNetworkRequestInfo :: "u8 list \<Rightarrow> u64 \<Rightarrow> NetworkRequestInfo" where
  "newNetworkRequestInfo url timestamp =
     \<lparr>ri_Common = newNetworkRequestCommon url timestamp, ri_TraceContext = (0, 0, 0), ri_AppDomainId = 0,
      ri_StartCallStack = [], ri_StartThreadInfo = None, ri_DnsResolutionSuccess = False, ri_HandshakeError = [],
      ri_Error = [], ri_Redirect = None\<rparr>"

record RawNetworkSample =
  ns_Timestamp :: u64
  ns_AppDomainId :: u64
  ns_TraceContext :: TraceContext
  ns_ThreadInfo :: "u64 option"
  ns_Stack :: "u64 list"
  ns_Url :: "u8 list"
  ns_StartTimestamp :: u64
  ns_StatusCode :: u32
  ns_Error :: "u8 list"
  ns_EndThreadId :: "u8 list"
  ns_EndThreadName :: "u8 list"
  ns_RedirectUrl :: "u8 list"
  ns_HasBeenRedirected :: bool
  ns_DnsWait :: u64
  ns_DnsDuration :: u64
  ns_DnsSuccess :: bool
  ns_SocketConnectDuration :: u64
  ns_HandshakeWait :: u64
  ns_HandshakeDuration :: u64
  ns_HandshakeError :: "u8 list"
  ns_RequestDuration :: u64
  ns_ResponseDuration :: u64

section \<open>The provider\<close>

text \<open>
  What a handler sees of the thread it runs on: its address, its trace context, the result of the stack walk
  and the names for the profile.
\<close>

record current_thread =
  ct_self :: u64
  ct_HasTraceContext :: bool
  ct_AppDomainId :: u64
  ct_walked_frames :: "u64 list"
  ct_walked_context :: TraceContext
  ct_ProfileThreadId :: "u8 list"
  ct_ProfileThreadName :: "u8 list"

text \<open>
  The thread of a handler, \<open>None\<close> when the profiler does not know it, and the indeterminate value of
  \<open>HasBeenRedirected\<close> in a new sample.
\<close>

record net_env =
  ne_CurrentThreadInfo :: "current_thread option"
  ne_uninitialised :: bool

text \<open>
  The samples that were added, the counters, and the arguments of the calls of \<open>Add\<close> of the duration metrics.
  \<open>np_failureCount\<close> is the static variable of \<open>CaptureThreadInfo\<close>.
\<close>

record NetworkProvider =
  np_ForceHttpSampling :: bool
  np_requestDurationThreshold :: u64
  np_requests :: "NetworkActivity \<Rightarrow> NetworkRequestInfo option"
  np_failureCount :: u64
  np_samples :: "RawNetworkSample list"
  np_requestsCountMetric :: nat
  np_failedRequestsCountMetric :: nat
  np_redirectionRequestsCountMetric :: nat
  np_totalDurationMetric :: "u64 list"
  np_waitDurationMetric :: "u64 list"
  np_dnsDurationMetric :: "u64 list"
  np_handshakeDurationMetric :: "u64 list"
  np_requestResponseDurationMetric :: "u64 list"

text \<open>\<open>milliseconds\<close> is the configured threshold.\<close>

definition newNetworkProvider :: "bool \<Rightarrow> u64 \<Rightarrow> NetworkProvider" where
  "newNetworkProvider force milliseconds =
     \<lparr>np_ForceHttpSampling = force, np_requestDurationThreshold = milliseconds * 1000000, np_requests = (\<lambda>_. None),
      np_failureCount = 0, np_samples = [], np_requestsCountMetric = 0, np_failedRequestsCountMetric = 0,
      np_redirectionRequestsCountMetric = 0, np_totalDurationMetric = [], np_waitDurationMetric = [],
      np_dnsDurationMetric = [], np_handshakeDurationMetric = [], np_requestResponseDurationMetric = []\<rparr>"

text \<open>An access outside of a buffer while the activity is decoded, or the use of a null thread.\<close>

datatype net_fault = BadActivityAccess | NullThread

definition TryGetActivity :: "GUID \<Rightarrow> bool \<Rightarrow> net_fault + NetworkActivity option" where
  "TryGetActivity pActivityId isRoot =
     (case GetRootActivity pActivityId newNetworkActivity isRoot of
        None \<Rightarrow> Inl BadActivityAccess
      | Some (ok, activity) \<Rightarrow> Inr (if ok then Some activity else None))"

text \<open>
  \<open>MonitorRequest\<close> gives a pointer to the entry of the request; the rest of the handler changes the entry
  through it.
\<close>

definition MonitorRequest ::
  "GUID \<Rightarrow> bool \<Rightarrow> (NetworkRequestInfo \<Rightarrow> NetworkRequestInfo) \<Rightarrow> NetworkProvider \<Rightarrow> net_fault + NetworkProvider" where
  "MonitorRequest pActivityId isRoot f s =
     (case TryGetActivity pActivityId isRoot of
        Inl e \<Rightarrow> Inl e
      | Inr None \<Rightarrow> Inr s
      | Inr (Some activity) \<Rightarrow>
          (case np_requests s activity of
             None \<Rightarrow> Inr s
           | Some info \<Rightarrow> Inr (s\<lparr>np_requests := (np_requests s)(activity \<mapsto> f info)\<rparr>)))"

text \<open>\<open>None\<close>: the request is not followed. The second component is the number of failed stack walks.\<close>

definition CaptureThreadInfo ::
  "bool \<Rightarrow> current_thread option \<Rightarrow> u64 \<Rightarrow> NetworkRequestInfo \<Rightarrow> NetworkRequestInfo option \<times> u64" where
  "CaptureThreadInfo force thread failureCount info =
     (case thread of
        None \<Rightarrow> (None, failureCount)
      | Some threadInfo \<Rightarrow>
          if \<not> force \<and> \<not> ct_HasTraceContext threadInfo then (None, failureCount)
          else if ct_walked_frames threadInfo = [] \<and> failureCount mod 100 = 0 then (None, failureCount + 1)
          else (Some (info\<lparr>ri_AppDomainId := ct_AppDomainId threadInfo, ri_TraceContext := ct_walked_context threadInfo,
                           ri_StartCallStack := ct_walked_frames threadInfo, ri_StartThreadInfo := Some (ct_self threadInfo)\<rparr>),
                failureCount))"

definition OnRequestStart :: "net_env \<Rightarrow> u64 \<Rightarrow> GUID \<Rightarrow> u8 list \<Rightarrow> NetworkProvider \<Rightarrow> net_fault + NetworkProvider" where
  "OnRequestStart env timestamp pActivityId url s =
     (case TryGetActivity pActivityId True of
        Inl e \<Rightarrow> Inl e
      | Inr None \<Rightarrow> Inr s
      | Inr (Some activity) \<Rightarrow>
          let s1 = (if np_requests s activity \<noteq> None then s\<lparr>np_requests := (np_requests s)(activity := None)\<rparr> else s);
              (captured, failureCount) =
                CaptureThreadInfo (np_ForceHttpSampling s) (ne_CurrentThreadInfo env) (np_failureCount s)
                  (newNetworkRequestInfo url timestamp)
          in Inr (s1\<lparr>np_requests := (np_requests s1)(activity := captured), np_failureCount := failureCount\<rparr>))"

section \<open>Samples\<close>

text \<open>\<open>FillRawSample\<close> without the metrics; the sample of the caller has empty strings and an indeterminate flag.\<close>

definition FillRawSample :: "net_env \<Rightarrow> current_thread \<Rightarrow> NetworkRequestInfo \<Rightarrow> u64 \<Rightarrow> RawNetworkSample" where
  "FillRawSample env currentThreadInfo info timestamp =
     (let c = ri_Common info;
          plus = (\<lambda>field. field c + (case ri_Redirect info of None \<Rightarrow> 0 | Some r \<Rightarrow> field r))
      in \<lparr>ns_Timestamp = timestamp, ns_AppDomainId = ri_AppDomainId info, ns_TraceContext = ri_TraceContext info,
          ns_ThreadInfo = ri_StartThreadInfo info, ns_Stack = ri_StartCallStack info, ns_Url = rc_Url c,
          ns_StartTimestamp = rc_StartTimestamp c, ns_StatusCode = 0, ns_Error = [],
          ns_EndThreadId = ct_ProfileThreadId currentThreadInfo, ns_EndThreadName = ct_ProfileThreadName currentThreadInfo,
          ns_RedirectUrl = [], ns_HasBeenRedirected = ne_uninitialised env, ns_DnsWait = plus rc_DnsWait,
          ns_DnsDuration = plus rc_DnsDuration, ns_DnsSuccess = ri_DnsResolutionSuccess info,
          ns_SocketConnectDuration = plus rc_SocketDuration, ns_HandshakeWait = plus rc_HandshakeWait,
          ns_HandshakeDuration = plus rc_HandshakeDuration, ns_HandshakeError = [], ns_RequestDuration = plus rc_RequestDuration,
          ns_ResponseDuration = plus rc_ResponseDuration\<rparr>)"

definition add_duration_metrics :: "RawNetworkSample \<Rightarrow> NetworkProvider \<Rightarrow> NetworkProvider" where
  "add_duration_metrics sample s =
     s\<lparr>np_totalDurationMetric := np_totalDurationMetric s @ [ns_Timestamp sample - ns_StartTimestamp sample],
       np_waitDurationMetric := np_waitDurationMetric s @ [ns_DnsWait sample + ns_HandshakeWait sample],
       np_dnsDurationMetric := np_dnsDurationMetric s @ [ns_DnsDuration sample],
       np_handshakeDurationMetric := np_handshakeDurationMetric s @ [ns_HandshakeDuration sample],
       np_requestResponseDurationMetric := np_requestResponseDurationMetric s @ [ns_RequestDuration sample + ns_ResponseDuration sample]\<rparr>"

text \<open>The sample of a request that stops, after all assignments of \<open>OnRequestStop\<close>.\<close>

definition stop_sample :: "net_env \<Rightarrow> current_thread \<Rightarrow> NetworkRequestInfo \<Rightarrow> u64 \<Rightarrow> u32 \<Rightarrow> RawNetworkSample" where
  "stop_sample env thread info timestamp statusCode =
     (let sample = (FillRawSample env thread info timestamp)\<lparr>ns_StatusCode := statusCode, ns_Error := ri_Error info,
            ns_HandshakeError := ri_HandshakeError info\<rparr>
      in case ri_Redirect info of
           None \<Rightarrow> sample
         | Some r \<Rightarrow> sample\<lparr>ns_RedirectUrl := rc_Url r, ns_HasBeenRedirected := True\<rparr>)"

text \<open>The duration is compared as a signed number.\<close>

definition too_short :: "bool \<Rightarrow> u64 \<Rightarrow> NetworkRequestInfo \<Rightarrow> u64 \<Rightarrow> bool" where
  "too_short force threshold info timestamp \<longleftrightarrow>
     \<not> force \<and> sint (timestamp - rc_StartTimestamp (ri_Common info)) < sint threshold"

definition OnRequestStop :: "net_env \<Rightarrow> u64 \<Rightarrow> GUID \<Rightarrow> u32 \<Rightarrow> NetworkProvider \<Rightarrow> net_fault + NetworkProvider" where
  "OnRequestStop env timestamp pActivityId statusCode s =
     (case TryGetActivity pActivityId True of
        Inl e \<Rightarrow> Inl e
      | Inr None \<Rightarrow> Inr s
      | Inr (Some activity) \<Rightarrow>
          (case np_requests s activity of
             None \<Rightarrow> Inr s
           | Some info \<Rightarrow>
               if too_short (np_ForceHttpSampling s) (np_requestDurationThreshold s) info timestamp
               then Inr (s\<lparr>np_requests := (np_requests s)(activity := None)\<rparr>)
               else
                 (case ne_CurrentThreadInfo env of
                    None \<Rightarrow> Inl NullThread
                  | Some thread \<Rightarrow>
                      let s1 = add_duration_metrics (FillRawSample env thread info timestamp) s;
                          s2 = s1\<lparr>np_requestsCountMetric := np_requestsCountMetric s1 + 1,
                                  np_failedRequestsCountMetric := np_failedRequestsCountMetric s1 +
                                    (if statusCode < 200 \<or> statusCode > 299 then 1 else 0),
                                  np_redirectionRequestsCountMetric := np_redirectionRequestsCountMetric s1 +
                                    (if ri_Redirect info \<noteq> None then 1 else 0)\<rparr>
                      in Inr (s2\<lparr>np_samples := np_samples s2 @ [stop_sample env thread info timestamp statusCode],
                                 np_requests := (np_requests s2)(activity := None)\<rparr>))))"

section \<open>Phases\<close>

text \<open>The part of a request that a phase belongs to: the redirected part once there is one.\<close>

definition on_part :: "(NetworkRequestCommon \<Rightarrow> NetworkRequestCommon) \<Rightarrow> NetworkRequestInfo \<Rightarrow> NetworkRequestInfo" where
  "on_part f info =
     (case ri_Redirect info of
        None \<Rightarrow> info\<lparr>ri_Common := f (ri_Common info)\<rparr>
      | Some r \<Rightarrow> info\<lparr>ri_Redirect := Some (f r)\<rparr>)"

definition OnRequestFailed :: "GUID \<Rightarrow> u8 list \<Rightarrow> NetworkProvider \<Rightarrow> net_fault + NetworkProvider" where
  "OnRequestFailed pActivityId message = MonitorRequest pActivityId True (\<lambda>info. info\<lparr>ri_Error := message\<rparr>)"

definition redirect_to :: "u8 list \<Rightarrow> NetworkRequestInfo \<Rightarrow> NetworkRequestInfo" where
  "redirect_to redirectUrl info =
     (case ri_Redirect info of
        None \<Rightarrow> info
      | Some r \<Rightarrow>
          if rc_Url r = [] then info\<lparr>ri_Redirect := Some (r\<lparr>rc_Url := redirectUrl\<rparr>)\<rparr>
          else info\<lparr>ri_Redirect := Some (r\<lparr>rc_Url := rc_Url r @ [0x20, 0x7C, 0x20] @ redirectUrl\<rparr>)\<rparr>)"

definition OnRedirect :: "GUID \<Rightarrow> u8 list \<Rightarrow> NetworkProvider \<Rightarrow> net_fault + NetworkProvider" where
  "OnRedirect pActivityId redirectUrl = MonitorRequest pActivityId True (redirect_to redirectUrl)"

definition OnDnsResolutionStart :: "u64 \<Rightarrow> GUID \<Rightarrow> NetworkProvider \<Rightarrow> net_fault + NetworkProvider" where
  "OnDnsResolutionStart timestamp pActivityId =
     MonitorRequest pActivityId False (on_part (\<lambda>c. c\<lparr>rc_DnsStartTime := timestamp\<rparr>))"

definition OnDnsResolutionStop :: "u64 \<Rightarrow> GUID \<Rightarrow> bool \<Rightarrow> NetworkProvider \<Rightarrow> net_fault + NetworkProvider" where
  "OnDnsResolutionStop timestamp pActivityId success =
     MonitorRequest pActivityId False (\<lambda>info.
       (on_part (\<lambda>c. c\<lparr>rc_DnsDuration := timestamp - rc_DnsStartTime c,
                        rc_DnsWait := rc_DnsStartTime c - rc_StartTimestamp c\<rparr>) info)\<lparr>ri_DnsResolutionSuccess := success\<rparr>)"

definition OnConnectStart :: "u64 \<Rightarrow> GUID \<Rightarrow> NetworkProvider \<Rightarrow> net_fault + NetworkProvider" where
  "OnConnectStart timestamp pActivityId =
     MonitorRequest pActivityId False (on_part (\<lambda>c. c\<lparr>rc_SocketConnectStartTime := timestamp\<rparr>))"

definition OnConnectStop :: "u64 \<Rightarrow> GUID \<Rightarrow> NetworkProvider \<Rightarrow> net_fault + NetworkProvider" where
  "OnConnectStop timestamp pActivityId =
     MonitorRequest pActivityId False (on_part (\<lambda>c. c\<lparr>rc_SocketDuration := timestamp - rc_SocketConnectStartTime c\<rparr>))"

definition OnConnectFailed :: "u64 \<Rightarrow> GUID \<Rightarrow> u8 list \<Rightarrow> NetworkProvider \<Rightarrow> net_fault + NetworkProvider" where
  "OnConnectFailed timestamp pActivityId message =
     MonitorRequest pActivityId False (\<lambda>info.
       (on_part (\<lambda>c. c\<lparr>rc_SocketDuration := timestamp - rc_SocketConnectStartTime c\<rparr>) info)\<lparr>ri_Error := message\<rparr>)"

definition OnRequestHeaderStart :: "u64 \<Rightarrow> GUID \<Rightarrow> NetworkProvider \<Rightarrow> net_fault + NetworkProvider" where
  "OnRequestHeaderStart timestamp pActivityId =
     MonitorRequest pActivityId False (on_part (\<lambda>c. c\<lparr>rc_RequestHeadersStartTimestamp := timestamp\<rparr>))"

definition IsRedirect :: "u32 \<Rightarrow> bool" where
  "IsRedirect statusCode \<longleftrightarrow> 300 \<le> statusCode \<and> statusCode \<le> 308"

definition response_headers :: "u64 \<Rightarrow> u32 \<Rightarrow> NetworkRequestInfo \<Rightarrow> NetworkRequestInfo" where
  "response_headers timestamp statusCode info =
     (case ri_Redirect info of
        None \<Rightarrow>
          let c = ri_Common info;
              info1 = info\<lparr>ri_Common := c\<lparr>rc_RequestDuration := timestamp - rc_RequestHeadersStartTimestamp c\<rparr>\<rparr>
          in if IsRedirect statusCode then info1\<lparr>ri_Redirect := Some (newNetworkRequestCommon [] timestamp)\<rparr> else info1
      | Some r \<Rightarrow> info\<lparr>ri_Redirect := Some (r\<lparr>rc_RequestDuration :=
            rc_RequestDuration r + (timestamp - rc_RequestHeadersStartTimestamp r)\<rparr>)\<rparr>)"

definition OnResponseHeaderStop :: "u64 \<Rightarrow> GUID \<Rightarrow> u32 \<Rightarrow> NetworkProvider \<Rightarrow> net_fault + NetworkProvider" where
  "OnResponseHeaderStop timestamp pActivityId statusCode =
     MonitorRequest pActivityId False (response_headers timestamp statusCode)"

definition OnResponseContentStart :: "u64 \<Rightarrow> GUID \<Rightarrow> NetworkProvider \<Rightarrow> net_fault + NetworkProvider" where
  "OnResponseContentStart timestamp pActivityId =
     MonitorRequest pActivityId False (on_part (\<lambda>c. c\<lparr>rc_ResponseContentStartTimestamp := timestamp\<rparr>))"

definition OnResponseContentStop :: "u64 \<Rightarrow> GUID \<Rightarrow> NetworkProvider \<Rightarrow> net_fault + NetworkProvider" where
  "OnResponseContentStop timestamp pActivityId =
     MonitorRequest pActivityId False (on_part (\<lambda>c. c\<lparr>rc_ResponseDuration := timestamp - rc_ResponseContentStartTimestamp c\<rparr>))"

definition OnHandshakeStart :: "u64 \<Rightarrow> GUID \<Rightarrow> NetworkProvider \<Rightarrow> net_fault + NetworkProvider" where
  "OnHandshakeStart timestamp pActivityId =
     MonitorRequest pActivityId False (on_part (\<lambda>c. c\<lparr>rc_HandshakeStartTime := timestamp\<rparr>))"

text \<open>The duration is stored in the initial part in both branches.\<close>

definition UpdateHandshakeDuration :: "u64 \<Rightarrow> NetworkRequestInfo \<Rightarrow> NetworkRequestInfo" where
  "UpdateHandshakeDuration timestamp info =
     (case ri_Redirect info of
        None \<Rightarrow> info\<lparr>ri_Common := (ri_Common info)\<lparr>rc_HandshakeDuration := timestamp - rc_HandshakeStartTime (ri_Common info)\<rparr>\<rparr>
      | Some r \<Rightarrow> info\<lparr>ri_Common := (ri_Common info)\<lparr>rc_HandshakeDuration := timestamp - rc_HandshakeStartTime r\<rparr>\<rparr>)"

definition handshake_wait :: "NetworkRequestCommon \<Rightarrow> u64" where
  "handshake_wait c =
     (if rc_SocketConnectStartTime c \<noteq> 0 then rc_HandshakeStartTime c - (rc_SocketConnectStartTime c + rc_SocketDuration c)
      else if rc_DnsStartTime c \<noteq> 0 then rc_HandshakeStartTime c - (rc_DnsStartTime c + rc_DnsDuration c)
      else rc_HandshakeStartTime c - rc_StartTimestamp c)"

definition UpdateHandshakeWait :: "NetworkRequestInfo \<Rightarrow> NetworkRequestInfo" where
  "UpdateHandshakeWait = on_part (\<lambda>c. c\<lparr>rc_HandshakeWait := handshake_wait c\<rparr>)"

definition OnHandshakeStop :: "u64 \<Rightarrow> GUID \<Rightarrow> NetworkProvider \<Rightarrow> net_fault + NetworkProvider" where
  "OnHandshakeStop timestamp pActivityId =
     MonitorRequest pActivityId False (\<lambda>info. UpdateHandshakeWait (UpdateHandshakeDuration timestamp info))"

definition OnHandshakeFailed :: "u64 \<Rightarrow> GUID \<Rightarrow> u8 list \<Rightarrow> NetworkProvider \<Rightarrow> net_fault + NetworkProvider" where
  "OnHandshakeFailed timestamp pActivityId message =
     MonitorRequest pActivityId False (\<lambda>info.
       (UpdateHandshakeWait (UpdateHandshakeDuration timestamp info))\<lparr>ri_HandshakeError := message\<rparr>)"

section \<open>Calls\<close>

fun deliver :: "net_env \<Rightarrow> network_call \<Rightarrow> NetworkProvider \<Rightarrow> net_fault + NetworkProvider" where
  "deliver env (CallRequestStart t g url) s = OnRequestStart env t g url s"
| "deliver env (CallRequestStop t g status) s = OnRequestStop env t g status s"
| "deliver env (CallRequestFailed t g message) s = OnRequestFailed g message s"
| "deliver env (CallRedirect t g url) s = OnRedirect g url s"
| "deliver env (CallDnsResolutionStart t g) s = OnDnsResolutionStart t g s"
| "deliver env (CallDnsResolutionStop t g ok) s = OnDnsResolutionStop t g ok s"
| "deliver env (CallConnectStart t g) s = OnConnectStart t g s"
| "deliver env (CallConnectStop t g) s = OnConnectStop t g s"
| "deliver env (CallConnectFailed t g message) s = OnConnectFailed t g message s"
| "deliver env (CallHandshakeStart t g host) s = OnHandshakeStart t g s"
| "deliver env (CallHandshakeStop t g) s = OnHandshakeStop t g s"
| "deliver env (CallHandshakeFailed t g message) s = OnHandshakeFailed t g message s"
| "deliver env (CallRequestHeaderStart t g) s = OnRequestHeaderStart t g s"
| "deliver env (CallResponseHeaderStop t g status) s = OnResponseHeaderStop t g status s"
| "deliver env (CallResponseContentStart t g) s = OnResponseContentStart t g s"
| "deliver env (CallResponseContentStop t g) s = OnResponseContentStop t g s"

fun deliver_all :: "(net_env \<times> network_call) list \<Rightarrow> NetworkProvider \<Rightarrow> net_fault + NetworkProvider" where
  "deliver_all [] s = Inr s"
| "deliver_all ((env, c) # cs) s = (case deliver env c s of Inl e \<Rightarrow> Inl e | Inr s' \<Rightarrow> deliver_all cs s')"

section \<open>One request\<close>

text \<open>
  The specification: a request is followed on its own. A call changes the entry of the request it concerns
  and may add a sample.
\<close>

fun call_target :: "network_call \<Rightarrow> GUID \<times> bool" where
  "call_target (CallRequestStart t g _) = (g, True)"
| "call_target (CallRequestStop t g _) = (g, True)"
| "call_target (CallRequestFailed t g _) = (g, True)"
| "call_target (CallRedirect t g _) = (g, True)"
| "call_target (CallDnsResolutionStart t g) = (g, False)"
| "call_target (CallDnsResolutionStop t g _) = (g, False)"
| "call_target (CallConnectStart t g) = (g, False)"
| "call_target (CallConnectStop t g) = (g, False)"
| "call_target (CallConnectFailed t g _) = (g, False)"
| "call_target (CallHandshakeStart t g _) = (g, False)"
| "call_target (CallHandshakeStop t g) = (g, False)"
| "call_target (CallHandshakeFailed t g _) = (g, False)"
| "call_target (CallRequestHeaderStart t g) = (g, False)"
| "call_target (CallResponseHeaderStop t g _) = (g, False)"
| "call_target (CallResponseContentStart t g) = (g, False)"
| "call_target (CallResponseContentStop t g) = (g, False)"

definition call_activity :: "network_call \<Rightarrow> NetworkActivity option" where
  "call_activity c =
     (case call_target c of (g, isRoot) \<Rightarrow> case TryGetActivity g isRoot of Inl _ \<Rightarrow> None | Inr x \<Rightarrow> x)"

fun phase_effect :: "network_call \<Rightarrow> NetworkRequestInfo \<Rightarrow> NetworkRequestInfo" where
  "phase_effect (CallRequestFailed t g message) info = info\<lparr>ri_Error := message\<rparr>"
| "phase_effect (CallRedirect t g url) info = redirect_to url info"
| "phase_effect (CallDnsResolutionStart t g) info = on_part (\<lambda>c. c\<lparr>rc_DnsStartTime := t\<rparr>) info"
| "phase_effect (CallDnsResolutionStop t g ok) info =
     (on_part (\<lambda>c. c\<lparr>rc_DnsDuration := t - rc_DnsStartTime c, rc_DnsWait := rc_DnsStartTime c - rc_StartTimestamp c\<rparr>) info)
       \<lparr>ri_DnsResolutionSuccess := ok\<rparr>"
| "phase_effect (CallConnectStart t g) info = on_part (\<lambda>c. c\<lparr>rc_SocketConnectStartTime := t\<rparr>) info"
| "phase_effect (CallConnectStop t g) info = on_part (\<lambda>c. c\<lparr>rc_SocketDuration := t - rc_SocketConnectStartTime c\<rparr>) info"
| "phase_effect (CallConnectFailed t g message) info =
     (on_part (\<lambda>c. c\<lparr>rc_SocketDuration := t - rc_SocketConnectStartTime c\<rparr>) info)\<lparr>ri_Error := message\<rparr>"
| "phase_effect (CallHandshakeStart t g host) info = on_part (\<lambda>c. c\<lparr>rc_HandshakeStartTime := t\<rparr>) info"
| "phase_effect (CallHandshakeStop t g) info = UpdateHandshakeWait (UpdateHandshakeDuration t info)"
| "phase_effect (CallHandshakeFailed t g message) info =
     (UpdateHandshakeWait (UpdateHandshakeDuration t info))\<lparr>ri_HandshakeError := message\<rparr>"
| "phase_effect (CallRequestHeaderStart t g) info = on_part (\<lambda>c. c\<lparr>rc_RequestHeadersStartTimestamp := t\<rparr>) info"
| "phase_effect (CallResponseHeaderStop t g status) info = response_headers t status info"
| "phase_effect (CallResponseContentStart t g) info = on_part (\<lambda>c. c\<lparr>rc_ResponseContentStartTimestamp := t\<rparr>) info"
| "phase_effect (CallResponseContentStop t g) info =
     on_part (\<lambda>c. c\<lparr>rc_ResponseDuration := t - rc_ResponseContentStartTimestamp c\<rparr>) info"
| "phase_effect _ info = info"

text \<open>A request starts on a known thread that has a trace context (unless sampling is forced).\<close>

definition started :: "bool \<Rightarrow> net_env \<Rightarrow> u64 \<Rightarrow> u8 list \<Rightarrow> NetworkRequestInfo option" where
  "started force env t url =
     (case ne_CurrentThreadInfo env of
        None \<Rightarrow> None
      | Some th \<Rightarrow>
          if \<not> force \<and> \<not> ct_HasTraceContext th then None
          else Some ((newNetworkRequestInfo url t)\<lparr>ri_AppDomainId := ct_AppDomainId th, ri_TraceContext := ct_walked_context th,
                 ri_StartCallStack := ct_walked_frames th, ri_StartThreadInfo := Some (ct_self th)\<rparr>))"

fun request_step ::
  "bool \<Rightarrow> u64 \<Rightarrow> net_env \<Rightarrow> network_call \<Rightarrow> NetworkRequestInfo option \<Rightarrow> NetworkRequestInfo option \<times> RawNetworkSample list" where
  "request_step force threshold env (CallRequestStart t g url) e = (started force env t url, [])"
| "request_step force threshold env (CallRequestStop t g status) e =
     (case e of
        None \<Rightarrow> (None, [])
      | Some info \<Rightarrow>
          if too_short force threshold info t then (None, [])
          else (None, [stop_sample env (the (ne_CurrentThreadInfo env)) info t status]))"
| "request_step force threshold env c e = (map_option (phase_effect c) e, [])"

fun request_run ::
  "bool \<Rightarrow> u64 \<Rightarrow> (net_env \<times> network_call) list \<Rightarrow> NetworkRequestInfo option \<Rightarrow>
     NetworkRequestInfo option \<times> RawNetworkSample list" where
  "request_run force threshold [] e = (e, [])"
| "request_run force threshold ((env, c) # cs) e =
     (case request_step force threshold env c e of
        (e1, xs) \<Rightarrow> case request_run force threshold cs e1 of (e2, ys) \<Rightarrow> (e2, xs @ ys))"

definition calls_of :: "NetworkActivity \<Rightarrow> (net_env \<times> network_call) list \<Rightarrow> (net_env \<times> network_call) list" where
  "calls_of a cs = filter (\<lambda>x. call_activity (snd x) = Some a) cs"

text \<open>
  What the runtime does: activities are readable GUIDs, those of phases have a non-empty path, a request stops
  on a thread the profiler knows, and the stack of the thread that starts one can be walked.
\<close>

fun deliverable :: "net_env \<times> network_call \<Rightarrow> bool" where
  "deliverable (env, c) \<longleftrightarrow>
     (case call_target c of (g, isRoot) \<Rightarrow> 12 \<le> length g \<and> (\<not> isRoot \<longrightarrow> path_of g \<noteq> Some [])) \<and>
     (case c of
        CallRequestStart _ _ _ \<Rightarrow> (\<forall>th. ne_CurrentThreadInfo env = Some th \<longrightarrow> ct_walked_frames th \<noteq> [])
      | CallRequestStop _ _ _ \<Rightarrow> ne_CurrentThreadInfo env \<noteq> None
      | _ \<Rightarrow> True)"

section \<open>Requests do not interfere\<close>

lemma TryGetActivity_target:
  assumes "deliverable (env, c)"
  shows "(case call_target c of (g, isRoot) \<Rightarrow> TryGetActivity g isRoot) = Inr (call_activity c)"
  using assms GetRootActivity_None
  by (auto simp: call_activity_def TryGetActivity_def split: prod.splits option.splits)

lemma MonitorRequest_at:
  assumes "TryGetActivity g isRoot = Inr x"
  shows "MonitorRequest g isRoot f s =
    Inr (case x of None \<Rightarrow> s | Some a \<Rightarrow> if np_requests s a = None then s
         else s\<lparr>np_requests := (np_requests s)(a := map_option f (np_requests s a))\<rparr>)"
  using assms by (auto simp: MonitorRequest_def split: option.splits)

lemma CaptureThreadInfo_started:
  "(\<forall>th. ne_CurrentThreadInfo env = Some th \<longrightarrow> ct_walked_frames th \<noteq> []) \<Longrightarrow>
     CaptureThreadInfo force (ne_CurrentThreadInfo env) n (newNetworkRequestInfo url t) = (started force env t url, n)"
  by (auto simp: CaptureThreadInfo_def started_def split: option.splits)

definition step_ok :: "net_env \<Rightarrow> network_call \<Rightarrow> NetworkProvider \<Rightarrow> NetworkProvider \<Rightarrow> bool" where
  "step_ok env c s s' \<longleftrightarrow>
     np_ForceHttpSampling s' = np_ForceHttpSampling s \<and> np_requestDurationThreshold s' = np_requestDurationThreshold s \<and>
     (case call_activity c of
        None \<Rightarrow> np_requests s' = np_requests s \<and> np_samples s' = np_samples s
      | Some a \<Rightarrow>
          (case request_step (np_ForceHttpSampling s) (np_requestDurationThreshold s) env c (np_requests s a) of
             (e, xs) \<Rightarrow> np_requests s' = (np_requests s)(a := e) \<and> np_samples s' = np_samples s @ xs))"

lemma phase_step:
  assumes "deliver env c s = MonitorRequest g isRoot (phase_effect c) s" and "TryGetActivity g isRoot = Inr (call_activity c)"
    and "\<And>e. request_step (np_ForceHttpSampling s) (np_requestDurationThreshold s) env c e = (map_option (phase_effect c) e, [])"
  shows "\<exists>s'. deliver env c s = Inr s' \<and> step_ok env c s s'"
  unfolding assms(1) MonitorRequest_at [OF assms(2)] step_ok_def assms(3) by (auto split: option.splits)

lemmas phase_handlers = OnRequestFailed_def OnRedirect_def OnDnsResolutionStart_def OnDnsResolutionStop_def
  OnConnectStart_def OnConnectStop_def OnConnectFailed_def OnHandshakeStart_def OnHandshakeStop_def OnHandshakeFailed_def
  OnRequestHeaderStart_def OnResponseHeaderStop_def OnResponseContentStart_def OnResponseContentStop_def

fun is_phase :: "network_call \<Rightarrow> bool" where
  "is_phase (CallRequestStart _ _ _) = False"
| "is_phase (CallRequestStop _ _ _) = False"
| "is_phase _ = True"

lemma deliver_phase:
  "is_phase c \<Longrightarrow> deliver env c s = (case call_target c of (g, isRoot) \<Rightarrow> MonitorRequest g isRoot (phase_effect c) s)"
  by (cases c) (simp_all add: phase_handlers, simp_all add: MonitorRequest_def split: sum.splits option.splits)

lemma request_step_phase: "is_phase c \<Longrightarrow> request_step force threshold env c e = (map_option (phase_effect c) e, [])"
  by (cases c) simp_all

lemma deliver_start:
  assumes "deliverable (env, CallRequestStart t g url)"
  shows "\<exists>s'. deliver env (CallRequestStart t g url) s = Inr s' \<and> step_ok env (CallRequestStart t g url) s s'"
  using TryGetActivity_target [OF assms] assms CaptureThreadInfo_started [of env]
  by (auto simp: OnRequestStart_def step_ok_def Let_def split: option.splits)

lemma deliver_stop:
  assumes "deliverable (env, CallRequestStop t g status)"
  shows "\<exists>s'. deliver env (CallRequestStop t g status) s = Inr s' \<and> step_ok env (CallRequestStop t g status) s s'"
  using TryGetActivity_target [OF assms] assms
  by (auto simp: OnRequestStop_def step_ok_def add_duration_metrics_def Let_def split: option.splits)

lemma deliver_step:
  assumes "deliverable (env, c)"
  shows "\<exists>s'. deliver env c s = Inr s' \<and> step_ok env c s s'"
proof (cases "is_phase c")
  case True
  obtain g isRoot where t: "call_target c = (g, isRoot)" by (cases "call_target c")
  show ?thesis
    using deliver_phase [OF True, of env s] TryGetActivity_target [OF assms] request_step_phase [OF True]
    by (intro phase_step [of env c s g isRoot]) (simp_all add: t)
next
  case False
  then show ?thesis using assms deliver_start deliver_stop by (cases c) auto
qed

lemma calls_of_Cons:
  "calls_of a ((env, c) # cs) = (if call_activity c = Some a then (env, c) # calls_of a cs else calls_of a cs)"
  by (simp add: calls_of_def)

lemma deliver_all_runs:
  assumes "\<forall>x\<in>set cs. deliverable x"
  shows "\<exists>s' log. deliver_all cs s = Inr s' \<and> np_samples s' = np_samples s @ map snd log \<and>
    (\<forall>a. request_run (np_ForceHttpSampling s) (np_requestDurationThreshold s) (calls_of a cs) (np_requests s a) =
       (np_requests s' a, map snd (filter (\<lambda>x. fst x = a) log)))"
  using assms
proof (induction cs arbitrary: s)
  case Nil
  then show ?case by (intro exI [of _ s] exI [of _ "[]"]) (simp add: calls_of_def)
next
  case (Cons x cs)
  obtain env c where x: "x = (env, c)" by (cases x)
  obtain s1 where s1: "deliver env c s = Inr s1" "step_ok env c s s1" using deliver_step [of env c s] Cons.prems x by auto
  obtain s' log where r: "deliver_all cs s1 = Inr s'" "np_samples s' = np_samples s1 @ map snd log"
    "\<And>a. request_run (np_ForceHttpSampling s1) (np_requestDurationThreshold s1) (calls_of a cs) (np_requests s1 a) =
       (np_requests s' a, map snd (filter (\<lambda>x. fst x = a) log))"
    using Cons.IH [of s1] Cons.prems by auto
  have conf: "np_ForceHttpSampling s1 = np_ForceHttpSampling s" "np_requestDurationThreshold s1 = np_requestDurationThreshold s"
    using s1(2) by (simp_all add: step_ok_def)
  show ?case
  proof (cases "call_activity c")
    case None
    then show ?thesis using s1 r conf x
      by (intro exI [of _ s'] exI [of _ log]) (simp add: step_ok_def calls_of_Cons)
  next
    case (Some b)
    obtain e xs where e: "request_step (np_ForceHttpSampling s) (np_requestDurationThreshold s) env c (np_requests s b) = (e, xs)"
      by (metis surj_pair)
    then have n: "np_requests s1 = (np_requests s)(b := e)" "np_samples s1 = np_samples s @ xs"
      using s1(2) Some by (simp_all add: step_ok_def)
    have "request_run (np_ForceHttpSampling s) (np_requestDurationThreshold s) (calls_of a (x # cs)) (np_requests s a) =
       (np_requests s' a, map snd (filter (\<lambda>x. fst x = a) (map (Pair b) xs @ log)))" for a
      using r(3) [of a] e Some conf n(1) by (cases "a = b") (simp_all add: x calls_of_Cons filter_map o_def)
    then show ?thesis using s1(1) r(1,2) n(2) x
      by (intro exI [of _ s'] exI [of _ "map (Pair b) xs @ log"]) (simp add: o_def)
  qed
qed


section \<open>The sample of a request\<close>

text \<open>
  C12. A complete HTTPS request, with the events in the order that the source documents and interleaved with the
  events of any other requests, gives exactly one sample of its activity: with the URL, the status, the stack
  and the trace context of the thread that started it, the names of the thread that ended it, and for every
  phase the time between its two events and the wait since the phase before. The entry is removed.
\<close>

theorem https_request_sample:
  assumes "\<forall>x\<in>set cs. deliverable x"
    and "calls_of a cs =
      [(e0, CallRequestStart t0 g url), (e1, CallDnsResolutionStart t1 g1), (e2, CallDnsResolutionStop t2 g1 ok),
       (e3, CallConnectStart t3 g2), (e4, CallConnectStop t4 g2), (e5, CallHandshakeStart t5 g3 host),
       (e6, CallHandshakeStop t6 g3), (e7, CallRequestHeaderStart t7 g4), (e8, CallResponseHeaderStop t8 g5 status),
       (e9, CallResponseContentStart t9 g6), (e10, CallResponseContentStop t10 g6), (e11, CallRequestStop t11 g status')]"
    and "ne_CurrentThreadInfo e0 = Some th" and "ct_HasTraceContext th" and "ne_CurrentThreadInfo e11 = Some th'"
    and "t3 \<noteq> 0" and "\<not> IsRedirect status" and "sint (np_requestDurationThreshold s) \<le> sint (t11 - t0)"
  shows "\<exists>s' log. deliver_all cs s = Inr s' \<and> np_samples s' = np_samples s @ map snd log \<and> np_requests s' a = None \<and>
    map snd (filter (\<lambda>x. fst x = a) log) =
      [\<lparr>ns_Timestamp = t11, ns_AppDomainId = ct_AppDomainId th, ns_TraceContext = ct_walked_context th,
        ns_ThreadInfo = Some (ct_self th), ns_Stack = ct_walked_frames th, ns_Url = url, ns_StartTimestamp = t0,
        ns_StatusCode = status', ns_Error = [], ns_EndThreadId = ct_ProfileThreadId th',
        ns_EndThreadName = ct_ProfileThreadName th', ns_RedirectUrl = [], ns_HasBeenRedirected = ne_uninitialised e11,
        ns_DnsWait = t1 - t0, ns_DnsDuration = t2 - t1, ns_DnsSuccess = ok, ns_SocketConnectDuration = t4 - t3,
        ns_HandshakeWait = t5 - t4, ns_HandshakeDuration = t6 - t5, ns_HandshakeError = [],
        ns_RequestDuration = t8 - t7, ns_ResponseDuration = t10 - t9\<rparr>]"
proof -
  obtain s' log where r: "deliver_all cs s = Inr s'" "np_samples s' = np_samples s @ map snd log"
    "request_run (np_ForceHttpSampling s) (np_requestDurationThreshold s) (calls_of a cs) (np_requests s a) =
       (np_requests s' a, map snd (filter (\<lambda>x. fst x = a) log))"
    using deliver_all_runs [OF assms(1), of s] by blast
  have "t5 - (t3 + (t4 - t3)) = t5 - t4" by simp
  then show ?thesis using r(3) [symmetric] assms(3-8) unfolding assms(2)
    by (intro exI [of _ s'] exI [of _ log])
      (simp add: r(1,2) started_def newNetworkRequestInfo_def newNetworkRequestCommon_def on_part_def UpdateHandshakeWait_def
        UpdateHandshakeDuration_def handshake_wait_def response_headers_def too_short_def stop_sample_def FillRawSample_def Let_def)
qed


section \<open>Metrics\<close>

definition metrics_match :: "NetworkProvider \<Rightarrow> bool" where
  "metrics_match s \<longleftrightarrow>
     np_requestsCountMetric s = length (np_samples s) \<and>
     np_failedRequestsCountMetric s = length (filter (\<lambda>x. ns_StatusCode x < 200 \<or> ns_StatusCode x > 299) (np_samples s)) \<and>
     np_redirectionRequestsCountMetric s \<le> length (filter ns_HasBeenRedirected (np_samples s)) \<and>
     np_totalDurationMetric s = map (\<lambda>x. ns_Timestamp x - ns_StartTimestamp x) (np_samples s) \<and>
     np_waitDurationMetric s = map (\<lambda>x. ns_DnsWait x + ns_HandshakeWait x) (np_samples s) \<and>
     np_dnsDurationMetric s = map ns_DnsDuration (np_samples s) \<and>
     np_handshakeDurationMetric s = map ns_HandshakeDuration (np_samples s) \<and>
     np_requestResponseDurationMetric s = map (\<lambda>x. ns_RequestDuration x + ns_ResponseDuration x) (np_samples s)"

lemma metrics_MonitorRequest: "metrics_match s \<Longrightarrow> MonitorRequest g isRoot f s = Inr s' \<Longrightarrow> metrics_match s'"
  by (auto simp: MonitorRequest_def metrics_match_def split: sum.splits option.splits)

lemma metrics_OnRequestStart: "metrics_match s \<Longrightarrow> OnRequestStart env t g url s = Inr s' \<Longrightarrow> metrics_match s'"
  by (auto simp: OnRequestStart_def metrics_match_def Let_def split: sum.splits option.splits prod.splits if_splits)

lemma metrics_OnRequestStop: "metrics_match s \<Longrightarrow> OnRequestStop env t g status s = Inr s' \<Longrightarrow> metrics_match s'"
  by (auto simp: OnRequestStop_def metrics_match_def add_duration_metrics_def stop_sample_def FillRawSample_def Let_def
      split: sum.splits option.splits if_splits)

lemma metrics_deliver: "metrics_match s \<Longrightarrow> deliver env c s = Inr s' \<Longrightarrow> metrics_match s'"
  by (cases c) (auto simp: phase_handlers intro: metrics_MonitorRequest metrics_OnRequestStart metrics_OnRequestStop)


section \<open>An example\<close>

text \<open>The request 1/1 and its phases 1/1/1 to 1/1/6.\<close>

definition demo_guid :: "u8 \<Rightarrow> GUID" where
  "demo_guid k = 0x11 # push_bit 4 k # replicate 14 0"

definition demo_activity :: NetworkActivity where
  "demo_activity = \<lparr>High = 0x11, Middle = 0, Low = 0\<rparr>"

definition demo_thread :: current_thread where
  "demo_thread = \<lparr>ct_self = 0x1000, ct_HasTraceContext = True, ct_AppDomainId = 1, ct_walked_frames = [0x400, 0x500],
     ct_walked_context = (1, 2, 3), ct_ProfileThreadId = [0x37], ct_ProfileThreadName = [0x74]\<rparr>"

definition demo_env :: net_env where
  "demo_env = \<lparr>ne_CurrentThreadInfo = Some demo_thread, ne_uninitialised = False\<rparr>"

lemma demo_root: "TryGetActivity (demo_guid 0) True = Inr (Some demo_activity)" by code_simp

lemma demo_phases:
  "TryGetActivity (demo_guid 1) False = Inr (Some demo_activity)" "TryGetActivity (demo_guid 2) False = Inr (Some demo_activity)"
  "TryGetActivity (demo_guid 3) False = Inr (Some demo_activity)" "TryGetActivity (demo_guid 4) False = Inr (Some demo_activity)"
  "TryGetActivity (demo_guid 5) False = Inr (Some demo_activity)" "TryGetActivity (demo_guid 6) False = Inr (Some demo_activity)"
  by code_simp+

lemma demo_paths:
  "path_of (demo_guid 1) \<noteq> Some []" "path_of (demo_guid 2) \<noteq> Some []" "path_of (demo_guid 3) \<noteq> Some []"
  "path_of (demo_guid 4) \<noteq> Some []" "path_of (demo_guid 5) \<noteq> Some []" "path_of (demo_guid 6) \<noteq> Some []"
  by code_simp+

lemma length_demo_guid: "length (demo_guid k) = 16"
  by (simp add: demo_guid_def)

lemmas demo_simps = demo_root demo_phases demo_paths length_demo_guid calls_of_def call_activity_def demo_env_def
  demo_thread_def IsRedirect_def newNetworkProvider_def



theorem https_request_sample_witness:
  "\<exists>s'. deliver_all
      [(demo_env, CallRequestStart 10 (demo_guid 0) [0x75]), (demo_env, CallDnsResolutionStart 12 (demo_guid 1)),
       (demo_env, CallDnsResolutionStop 15 (demo_guid 1) True), (demo_env, CallConnectStart 16 (demo_guid 2)),
       (demo_env, CallConnectStop 20 (demo_guid 2)), (demo_env, CallHandshakeStart 21 (demo_guid 3) []),
       (demo_env, CallHandshakeStop 26 (demo_guid 3)), (demo_env, CallRequestHeaderStart 27 (demo_guid 4)),
       (demo_env, CallResponseHeaderStop 33 (demo_guid 5) 200), (demo_env, CallResponseContentStart 34 (demo_guid 6)),
       (demo_env, CallResponseContentStop 41 (demo_guid 6)), (demo_env, CallRequestStop 42 (demo_guid 0) 200)]
      (newNetworkProvider False 0) = Inr s' \<and> np_requests s' demo_activity = None"
  (is "\<exists>s'. deliver_all ?cs ?s = Inr s' \<and> _")
proof -
  have c: "calls_of demo_activity ?cs = ?cs" by (simp add: demo_simps)
  have d: "\<forall>x\<in>set ?cs. deliverable x" by (simp add: demo_simps)
  show ?thesis
    using https_request_sample [OF d c, of demo_thread demo_thread ?s] by (auto simp: demo_simps)
qed


end
