(* ===== verification/EventPipe.thy ===== *)
theory EventPipe
  imports ClrEvents NetProvider
begin

unbundle bit_operations_syntax

text \<open>
  The entry of the runtime events into the profiler (\<open>EventPipeEventsManager.cpp\<close>): the provider of an event is
  looked up in a cache, the metadata of the event is decoded, and the payload goes to the parser of the
  runtime's events or to the one of the network events with its listener. The runtime's answer to
  \<open>EventPipeGetProviderInfo\<close> is a function from providers to names, \<open>None\<close> for a failed call.
\<close>

section \<open>Providers\<close>

type_synonym provider_info = "u64 \<Rightarrow> u16 list option"

type_synonym providers = "u64 \<Rightarrow> DotnetEventsProvider option"

definition wide_literal :: "string \<Rightarrow> u16 list" where
  "wide_literal s = map of_char s"

definition TryResolveProvider :: "provider_info \<Rightarrow> u64 \<Rightarrow> DotnetEventsProvider option" where
  "TryResolveProvider info provider =
     (case info provider of
        None \<Rightarrow> None
      | Some providerName \<Rightarrow>
          if providerName = wide_literal ''Microsoft-Windows-DotNETRuntime'' then Some Clr
          else if providerName = wide_literal ''System.Net.Http'' then Some Http
          else if providerName = wide_literal ''System.Net.Sockets'' then Some Sockets
          else if providerName = wide_literal ''System.Net.NameResolution'' then Some NameResolution
          else if providerName = wide_literal ''System.Net.Security'' then Some NetSecurity
          else Some UnknownProvider)"

definition OnProviderCreated :: "provider_info \<Rightarrow> u64 \<Rightarrow> providers \<Rightarrow> providers" where
  "OnProviderCreated info provider m =
     (case TryResolveProvider info provider of None \<Rightarrow> m | Some resolved \<Rightarrow> m(provider \<mapsto> resolved))"

text \<open>
  Between the shared and the exclusive lock other threads may change the cache; what they do is the argument
  \<open>meanwhile\<close>.
\<close>

definition GetProvider :: "provider_info \<Rightarrow> (providers \<Rightarrow> providers) \<Rightarrow> u64 \<Rightarrow> providers \<Rightarrow> DotnetEventsProvider \<times> providers" where
  "GetProvider info meanwhile provider m =
     (case m provider of
        Some p \<Rightarrow> (p, m)
      | None \<Rightarrow>
          let m1 = meanwhile m in
          (case m1 provider of
             Some p \<Rightarrow> (p, m1)
           | None \<Rightarrow>
               (case TryResolveProvider info provider of
                  None \<Rightarrow> (UnknownProvider, m1)
                | Some resolved \<Rightarrow> (resolved, m1(provider \<mapsto> resolved)))))"

section \<open>Events\<close>

record event_info =
  ei_id :: u32
  ei_name :: "u16 list"
  ei_keywords :: u64
  ei_version :: u32

definition read_event_info :: "event_info reader" where
  "read_event_info =
     then_read ReadU32 (\<lambda>i.
     then_read ReadWideString (\<lambda>name.
     then_read ReadU64 (\<lambda>keywords.
     then_read ReadU32 (\<lambda>version.
     give \<lparr>ei_id = i, ei_name = name, ei_keywords = keywords, ei_version = version\<rparr>))))"

text \<open>The pointer to the metadata may be null.\<close>

definition TryGetEventInfo :: "u8 list option \<Rightarrow> u32 \<Rightarrow> event_info read" where
  "TryGetEventInfo pMetadata cbMetadata =
     (case pMetadata of
        None \<Rightarrow> Rejected
      | Some bs \<Rightarrow>
          if cbMetadata = 0 then Rejected
          else case read_event_info bs cbMetadata 0 of
            OutOfBounds \<Rightarrow> OutOfBounds
          | Rejected \<Rightarrow> Rejected
          | Got (e, _) \<Rightarrow> Got e)"

text \<open>The manager owns the parsers; the network listener is the provider of \<open>NetProvider\<close>, if there is one.\<close>

record EventPipeEventsManager =
  em_providers :: providers
  em_clrParser :: ClrEventsParser
  em_pNetworkListener :: "NetworkProvider option"

text \<open>
  An event as it is delivered, with the time at which it is handled and the thread it is handled on, and the
  values that the model takes from outside: the answer of the runtime, the other threads and the
  unspecified result of a rounding.
\<close>

record pipe_event =
  pe_provider :: u64
  pe_cbMetadataBlob :: u32
  pe_metadataBlob :: "u8 list option"
  pe_cbEventData :: u32
  pe_eventData :: "u8 list"
  pe_activity :: GUID
  pe_timestamp :: u64
  pe_env :: net_env
  pe_info :: provider_info
  pe_meanwhile :: "providers \<Rightarrow> providers"
  pe_unspecified :: u64

datatype pipe_fault = PayloadAccess | ListenerFault net_fault

definition ParsePipeEvent ::
  "pipe_event \<Rightarrow> EventPipeEventsManager \<Rightarrow> pipe_fault + clr_call list \<times> EventPipeEventsManager" where
  "ParsePipeEvent e s =
     (case GetProvider (pe_info e) (pe_meanwhile e) (pe_provider e) (em_providers s) of (dotnetProvider, m) \<Rightarrow>
        let s1 = s\<lparr>em_providers := m\<rparr> in
        if dotnetProvider = UnknownProvider then Inr ([], s1)
        else case TryGetEventInfo (pe_metadataBlob e) (pe_cbMetadataBlob e) of
          OutOfBounds \<Rightarrow> Inl PayloadAccess
        | Rejected \<Rightarrow> Inr ([], s1)
        | Got info \<Rightarrow>
            if dotnetProvider = Clr then
              (case ParseClrEvent (pe_unspecified e)
                  \<lparr>ev_timestamp = pe_timestamp e, ev_version = ei_version info, ev_keywords = ei_keywords info,
                   ev_id = ei_id info, ev_cbEventData = pe_cbEventData e, ev_data = pe_eventData e\<rparr> (em_clrParser s1) of
                 None \<Rightarrow> Inl PayloadAccess
               | Some (calls, c) \<Rightarrow> Inr (calls, s1\<lparr>em_clrParser := c\<rparr>))
            else
              (case ParseBclEvent (em_pNetworkListener s1 \<noteq> None) dotnetProvider (pe_timestamp e) (ei_id info)
                  (pe_eventData e) (pe_cbEventData e) (pe_activity e) of
                 OutOfBounds \<Rightarrow> Inl PayloadAccess
               | Rejected \<Rightarrow> Inr ([], s1)
               | Got call \<Rightarrow>
                   (case em_pNetworkListener s1 of
                      None \<Rightarrow> Inr ([], s1)
                    | Some n \<Rightarrow>
                        (case deliver (pe_env e) call n of
                           Inl f \<Rightarrow> Inl (ListenerFault f)
                         | Inr n' \<Rightarrow> Inr ([], s1\<lparr>em_pNetworkListener := Some n'\<rparr>)))))"

fun parse_pipe_events ::
  "pipe_event list \<Rightarrow> EventPipeEventsManager \<Rightarrow> pipe_fault + clr_call list \<times> EventPipeEventsManager" where
  "parse_pipe_events [] s = Inr ([], s)"
| "parse_pipe_events (e # es) s =
     (case ParsePipeEvent e s of
        Inl f \<Rightarrow> Inl f
      | Inr (calls, s1) \<Rightarrow>
          (case parse_pipe_events es s1 of Inl f \<Rightarrow> Inl f | Inr (calls', s2) \<Rightarrow> Inr (calls @ calls', s2)))"

definition newEventPipeEventsManager :: "ClrEventsParser \<Rightarrow> NetworkProvider option \<Rightarrow> EventPipeEventsManager" where
  "newEventPipeEventsManager clr network = \<lparr>em_providers = (\<lambda>_. None), em_clrParser = clr, em_pNetworkListener = network\<rparr>"

definition RegisterManager :: "nat option \<Rightarrow> EventPipeEventsManager \<Rightarrow> EventPipeEventsManager" where
  "RegisterManager l s = s\<lparr>em_clrParser := Register l (em_clrParser s)\<rparr>"

definition SetAllocationTracking :: "bool \<Rightarrow> EventPipeEventsManager \<Rightarrow> EventPipeEventsManager" where
  "SetAllocationTracking enabled s = s\<lparr>em_clrParser := SetAllocationTrackingEnabled enabled (em_clrParser s)\<rparr>"

definition SetContentionTracking :: "bool \<Rightarrow> EventPipeEventsManager \<Rightarrow> EventPipeEventsManager" where
  "SetContentionTracking enabled s = s\<lparr>em_clrParser := SetContentionTrackingEnabled enabled (em_clrParser s)\<rparr>"

section \<open>The cache of providers\<close>

text \<open>Every cached entry is what the runtime says now.\<close>

definition cache_true :: "provider_info \<Rightarrow> providers \<Rightarrow> bool" where
  "cache_true info m \<longleftrightarrow> (\<forall>p r. m p = Some r \<longrightarrow> TryResolveProvider info p = Some r)"



section \<open>Events are read within their buffers\<close>

lemma safe_read_event_info [safe_readers]: "safe_reader read_event_info"
  unfolding read_event_info_def by (intro safe_readers)

definition sized :: "pipe_event \<Rightarrow> bool" where
  "sized e \<longleftrightarrow> (\<forall>bs. pe_metadataBlob e = Some bs \<longrightarrow> unat (pe_cbMetadataBlob e) \<le> length bs) \<and>
     unat (pe_cbEventData e) \<le> length (pe_eventData e)"

lemma TryGetEventInfo_safe: "(\<forall>bs. p = Some bs \<longrightarrow> unat cb \<le> length bs) \<Longrightarrow> TryGetEventInfo p cb \<noteq> OutOfBounds"
  using safe_readerD [OF safe_read_event_info, of cb "the p" 0]
  by (auto simp: TryGetEventInfo_def split: option.splits read.splits)

lemma ParseBclEvent_safe:
  "unat cb \<le> length data \<Longrightarrow> ParseBclEvent b provider t i data cb g \<noteq> OutOfBounds"
  using safe_readerD [OF safe_bcl_reader, of cb data 0 provider t i g] by (auto simp: ParseBclEvent_def split: read.splits)

lemma ParsePipeEvent_safe:
  assumes "sized e"
  shows "ParsePipeEvent e s \<noteq> Inl PayloadAccess"
proof -
  have m: "TryGetEventInfo (pe_metadataBlob e) (pe_cbMetadataBlob e) \<noteq> OutOfBounds"
    using assms by (intro TryGetEventInfo_safe) (auto simp: sized_def)
  have b: "ParseBclEvent b provider t i (pe_eventData e) (pe_cbEventData e) g \<noteq> OutOfBounds" for b provider t i g
    using assms by (intro ParseBclEvent_safe) (simp add: sized_def)
  have c: "False" if "ParseClrEvent u \<lparr>ev_timestamp = t, ev_version = v, ev_keywords = k, ev_id = i, ev_cbEventData = pe_cbEventData e,
      ev_data = pe_eventData e\<rparr> p = None" for u t v k i p
    using ParseClrEvent_safe [of "\<lparr>ev_timestamp = t, ev_version = v, ev_keywords = k, ev_id = i, ev_cbEventData = pe_cbEventData e,
      ev_data = pe_eventData e\<rparr>" u p] that assms
    by (auto simp: sized_def simp del: not_None_eq)
  show ?thesis using m b
    by (auto simp: ParsePipeEvent_def Let_def split: prod.splits read.splits option.splits sum.splits dest: c)
qed


text \<open>The start of a request for \<open>h://a/\<close>.\<close>

definition demo_info :: provider_info where
  "demo_info p = Some (wide_literal ''System.Net.Http'')"

definition demo_blob :: "u8 list" where
  "demo_blob = le_bytes 4 (unat (1 :: u32)) @ wide_bytes [] @ le_bytes 8 (unat (0 :: u64)) @ le_bytes 4 (unat (0 :: u32)) @ []"

definition demo_start :: network_event where
  "demo_start = RequestStartEvent [0x68] [0x61] 0 [0x2F]"

definition demo_pipe_event :: pipe_event where
  "demo_pipe_event = \<lparr>pe_provider = 7, pe_cbMetadataBlob = 18, pe_metadataBlob = Some demo_blob, pe_cbEventData = 16,
     pe_eventData = event_payload demo_start @ [], pe_activity = demo_guid 0, pe_timestamp = 5, pe_env = demo_env,
     pe_info = demo_info, pe_meanwhile = id, pe_unspecified = 0\<rparr>"

lemma demo_lengths: "length demo_blob = 18" "length (event_payload demo_start @ []) = 16"
  by (simp_all add: demo_blob_def demo_start_def length_wide_bytes)


section \<open>From bytes to requests\<close>

text \<open>The event delivers a documented network event, in the encoding of metadata and payload.\<close>

definition carries :: "provider_info \<Rightarrow> pipe_event \<Rightarrow> network_event \<Rightarrow> bool" where
  "carries info e ev \<longleftrightarrow>
     pe_info e = info \<and> TryResolveProvider info (pe_provider e) = Some (fst (event_source ev)) \<and>
     (\<forall>m. cache_true info m \<longrightarrow> cache_true info (pe_meanwhile e m)) \<and>
     (\<exists>name keywords version rest.
        let blob = le_bytes 4 (unat (snd (event_source ev))) @ wide_bytes name @ le_bytes 8 (unat (keywords :: u64)) @
              le_bytes 4 (unat (version :: u32)) @ rest
        in 0 \<notin> set name \<and> length blob < 2 ^ 32 \<and> pe_metadataBlob e = Some blob \<and> pe_cbMetadataBlob e = of_nat (length blob)) \<and>
     (\<exists>rest. let data = event_payload ev @ rest
        in length data < 2 ^ 32 \<and> pe_eventData e = data \<and> pe_cbEventData e = of_nat (length data)) \<and>
     (\<forall>s\<in>set (event_strings ev). 0 \<notin> set s)"

definition carried_call :: "pipe_event \<Rightarrow> network_event \<Rightarrow> net_env \<times> network_call" where
  "carried_call e ev = (pe_env e, event_call (pe_timestamp e) (pe_activity e) ev)"

lemma reads_event_info:
  "0 \<notin> set name \<Longrightarrow> reads read_event_info
     (le_bytes 4 (unat i) @ wide_bytes name @ le_bytes 8 (unat keywords) @ le_bytes 4 (unat version))
     \<lparr>ei_id = i, ei_name = name, ei_keywords = keywords, ei_version = version\<rparr>"
  unfolding read_event_info_def by (auto intro!: reads_then reads_last field_readers)

lemma TryGetEventInfo_blob:
  assumes "0 \<notin> set name" and "blob = le_bytes 4 (unat i) @ wide_bytes name @ le_bytes 8 (unat keywords) @ le_bytes 4 (unat version) @ rest"
    and "length blob < 2 ^ 32"
  shows "TryGetEventInfo (Some blob) (of_nat (length blob)) =
    Got \<lparr>ei_id = i, ei_name = name, ei_keywords = keywords, ei_version = version\<rparr>"
proof -
  have "read_event_info blob (of_nat (length blob)) 0 =
      Got (\<lparr>ei_id = i, ei_name = name, ei_keywords = keywords, ei_version = version\<rparr>,
        of_nat (length (le_bytes 4 (unat i) @ wide_bytes name @ le_bytes 8 (unat keywords) @ le_bytes 4 (unat version))))"
    using readsD [OF reads_event_info [OF assms(1), of i "keywords" version], of rest] assms(2,3) by simp
  moreover have "unat (of_nat (length blob) :: u32) = length blob" by (rule unat_of_nat_less) (use assms(3) in simp)
  then have "(of_nat (length blob) :: u32) \<noteq> 0" using assms(2) by (auto simp: length_wide_bytes)
  ultimately show ?thesis by (simp add: TryGetEventInfo_def)
qed

lemma GetProvider_true:
  assumes "cache_true info m" and "cache_true info (meanwhile m)" and "TryResolveProvider info p = Some r"
  shows "\<exists>m'. GetProvider info meanwhile p m = (r, m') \<and> cache_true info m'"
  using assms by (auto simp: GetProvider_def cache_true_def Let_def split: option.splits)

lemma event_source_bcl: "fst (event_source ev) \<noteq> UnknownProvider" "fst (event_source ev) \<noteq> Clr"
  by (cases ev; simp)+

lemma ParsePipeEvent_carries:
  assumes "carries info e ev" and "cache_true info (em_providers s)" and "em_pNetworkListener s = Some n"
    and "deliver (pe_env e) (event_call (pe_timestamp e) (pe_activity e) ev) n = Inr n'"
  shows "\<exists>m. ParsePipeEvent e s = Inr ([], s\<lparr>em_providers := m, em_pNetworkListener := Some n'\<rparr>) \<and> cache_true info m"
proof -
  obtain provider i where src: "event_source ev = (provider, i)" by (cases "event_source ev")
  obtain m where m: "GetProvider info (pe_meanwhile e) (pe_provider e) (em_providers s) = (provider, m)" "cache_true info m"
    using GetProvider_true [OF assms(2)] assms(1,2) src unfolding carries_def by fastforce
  obtain ei where ei: "TryGetEventInfo (pe_metadataBlob e) (pe_cbMetadataBlob e) = Got ei" "ei_id ei = i"
    using assms(1) src TryGetEventInfo_blob unfolding carries_def Let_def by fastforce
  have b: "ParseBclEvent True provider (pe_timestamp e) i (pe_eventData e) (pe_cbEventData e) (pe_activity e) =
      Got (event_call (pe_timestamp e) (pe_activity e) ev)"
    using assms(1) ParseBclEvent_event [OF _ src] unfolding carries_def Let_def by auto
  show ?thesis
    using m ei b assms(1,3,4) event_source_bcl [of ev] src
    by (intro exI [of _ m]) (simp add: ParsePipeEvent_def carries_def)
qed

text \<open>
  C5. From the bytes of the runtime to the requests: a stream of events that carry documented network events,
  in the encoding of the metadata and of the payloads, has on the network provider exactly the effect of the
  corresponding listener calls in the same order, and leaves the parser of the runtime's events alone.
\<close>

theorem network_stream_delivered:
  assumes "list_all2 (carries info) es evs" and "cache_true info (em_providers s)" and "em_pNetworkListener s = Some n"
    and "deliver_all (map2 carried_call es evs) n = Inr n'"
  shows "\<exists>s'. parse_pipe_events es s = Inr ([], s') \<and> em_pNetworkListener s' = Some n' \<and> em_clrParser s' = em_clrParser s"
  using assms
proof (induction es evs arbitrary: s n rule: list_all2_induct)
  case (Cons e es ev evs)
  obtain n1 where n1: "deliver (pe_env e) (event_call (pe_timestamp e) (pe_activity e) ev) n = Inr n1"
    "deliver_all (map2 carried_call es evs) n1 = Inr n'"
    using Cons.prems(3) by (auto simp: carried_call_def split: sum.splits)
  obtain m where m: "ParsePipeEvent e s = Inr ([], s\<lparr>em_providers := m, em_pNetworkListener := Some n1\<rparr>)" "cache_true info m"
    using ParsePipeEvent_carries [OF Cons.hyps(1) Cons.prems(1,2) n1(1)] by blast
  from Cons.IH [OF _ _ n1(2), of "s\<lparr>em_providers := m, em_pNetworkListener := Some n1\<rparr>"] m show ?case by auto
qed simp

theorem network_stream_delivered_witness:
  "\<forall>c. \<exists>s' n'. parse_pipe_events [demo_pipe_event] (newEventPipeEventsManager c (Some (newNetworkProvider True 0))) = Inr ([], s') \<and>
     em_pNetworkListener s' = Some n' \<and> np_requests n' demo_activity \<noteq> None"
proof
  fix c
  have r: "TryResolveProvider demo_info p = Some Http" for p by (simp add: TryResolveProvider_def demo_info_def wide_literal_def)
  have b: "length demo_blob < 2 ^ 32" "length (event_payload demo_start @ []) < 2 ^ 32" unfolding demo_lengths by simp_all
  have "carries demo_info demo_pipe_event demo_start"
    unfolding carries_def Let_def
  proof (intro conjI)
    show "\<exists>name kw version rest. 0 \<notin> set name \<and>
        length (le_bytes 4 (unat (snd (event_source demo_start))) @ wide_bytes name @ le_bytes 8 (unat (kw :: u64)) @ le_bytes 4 (unat (version :: u32)) @ rest) < 2 ^ 32 \<and>
        pe_metadataBlob demo_pipe_event = Some (le_bytes 4 (unat (snd (event_source demo_start))) @ wide_bytes name @ le_bytes 8 (unat kw) @ le_bytes 4 (unat version) @ rest) \<and>
        pe_cbMetadataBlob demo_pipe_event = of_nat (length (le_bytes 4 (unat (snd (event_source demo_start))) @ wide_bytes name @ le_bytes 8 (unat kw) @ le_bytes 4 (unat version) @ rest))"
      by (rule exI [of _ "[]"], rule exI [of _ 0], rule exI [of _ 0], rule exI [of _ "[]"])
        (simp add: demo_pipe_event_def demo_blob_def demo_start_def length_wide_bytes)
    show "\<exists>rest. length (event_payload demo_start @ rest) < 2 ^ 32 \<and> pe_eventData demo_pipe_event = event_payload demo_start @ rest \<and>
        pe_cbEventData demo_pipe_event = of_nat (length (event_payload demo_start @ rest))"
      by (rule exI [of _ "[]"]) (simp add: demo_pipe_event_def demo_start_def length_wide_bytes)
  qed (simp_all add: demo_pipe_event_def demo_start_def r)
  then have "list_all2 (carries demo_info) [demo_pipe_event] [demo_start]" by simp
  moreover obtain n' where n': "deliver_all (map2 carried_call [demo_pipe_event] [demo_start]) (newNetworkProvider True 0) = Inr n'"
    "np_requests n' demo_activity \<noteq> None"
    by (simp add: carried_call_def demo_pipe_event_def demo_start_def OnRequestStart_def demo_root CaptureThreadInfo_def
        newNetworkProvider_def demo_env_def demo_thread_def Let_def)
  moreover have "cache_true demo_info (em_providers (newEventPipeEventsManager c (Some (newNetworkProvider True 0))))"
    "em_pNetworkListener (newEventPipeEventsManager c (Some (newNetworkProvider True 0))) = Some (newNetworkProvider True 0)"
    by (simp_all add: newEventPipeEventsManager_def cache_true_def)
  ultimately show "\<exists>s' n'. parse_pipe_events [demo_pipe_event] (newEventPipeEventsManager c (Some (newNetworkProvider True 0))) = Inr ([], s') \<and>
     em_pNetworkListener s' = Some n' \<and> np_requests n' demo_activity \<noteq> None"
    using network_stream_delivered by blast
qed

end
