(* ===== verification/Fairness.thy ===== *)
theory Fairness
  imports Prelude
begin

text \<open>
  Infinite runs of a system whose actions are partial functions on its states, fairness of actions, and the
  interface by which a component with an inductive invariant gets the two proof rules for progress: an action
  that stays possible is eventually taken (weak fairness), an action that is possible again and again is
  eventually taken (strong fairness).
\<close>

text \<open>A run: its states, and the action of every step; without an action the state does not change.\<close>

definition is_run :: "('s \<Rightarrow> bool) \<Rightarrow> ('x \<Rightarrow> 's \<Rightarrow> 's option) \<Rightarrow> (nat \<Rightarrow> 's) \<Rightarrow> (nat \<Rightarrow> 'x option) \<Rightarrow> bool" where
  "is_run init exec st act \<longleftrightarrow> init (st 0) \<and>
     (\<forall>n. case act n of None \<Rightarrow> st (Suc n) = st n | Some x \<Rightarrow> exec x (st n) = Some (st (Suc n)))"

definition weakly_fair :: "('x \<Rightarrow> 's \<Rightarrow> 's option) \<Rightarrow> (nat \<Rightarrow> 's) \<Rightarrow> (nat \<Rightarrow> 'x option) \<Rightarrow> 'x \<Rightarrow> bool" where
  "weakly_fair exec st act x \<longleftrightarrow> (\<forall>n. (\<forall>m\<ge>n. exec x (st m) \<noteq> None) \<longrightarrow> (\<exists>m\<ge>n. act m = Some x))"

definition strongly_fair :: "('x \<Rightarrow> 's \<Rightarrow> 's option) \<Rightarrow> (nat \<Rightarrow> 's) \<Rightarrow> (nat \<Rightarrow> 'x option) \<Rightarrow> 'x \<Rightarrow> bool" where
  "strongly_fair exec st act x \<longleftrightarrow> (\<forall>n. (\<forall>m\<ge>n. \<exists>k\<ge>m. exec x (st k) \<noteq> None) \<longrightarrow> (\<exists>m\<ge>n. act m = Some x))"

lemma fair_if_disabled:
  assumes "\<And>n. N \<le> n \<Longrightarrow> exec x (st n) = None"
  shows "weakly_fair exec st act x" "strongly_fair exec st act x"
proof -
  show "weakly_fair exec st act x"
    unfolding weakly_fair_def using assms by (metis nat_le_linear order_refl)
  show "strongly_fair exec st act x"
    unfolding strongly_fair_def using assms by (metis nat_le_linear order_trans)
qed

text \<open>From \<open>P\<close> every action keeps \<open>P\<close> or establishes \<open>Q\<close>.\<close>

definition holds_unless :: "('x \<Rightarrow> 's \<Rightarrow> 's option) \<Rightarrow> ('s \<Rightarrow> bool) \<Rightarrow> ('s \<Rightarrow> bool) \<Rightarrow> ('s \<Rightarrow> bool) \<Rightarrow> bool" where
  "holds_unless exec I P Q \<longleftrightarrow> (\<forall>x s t. I s \<longrightarrow> P s \<longrightarrow> exec x s = Some t \<longrightarrow> P t \<or> Q t)"

locale action_system =
  fixes init :: "'s \<Rightarrow> bool"
    and exec :: "'x \<Rightarrow> 's \<Rightarrow> 's option"
    and inv :: "'s \<Rightarrow> bool"
  assumes init_inv: "init s \<Longrightarrow> inv s"
    and exec_inv: "inv s \<Longrightarrow> exec x s = Some t \<Longrightarrow> inv t"
begin

lemma run_inv: "is_run init exec st act \<Longrightarrow> inv (st n)"
proof (induction n)
  case 0
  then show ?case by (simp add: is_run_def init_inv)
next
  case (Suc n)
  then have "case act n of None \<Rightarrow> st (Suc n) = st n | Some x \<Rightarrow> exec x (st n) = Some (st (Suc n))" by (simp add: is_run_def)
  with Suc exec_inv show ?case by (auto split: option.splits)
qed

lemma run_step: "is_run init exec st act \<Longrightarrow> st (Suc n) = st n \<or> (\<exists>x. exec x (st n) = Some (st (Suc n)))"
  by (auto simp: is_run_def split: option.splits)

lemma run_act: "is_run init exec st act \<Longrightarrow> act n = Some x \<Longrightarrow> exec x (st n) = Some (st (Suc n))"
  by (auto simp: is_run_def split: option.splits)

lemma run_idle: "is_run init exec st act \<Longrightarrow> act n = None \<Longrightarrow> st (Suc n) = st n"
  unfolding is_run_def by (erule conjE, drule spec [of _ n]) simp

lemma stays_or_reached:
  assumes "is_run init exec st act" and "holds_unless exec inv P Q" and "P (st n)" and "\<forall>m\<ge>n. \<not> Q (st m)"
  shows "n \<le> m \<Longrightarrow> P (st m)"
proof (induction m rule: dec_induct)
  case (step m)
  from run_step [OF assms(1), of m] show ?case
    using step assms(2,4) run_inv [OF assms(1), of m] unfolding holds_unless_def by (metis le_Suc_eq)
qed (rule assms(3))

lemma weak_progress:
  assumes r: "is_run init exec st act" and u: "holds_unless exec inv P Q" and p: "P (st n)"
    and f: "weakly_fair exec st act x"
    and e: "\<And>s. inv s \<Longrightarrow> P s \<Longrightarrow> exec x s \<noteq> None" and q: "\<And>s t. inv s \<Longrightarrow> P s \<Longrightarrow> exec x s = Some t \<Longrightarrow> Q t"
  shows "\<exists>m\<ge>n. Q (st m)"
proof (rule ccontr)
  assume "\<not> (\<exists>m\<ge>n. Q (st m))"
  then have nq: "\<forall>m\<ge>n. \<not> Q (st m)" by blast
  note P = stays_or_reached [OF r u p nq]
  have "\<forall>m\<ge>n. exec x (st m) \<noteq> None" using e P run_inv [OF r] by blast
  then obtain m where m: "n \<le> m" "act m = Some x" using f unfolding weakly_fair_def by blast
  have "Q (st (Suc m))" using q [OF run_inv [OF r] P [OF m(1)] run_act [OF r m(2)]] .
  then show False using nq m(1) by simp
qed

lemma strong_progress:
  assumes r: "is_run init exec st act" and u: "holds_unless exec inv P Q" and p: "P (st n)"
    and f: "strongly_fair exec st act x"
    and e: "\<And>m. n \<le> m \<Longrightarrow> \<exists>k\<ge>m. P (st k) \<longrightarrow> exec x (st k) \<noteq> None"
    and q: "\<And>s t. inv s \<Longrightarrow> P s \<Longrightarrow> exec x s = Some t \<Longrightarrow> Q t"
  shows "\<exists>m\<ge>n. Q (st m)"
proof (rule ccontr)
  assume "\<not> (\<exists>m\<ge>n. Q (st m))"
  then have nq: "\<forall>m\<ge>n. \<not> Q (st m)" by blast
  note P = stays_or_reached [OF r u p nq]
  have "\<forall>m\<ge>n. \<exists>k\<ge>m. exec x (st k) \<noteq> None" using e P by (meson order_trans)
  then obtain m where m: "n \<le> m" "act m = Some x" using f unfolding strongly_fair_def by blast
  have "Q (st (Suc m))" using q [OF run_inv [OF r] P [OF m(1)] run_act [OF r m(2)]] .
  then show False using nq m(1) by simp
qed

end

lemma eventually_then:
  assumes "\<exists>m\<ge>n. Q m" and "\<And>m. n \<le> m \<Longrightarrow> Q m \<Longrightarrow> \<exists>k\<ge>m. R k"
  shows "\<exists>k\<ge>(n :: nat). R k"
  using assms by (meson order_trans)

end
