(* ===== verification/ResetEvent.thy ===== *)
theory ResetEvent
  imports Fairness
begin

text \<open>
  The auto-reset event of the Linux profiler (\<open>AutoResetEvent.cpp\<close>): any number of producer threads call
  \<open>Set\<close>, one consumer thread calls \<open>Wait\<close>. The steps of the threads are the calls of the mutex and of the
  condition variable and the accesses of the flag between them; they are interleaved in any way. The condition
  variable may wake the consumer without a reason, and a wait with a timeout may time out at any moment.
\<close>

section \<open>The deadline of a wait\<close>

text \<open>Seconds and nanoseconds are 64-bit integers; the timeout is in milliseconds.\<close>

record timespec =
  tv_sec :: int
  tv_nsec :: int

definition wait_deadline :: "timespec \<Rightarrow> int \<Rightarrow> timespec" where
  "wait_deadline now timeout =
     (let nsec = tv_nsec now + timeout mod 1000 * 1000000;
          sec = tv_sec now + timeout div 1000
      in if nsec \<ge> 1000000000 then \<lparr>tv_sec = sec + 1, tv_nsec = nsec - 1000000000\<rparr>
         else \<lparr>tv_sec = sec, tv_nsec = nsec\<rparr>)"

section \<open>Threads\<close>

text \<open>The consumer: its position in \<open>Wait\<close>. Outside of it, the value that the last call returned.\<close>

datatype consumer =
    Outside "bool option"
  | Entering
  | Testing
  | Waiting
  | Woken bool
  | Leaving bool

datatype producer = Idle | Locking | Setting | Signaling | Unlocking

datatype owner = Consumer | Producer nat

record AutoResetEvent =
  ar_mutex :: "owner option"
  ar_isSet :: bool
  ar_signaled :: bool
  ar_consumer :: consumer
  ar_infinite :: bool
  ar_producers :: "nat \<Rightarrow> producer"

datatype wait_action = CallWait bool | WaitLock | WaitTest | Wake | WakeSpurious | WakeTimeout | WaitRelock | WaitReturn

datatype set_action = CallSet | SetLock | SetFlag | SetSignal | SetUnlock

datatype event_action = ByConsumer wait_action | ByProducer nat set_action

definition newAutoResetEvent :: "bool \<Rightarrow> AutoResetEvent" where
  "newAutoResetEvent initialValue = \<lparr>ar_mutex = None, ar_isSet = initialValue, ar_signaled = False,
     ar_consumer = Outside None, ar_infinite = False, ar_producers = (\<lambda>_. Idle)\<rparr>"

text \<open>
  \<open>Wait\<close>: \<open>Woken b\<close> is the return from the wait on the condition variable, after a timeout if \<open>b\<close>, before
  the mutex is taken again; \<open>Leaving b\<close> is the end of the loop with \<open>isSignaled = b\<close>.
\<close>

fun Wait_step :: "wait_action \<Rightarrow> AutoResetEvent \<Rightarrow> AutoResetEvent option" where
  "Wait_step (CallWait forever) s =
     (case ar_consumer s of Outside _ \<Rightarrow> Some (s\<lparr>ar_consumer := Entering, ar_infinite := forever\<rparr>) | _ \<Rightarrow> None)"
| "Wait_step WaitLock s =
     (if ar_consumer s = Entering \<and> ar_mutex s = None then Some (s\<lparr>ar_mutex := Some Consumer, ar_consumer := Testing\<rparr>) else None)"
| "Wait_step WaitTest s =
     (if ar_consumer s = Testing then
        if ar_isSet s then Some (s\<lparr>ar_consumer := Leaving True\<rparr>)
        else Some (s\<lparr>ar_mutex := None, ar_signaled := False, ar_consumer := Waiting\<rparr>)
      else None)"
| "Wait_step Wake s =
     (if ar_consumer s = Waiting \<and> ar_signaled s then Some (s\<lparr>ar_consumer := Woken False\<rparr>) else None)"
| "Wait_step WakeSpurious s = (if ar_consumer s = Waiting then Some (s\<lparr>ar_consumer := Woken False\<rparr>) else None)"
| "Wait_step WakeTimeout s =
     (if ar_consumer s = Waiting \<and> \<not> ar_infinite s then Some (s\<lparr>ar_consumer := Woken True\<rparr>) else None)"
| "Wait_step WaitRelock s =
     (case ar_consumer s of
        Woken timedOut \<Rightarrow>
          if ar_mutex s = None then
            Some (s\<lparr>ar_mutex := Some Consumer, ar_consumer := (if timedOut then Leaving (ar_isSet s) else Testing)\<rparr>)
          else None
      | _ \<Rightarrow> None)"
| "Wait_step WaitReturn s =
     (case ar_consumer s of
        Leaving isSignaled \<Rightarrow> Some (s\<lparr>ar_isSet := False, ar_mutex := None, ar_consumer := Outside (Some isSignaled)\<rparr>)
      | _ \<Rightarrow> None)"

fun Set_step :: "nat \<Rightarrow> set_action \<Rightarrow> AutoResetEvent \<Rightarrow> AutoResetEvent option" where
  "Set_step i CallSet s =
     (if ar_producers s i = Idle then Some (s\<lparr>ar_producers := (ar_producers s)(i := Locking)\<rparr>) else None)"
| "Set_step i SetLock s =
     (if ar_producers s i = Locking \<and> ar_mutex s = None
      then Some (s\<lparr>ar_mutex := Some (Producer i), ar_producers := (ar_producers s)(i := Setting)\<rparr>) else None)"
| "Set_step i SetFlag s =
     (if ar_producers s i = Setting
      then Some (s\<lparr>ar_isSet := True, ar_producers := (ar_producers s)(i := Signaling)\<rparr>) else None)"
| "Set_step i SetSignal s =
     (if ar_producers s i = Signaling
      then Some (s\<lparr>ar_signaled := ar_signaled s \<or> ar_consumer s = Waiting, ar_producers := (ar_producers s)(i := Unlocking)\<rparr>) else None)"
| "Set_step i SetUnlock s =
     (if ar_producers s i = Unlocking
      then Some (s\<lparr>ar_mutex := None, ar_producers := (ar_producers s)(i := Idle)\<rparr>) else None)"

fun event_exec :: "event_action \<Rightarrow> AutoResetEvent \<Rightarrow> AutoResetEvent option" where
  "event_exec (ByConsumer x) s = Wait_step x s"
| "event_exec (ByProducer i x) s = Set_step i x s"

definition event_init :: "AutoResetEvent \<Rightarrow> bool" where
  "event_init s \<longleftrightarrow> (\<exists>b. s = newAutoResetEvent b)"

section \<open>The invariant\<close>

text \<open>Who holds the mutex.\<close>

definition holds_mutex :: "producer \<Rightarrow> bool" where
  "holds_mutex p \<longleftrightarrow> p = Setting \<or> p = Signaling \<or> p = Unlocking"

definition mutex_inv :: "AutoResetEvent \<Rightarrow> bool" where
  "mutex_inv s \<longleftrightarrow>
     (ar_mutex s = Some Consumer \<longleftrightarrow> ar_consumer s = Testing \<or> (\<exists>b. ar_consumer s = Leaving b)) \<and>
     (\<forall>i. ar_mutex s = Some (Producer i) \<longleftrightarrow> holds_mutex (ar_producers s i))"

text \<open>A set flag never leaves the consumer waiting without a signal on its way.\<close>

definition signal_inv :: "AutoResetEvent \<Rightarrow> bool" where
  "signal_inv s \<longleftrightarrow> ar_isSet s \<longrightarrow> ar_consumer s = Waiting \<longrightarrow> ar_signaled s \<or> (\<exists>i. ar_producers s i = Signaling)"

text \<open>The consumer leaves with the value of the flag, which without a timeout is true.\<close>

definition leaving_inv :: "AutoResetEvent \<Rightarrow> bool" where
  "leaving_inv s \<longleftrightarrow>
     (\<forall>b. ar_consumer s = Leaving b \<longrightarrow> b = ar_isSet s) \<and>
     (ar_infinite s \<longrightarrow> ar_consumer s \<noteq> Woken True \<and> ar_consumer s \<noteq> Leaving False)"

definition event_inv :: "AutoResetEvent \<Rightarrow> bool" where
  "event_inv s \<longleftrightarrow> mutex_inv s \<and> signal_inv s \<and> leaving_inv s"

lemmas event_invs = mutex_inv_def signal_inv_def leaving_inv_def

lemma event_init_inv: "event_init s \<Longrightarrow> event_inv s"
  by (auto simp: event_init_def newAutoResetEvent_def event_inv_def event_invs holds_mutex_def)

lemma Wait_step_inv: "event_inv s \<Longrightarrow> Wait_step x s = Some t \<Longrightarrow> event_inv t"
  by (cases x) (auto simp: event_inv_def event_invs split: consumer.splits if_splits)

lemma Set_step_mutex: "mutex_inv s \<Longrightarrow> Set_step i x s = Some t \<Longrightarrow> mutex_inv t"
proof -
  assume m: "mutex_inv s" and t: "Set_step i x s = Some t"
  have c: "ar_consumer t = ar_consumer s" using t by (cases x) (auto split: if_splits)
  have o: "ar_mutex t = Some Consumer \<longleftrightarrow> ar_mutex s = Some Consumer"
    using t m by (cases x) (auto simp: mutex_inv_def holds_mutex_def split: if_splits)
  have p: "ar_mutex s = Some (Producer j) \<longleftrightarrow> holds_mutex (ar_producers s j)" for j
    using m by (simp add: mutex_inv_def)
  have u: "holds_mutex (ar_producers s i) \<Longrightarrow> holds_mutex (ar_producers s j) \<Longrightarrow> j = i" for j
    using p [of i] p [of j] by auto
  have "ar_mutex t = Some (Producer j) \<longleftrightarrow> holds_mutex (ar_producers t j)" for j
    using t p [of j] u [of j] by (cases x; cases "j = i") (auto simp: holds_mutex_def split: if_splits)
  then show ?thesis using m unfolding mutex_inv_def c o by blast
qed

lemma Set_step_signal:
  assumes "signal_inv s" and t: "Set_step i x s = Some t"
  shows "signal_inv t"
  unfolding signal_inv_def
proof (intro impI)
  assume f: "ar_isSet t" and w: "ar_consumer t = Waiting"
  have c: "ar_consumer s = Waiting" using t w by (cases x) (auto split: if_splits)
  show "ar_signaled t \<or> (\<exists>i. ar_producers t i = Signaling)"
  proof (cases "x = SetFlag \<or> x = SetSignal")
    case True
    then have "ar_signaled t \<or> ar_producers t i = Signaling" using t c by (auto split: if_splits)
    then show ?thesis by blast
  next
    case False
    then have s: "ar_isSet s" "ar_signaled t = ar_signaled s" "ar_producers s i \<noteq> Signaling"
      "j \<noteq> i \<Longrightarrow> ar_producers t j = ar_producers s j" for j
      using t f by (cases x; auto split: if_splits)+
    then show ?thesis using assms(1) c unfolding signal_inv_def by metis
  qed
qed

lemma Set_step_leaving: "mutex_inv s \<Longrightarrow> leaving_inv s \<Longrightarrow> Set_step i x s = Some t \<Longrightarrow> leaving_inv t"
proof -
  assume m: "mutex_inv s" and l: "leaving_inv s" and t: "Set_step i x s = Some t"
  have "x = SetFlag \<Longrightarrow> ar_mutex s = Some (Producer i)" using t m by (auto simp: mutex_inv_def holds_mutex_def split: if_splits)
  then have "x = SetFlag \<Longrightarrow> \<not> (\<exists>b. ar_consumer s = Leaving b)" using m unfolding mutex_inv_def by force
  then show ?thesis using l t unfolding leaving_inv_def by (cases x) (auto split: if_splits)
qed

lemma event_exec_inv: "event_inv s \<Longrightarrow> event_exec x s = Some t \<Longrightarrow> event_inv t"
  by (cases x) (simp_all add: Wait_step_inv, metis event_inv_def Set_step_mutex Set_step_signal Set_step_leaving)

interpretation ev: action_system event_init event_exec event_inv
  by unfold_locales (auto intro: event_init_inv event_exec_inv)

section \<open>A set flag is never lost\<close>

definition in_wait :: "AutoResetEvent \<Rightarrow> bool" where
  "in_wait s \<longleftrightarrow> (\<forall>r. ar_consumer s \<noteq> Outside r)"

lemma Set_step_consumer:
  "Set_step j y s = Some t \<Longrightarrow> ar_consumer t = ar_consumer s \<and> ar_infinite t = ar_infinite s \<and>
     (ar_isSet s \<longrightarrow> ar_isSet t) \<and> (ar_signaled s \<longrightarrow> ar_signaled t)"
  by (cases y) (auto split: if_splits)

lemma Wait_step_flag:
  "leaving_inv s \<Longrightarrow> Wait_step y s = Some t \<Longrightarrow>
     (ar_isSet s \<and> \<not> ar_isSet t \<longrightarrow> y = WaitReturn \<and> ar_consumer t = Outside (Some True)) \<and>
     (y = WaitReturn \<and> ar_consumer t = Outside (Some False) \<longrightarrow> \<not> ar_isSet s \<and> \<not> ar_infinite s)"
  unfolding leaving_inv_def by (cases y) (auto split: consumer.splits if_splits)

lemma event_exec_flag:
  assumes "event_inv s" and "event_exec x s = Some t"
  shows "(ar_isSet s \<and> \<not> ar_isSet t \<longrightarrow> x = ByConsumer WaitReturn \<and> ar_consumer t = Outside (Some True)) \<and>
    (x = ByConsumer WaitReturn \<and> ar_consumer t = Outside (Some False) \<longrightarrow> \<not> ar_isSet s \<and> \<not> ar_infinite s)"
proof (cases x)
  case (ByConsumer y)
  have "leaving_inv s" using assms(1) by (simp add: event_inv_def)
  moreover have "Wait_step y s = Some t" using assms(2) unfolding ByConsumer event_exec.simps .
  ultimately show ?thesis using Wait_step_flag [of s y t] unfolding ByConsumer event_action.inject by blast
next
  case (ByProducer j y)
  have "Set_step j y s = Some t" using assms(2) unfolding ByProducer event_exec.simps .
  from Set_step_consumer [OF this] show ?thesis unfolding ByProducer by simp
qed

text \<open>
  C22. In every interleaving of the threads, the flag that \<open>Set\<close> raises is taken back only by a \<open>Wait\<close> that
  returns true. A \<open>Wait\<close> that returns false had a timeout, and the flag was not set when it returned, also
  when the timeout and a call of \<open>Set\<close> race.
\<close>

theorem set_flag_never_lost:
  assumes "is_run event_init event_exec st act"
  shows "(ar_isSet (st n) \<and> \<not> ar_isSet (st (Suc n)) \<longrightarrow>
      act n = Some (ByConsumer WaitReturn) \<and> ar_consumer (st (Suc n)) = Outside (Some True)) \<and>
    (act n = Some (ByConsumer WaitReturn) \<and> ar_consumer (st (Suc n)) = Outside (Some False) \<longrightarrow>
      \<not> ar_isSet (st n) \<and> \<not> ar_infinite (st n))"
proof (cases "act n")
  case None
  show ?thesis unfolding ev.run_idle [OF assms None] None by simp
next
  case (Some x)
  from event_exec_flag [OF ev.run_inv [OF assms] ev.run_act [OF assms Some]]
  show ?thesis unfolding Some option.inject .
qed

section \<open>Waiting ends\<close>

text \<open>
  The scheduler: a thread that can go on without the mutex does so, a signal arrives, and a thread that waits
  for the mutex gets it if it is free again and again.
\<close>

definition fair_threads :: "(nat \<Rightarrow> AutoResetEvent) \<Rightarrow> (nat \<Rightarrow> event_action option) \<Rightarrow> bool" where
  "fair_threads st act \<longleftrightarrow>
     (\<forall>x\<in>{WaitTest, Wake, WaitReturn}. weakly_fair event_exec st act (ByConsumer x)) \<and>
     (\<forall>i. \<forall>x\<in>{SetFlag, SetSignal, SetUnlock}. weakly_fair event_exec st act (ByProducer i x)) \<and>
     (\<forall>x\<in>{WaitLock, WaitRelock}. strongly_fair event_exec st act (ByConsumer x)) \<and>
     (\<forall>i. strongly_fair event_exec st act (ByProducer i SetLock))"

lemma fair_threadsD:
  assumes "fair_threads st act"
  shows "weakly_fair event_exec st act (ByConsumer WaitTest)" "weakly_fair event_exec st act (ByConsumer Wake)"
    "weakly_fair event_exec st act (ByConsumer WaitReturn)" "weakly_fair event_exec st act (ByProducer i SetFlag)"
    "weakly_fair event_exec st act (ByProducer i SetSignal)" "weakly_fair event_exec st act (ByProducer i SetUnlock)"
    "strongly_fair event_exec st act (ByConsumer WaitLock)" "strongly_fair event_exec st act (ByConsumer WaitRelock)"
    "strongly_fair event_exec st act (ByProducer i SetLock)"
  using assms by (simp_all add: fair_threads_def)

lemma holds_unlessI:
  assumes "\<And>y s t. event_inv s \<Longrightarrow> P s \<Longrightarrow> Wait_step y s = Some t \<Longrightarrow> P t \<or> Q t"
    and "\<And>j y s t. event_inv s \<Longrightarrow> P s \<Longrightarrow> Set_step j y s = Some t \<Longrightarrow> P t \<or> Q t"
  shows "holds_unless event_exec event_inv P Q"
  unfolding holds_unless_def
proof (intro allI impI)
  fix x s t
  assume "event_inv s" "P s" "event_exec x s = Some t"
  then show "P t \<or> Q t" using assms by (cases x) auto
qed

lemma weak_rule:
  assumes r: "is_run event_init event_exec st act" and f: "weakly_fair event_exec st act x" and p: "P (st n)"
    and w: "\<And>y s t. event_inv s \<Longrightarrow> P s \<Longrightarrow> Wait_step y s = Some t \<Longrightarrow> P t \<or> Q t"
    and s: "\<And>j y s t. event_inv s \<Longrightarrow> P s \<Longrightarrow> Set_step j y s = Some t \<Longrightarrow> P t \<or> Q t"
    and e: "\<And>s. event_inv s \<Longrightarrow> P s \<Longrightarrow> \<exists>t. event_exec x s = Some t \<and> Q t"
  shows "\<exists>m\<ge>n. Q (st m)"
proof (rule ev.weak_progress [where P = P and x = x, OF r _ p f])
  show "holds_unless event_exec event_inv P Q" by (rule holds_unlessI) (fact w, fact s)
  show "event_exec x s \<noteq> None" if "event_inv s" "P s" for s using e [OF that] by auto
  show "Q t" if "event_inv s" "P s" "event_exec x s = Some t" for s t using e [OF that(1,2)] that(3) by auto
qed

text \<open>Actions that take the mutex.\<close>

lemma strong_rule:
  assumes r: "is_run event_init event_exec st act" and f: "strongly_fair event_exec st act x" and p: "P (st n)"
    and m: "\<And>n. \<exists>m\<ge>n. ar_mutex (st m) = None"
    and w: "\<And>y s t. event_inv s \<Longrightarrow> P s \<Longrightarrow> Wait_step y s = Some t \<Longrightarrow> P t \<or> Q t"
    and s: "\<And>j y s t. event_inv s \<Longrightarrow> P s \<Longrightarrow> Set_step j y s = Some t \<Longrightarrow> P t \<or> Q t"
    and e: "\<And>s. P s \<Longrightarrow> ar_mutex s = None \<Longrightarrow> event_exec x s \<noteq> None"
    and q: "\<And>s t. event_inv s \<Longrightarrow> P s \<Longrightarrow> event_exec x s = Some t \<Longrightarrow> Q t"
  shows "\<exists>m\<ge>n. Q (st m)"
proof (rule ev.strong_progress [where P = P and x = x, OF r _ p f])
  show "holds_unless event_exec event_inv P Q" by (rule holds_unlessI) (fact w, fact s)
  show "\<exists>k\<ge>m. P (st k) \<longrightarrow> event_exec x (st k) \<noteq> None" for m using m [of m] e by blast
qed (fact q)

lemma Wait_step_producers: "Wait_step y s = Some t \<Longrightarrow> ar_producers t = ar_producers s"
  by (cases y) (auto split: consumer.splits if_splits)

lemma Set_step_producers:
  "Set_step j y s = Some t \<Longrightarrow> ar_producers t i = ar_producers s i \<or>
     ar_producers s i = Idle \<and> ar_producers t i = Locking \<or> ar_producers s i = Locking \<and> ar_producers t i = Setting \<or>
     ar_producers s i = Setting \<and> ar_producers t i = Signaling \<and> ar_isSet t \<or>
     ar_producers s i = Signaling \<and> ar_producers t i = Unlocking \<or>
     ar_producers s i = Unlocking \<and> ar_producers t i = Idle \<and> ar_mutex t = None"
  by (cases y; simp split: if_splits; cases "j = i"; clarsimp)

lemma producer_signals:
  assumes r: "is_run event_init event_exec st act" and f: "fair_threads st act" and "ar_producers (st n) i = Setting"
  shows "\<exists>m\<ge>n. ar_producers (st m) i = Signaling"
  by (rule weak_rule [where P = "\<lambda>s. ar_producers s i = Setting", OF r fair_threadsD(4) [OF f] assms(3)])
    (auto dest: Wait_step_producers Set_step_producers [where i = i])

lemma producer_unlocks:
  assumes r: "is_run event_init event_exec st act" and f: "fair_threads st act" and "ar_producers (st n) i = Signaling"
  shows "\<exists>m\<ge>n. ar_producers (st m) i = Unlocking"
  by (rule weak_rule [where P = "\<lambda>s. ar_producers s i = Signaling", OF r fair_threadsD(5) [OF f] assms(3)])
    (auto dest: Wait_step_producers Set_step_producers [where i = i])

lemma producer_ends:
  assumes r: "is_run event_init event_exec st act" and f: "fair_threads st act" and "ar_producers (st n) i = Unlocking"
  shows "\<exists>m\<ge>n. ar_mutex (st m) = None"
  by (rule weak_rule [where P = "\<lambda>s. ar_producers s i = Unlocking", OF r fair_threadsD(6) [OF f] assms(3)])
    (auto dest: Wait_step_producers Set_step_producers [where i = i])

text \<open>What the consumer does where it holds the mutex.\<close>

lemma consumer_leaves:
  assumes r: "is_run event_init event_exec st act" and f: "fair_threads st act" and "ar_consumer (st n) = Leaving b"
  shows "\<exists>m\<ge>n. ar_consumer (st m) = Outside (Some b) \<and> ar_mutex (st m) = None"
proof (rule weak_rule [where P = "\<lambda>s. ar_consumer s = Leaving b", OF r fair_threadsD(3) [OF f] assms(3)])
  show "ar_consumer t = Leaving b \<or> ar_consumer t = Outside (Some b) \<and> ar_mutex t = None"
    if "ar_consumer s = Leaving b" "Wait_step y s = Some t" for y s t
    using that by (cases y) (auto split: if_splits)
qed (auto dest: Set_step_consumer)

lemma consumer_tests:
  assumes r: "is_run event_init event_exec st act" and f: "fair_threads st act" and "ar_consumer (st n) = Testing"
  shows "\<exists>m\<ge>n. ar_consumer (st m) = Leaving True \<or> ar_mutex (st m) = None"
proof (rule weak_rule [where P = "\<lambda>s. ar_consumer s = Testing", OF r fair_threadsD(1) [OF f] assms(3)])
  show "ar_consumer t = Testing \<or> ar_consumer t = Leaving True \<or> ar_mutex t = None"
    if "ar_consumer s = Testing" "Wait_step y s = Some t" for y s t
    using that by (cases y) (auto split: if_splits)
qed (auto dest: Set_step_consumer)

lemma mutex_released:
  assumes r: "is_run event_init event_exec st act" and f: "fair_threads st act"
  shows "\<exists>m\<ge>n. ar_mutex (st m) = None"
proof -
  have g: "\<exists>m\<ge>n. ar_mutex (st m) = None" if "ar_producers (st n) i = Signaling" for n i
    by (rule eventually_then [OF producer_unlocks [OF r f that]]) (rule producer_ends [OF r f])
  have s: "\<exists>m\<ge>n. ar_mutex (st m) = None" if "ar_producers (st n) i = Setting" for n i
    by (rule eventually_then [OF producer_signals [OF r f that]]) (rule g)
  have l: "\<exists>m\<ge>n. ar_mutex (st m) = None" if "ar_consumer (st n) = Leaving b" for n b
    using consumer_leaves [OF r f that] by blast
  have t: "\<exists>m\<ge>n. ar_mutex (st m) = None" if "ar_consumer (st n) = Testing" for n
    by (rule eventually_then [OF consumer_tests [OF r f that]]) (use l in blast)
  have i: "mutex_inv (st n)" using ev.run_inv [OF r, of n] by (simp add: event_inv_def)
  show ?thesis
  proof (cases "ar_mutex (st n)")
    case (Some h)
    show ?thesis
    proof (cases h)
      case Consumer
      then show ?thesis using Some i l t unfolding mutex_inv_def by blast
    next
      case (Producer j)
      then have "holds_mutex (ar_producers (st n) j)" using Some i unfolding mutex_inv_def by blast
      then show ?thesis using s g producer_ends [OF r f] unfolding holds_mutex_def by blast
    qed
  qed blast
qed

text \<open>The way of the consumer through \<open>Wait\<close> once the flag is set.\<close>

lemma Wait_step_set:
  assumes "Wait_step y s = Some t" and "ar_isSet s"
  shows "ar_consumer s = Entering \<Longrightarrow> ar_isSet t \<and> ar_consumer t = Testing"
    and "ar_consumer s = Testing \<Longrightarrow> ar_consumer t = Leaving True"
    and "ar_consumer s = Waiting \<Longrightarrow> ar_isSet t \<and> (\<exists>b. ar_consumer t = Woken b)"
    and "ar_consumer s = Woken c \<Longrightarrow> ar_isSet t \<and> ar_consumer t = Testing \<or> ar_consumer t = Leaving True"
  using assms by (cases y; auto split: if_splits)+

lemma from_testing:
  assumes r: "is_run event_init event_exec st act" and f: "fair_threads st act"
    and p: "ar_isSet (st n) \<and> ar_consumer (st n) = Testing"
  shows "\<exists>m\<ge>n. ar_consumer (st m) = Leaving True"
  by (rule weak_rule [where P = "\<lambda>s. ar_isSet s \<and> ar_consumer s = Testing", OF r fair_threadsD(1) [OF f] p])
    (auto dest: Set_step_consumer Wait_step_set(2))

lemma from_woken:
  assumes r: "is_run event_init event_exec st act" and f: "fair_threads st act"
    and p: "ar_isSet (st n) \<and> ar_consumer (st n) = Woken b"
  shows "\<exists>m\<ge>n. ar_isSet (st m) \<and> ar_consumer (st m) = Testing \<or> ar_consumer (st m) = Leaving True"
  by (rule strong_rule [where P = "\<lambda>s. ar_isSet s \<and> ar_consumer s = Woken b", OF r fair_threadsD(8) [OF f] p mutex_released [OF r f]])
    (auto dest: Set_step_consumer Wait_step_set(4) split: if_splits)

lemma from_entering:
  assumes r: "is_run event_init event_exec st act" and f: "fair_threads st act"
    and p: "ar_isSet (st n) \<and> ar_consumer (st n) = Entering"
  shows "\<exists>m\<ge>n. ar_isSet (st m) \<and> ar_consumer (st m) = Testing"
  by (rule strong_rule [where P = "\<lambda>s. ar_isSet s \<and> ar_consumer s = Entering", OF r fair_threadsD(7) [OF f] p mutex_released [OF r f]])
    (auto dest: Set_step_consumer Wait_step_set(1) split: if_splits)

lemma from_signaled:
  assumes r: "is_run event_init event_exec st act" and f: "fair_threads st act"
    and p: "ar_isSet (st n) \<and> ar_consumer (st n) = Waiting \<and> ar_signaled (st n)"
  shows "\<exists>m\<ge>n. ar_isSet (st m) \<and> (\<exists>b. ar_consumer (st m) = Woken b)"
  by (rule weak_rule [where P = "\<lambda>s. ar_isSet s \<and> ar_consumer s = Waiting \<and> ar_signaled s", OF r fair_threadsD(2) [OF f] p])
    (auto dest: Set_step_consumer Wait_step_set(3))

lemma Set_step_signaling:
  "Set_step j y s = Some t \<Longrightarrow> ar_consumer s = Waiting \<Longrightarrow> ar_producers s i = Signaling \<Longrightarrow>
     ar_producers t i = Signaling \<or> ar_signaled t"
  by (cases y; cases "j = i") (auto split: if_splits)

lemma from_signaling:
  assumes r: "is_run event_init event_exec st act" and f: "fair_threads st act"
    and p: "ar_isSet (st n) \<and> ar_consumer (st n) = Waiting \<and> ar_producers (st n) i = Signaling"
  shows "\<exists>m\<ge>n. ar_isSet (st m) \<and> (ar_consumer (st m) = Waiting \<and> ar_signaled (st m) \<or> (\<exists>b. ar_consumer (st m) = Woken b))"
  by (rule weak_rule [where P = "\<lambda>s. ar_isSet s \<and> ar_consumer s = Waiting \<and> ar_producers s i = Signaling",
        OF r fair_threadsD(5) [OF f] p])
    (auto dest: Set_step_consumer Wait_step_set(3) Set_step_signaling)

lemma waiting_ends:
  assumes r: "is_run event_init event_exec st act" and f: "fair_threads st act" and "in_wait (st n)" and "ar_isSet (st n)"
  shows "\<exists>m\<ge>n. ar_consumer (st m) = Outside (Some True)"
proof -
  let ?goal = "\<lambda>n. \<exists>m\<ge>n. ar_consumer (st m) = Outside (Some True)"
  have leaving: "?goal n" if "ar_consumer (st n) = Leaving True" for n
    using consumer_leaves [OF r f that] by blast
  have testing: "?goal n" if "ar_isSet (st n) \<and> ar_consumer (st n) = Testing" for n
    by (rule eventually_then [OF from_testing [OF r f that] leaving])
  have entering: "?goal n" if "ar_isSet (st n) \<and> ar_consumer (st n) = Entering" for n
    by (rule eventually_then [OF from_entering [OF r f that] testing])
  have woken: "?goal n" if w: "ar_isSet (st n) \<and> (\<exists>b. ar_consumer (st n) = Woken b)" for n
  proof -
    obtain b where "ar_isSet (st n) \<and> ar_consumer (st n) = Woken b" using w by blast
    from from_woken [OF r f this] show ?thesis by (rule eventually_then) (use leaving testing in blast)
  qed
  have signaled: "?goal n" if "ar_isSet (st n) \<and> ar_consumer (st n) = Waiting \<and> ar_signaled (st n)" for n
    by (rule eventually_then [OF from_signaled [OF r f that] woken])
  have signaling: "?goal n" if "ar_isSet (st n) \<and> ar_consumer (st n) = Waiting \<and> ar_producers (st n) i = Signaling" for n i
    by (rule eventually_then [OF from_signaling [OF r f that]]) (use signaled woken in blast)
  have i: "signal_inv (st n)" "leaving_inv (st n)" using ev.run_inv [OF r, of n] by (simp_all add: event_inv_def)
  show ?thesis
  proof (cases "ar_consumer (st n)")
    case Waiting
    then show ?thesis using i(1) assms(4) signaled signaling unfolding signal_inv_def by blast
  next
    case (Leaving b)
    moreover have "b = True" using Leaving i(2) assms(4) unfolding leaving_inv_def by blast
    ultimately show ?thesis using leaving by blast
  next
    case (Outside v)
    then show ?thesis using assms(3) unfolding in_wait_def by blast
  next
    case Entering
    then show ?thesis using assms(4) entering by blast
  next
    case Testing
    then show ?thesis using assms(4) testing by blast
  next
    case (Woken b)
    then show ?thesis using assms(4) woken by blast
  qed
qed

text \<open>A wait without a timeout that meets a call of \<open>Set\<close>.\<close>

lemma Wait_step_infinite:
  "event_inv s \<Longrightarrow> ar_infinite s \<Longrightarrow> in_wait s \<Longrightarrow> Wait_step y s = Some t \<Longrightarrow>
     ar_infinite t \<and> in_wait t \<or> ar_consumer t = Outside (Some True)"
  by (cases y) (auto simp: in_wait_def event_inv_def leaving_inv_def split: consumer.splits if_splits)

lemma Set_step_in_wait: "Set_step j y s = Some t \<Longrightarrow> in_wait t = in_wait s \<and> ar_infinite t = ar_infinite s"
  using Set_step_consumer [of j y s t] by (simp add: in_wait_def)

lemma from_locking:
  assumes r: "is_run event_init event_exec st act" and f: "fair_threads st act"
    and p: "ar_infinite (st n) \<and> in_wait (st n) \<and> ar_producers (st n) i = Locking"
  shows "\<exists>m\<ge>n. ar_consumer (st m) = Outside (Some True) \<or>
    ar_infinite (st m) \<and> in_wait (st m) \<and> ar_producers (st m) i = Setting"
proof (rule strong_rule [where P = "\<lambda>s. ar_infinite s \<and> in_wait s \<and> ar_producers s i = Locking",
      OF r fair_threadsD(9) [OF f] p mutex_released [OF r f]])
  fix y s t
  assume "event_inv s" "ar_infinite s \<and> in_wait s \<and> ar_producers s i = Locking" "Wait_step y s = Some t"
  then show "(ar_infinite t \<and> in_wait t \<and> ar_producers t i = Locking) \<or> ar_consumer t = Outside (Some True) \<or>
      ar_infinite t \<and> in_wait t \<and> ar_producers t i = Setting"
    using Wait_step_infinite [of s y t] Wait_step_producers [of y s t] by auto
next
  fix j y s t
  assume "ar_infinite s \<and> in_wait s \<and> ar_producers s i = Locking" "Set_step j y s = Some t"
  then show "(ar_infinite t \<and> in_wait t \<and> ar_producers t i = Locking) \<or> ar_consumer t = Outside (Some True) \<or>
      ar_infinite t \<and> in_wait t \<and> ar_producers t i = Setting"
    using Set_step_in_wait [of j y s t] Set_step_producers [of j y s t i] by auto
qed (auto simp: in_wait_def split: if_splits)

lemma from_setting:
  assumes r: "is_run event_init event_exec st act" and f: "fair_threads st act"
    and p: "ar_infinite (st n) \<and> in_wait (st n) \<and> ar_producers (st n) i = Setting"
  shows "\<exists>m\<ge>n. ar_consumer (st m) = Outside (Some True) \<or> in_wait (st m) \<and> ar_isSet (st m)"
proof (rule weak_rule [where P = "\<lambda>s. ar_infinite s \<and> in_wait s \<and> ar_producers s i = Setting", OF r fair_threadsD(4) [OF f] p])
  fix y s t
  assume "event_inv s" "ar_infinite s \<and> in_wait s \<and> ar_producers s i = Setting" "Wait_step y s = Some t"
  then show "(ar_infinite t \<and> in_wait t \<and> ar_producers t i = Setting) \<or> ar_consumer t = Outside (Some True) \<or> in_wait t \<and> ar_isSet t"
    using Wait_step_infinite [of s y t] Wait_step_producers [of y s t] by auto
next
  fix j y s t
  assume "ar_infinite s \<and> in_wait s \<and> ar_producers s i = Setting" "Set_step j y s = Some t"
  then show "(ar_infinite t \<and> in_wait t \<and> ar_producers t i = Setting) \<or> ar_consumer t = Outside (Some True) \<or> in_wait t \<and> ar_isSet t"
    using Set_step_in_wait [of j y s t] Set_step_producers [of j y s t i] by auto
qed (auto simp: in_wait_def)

text \<open>
  C4. No call of \<open>Set\<close> is missed: if the consumer is in \<open>Wait\<close>, and the flag is set, or the wait has no timeout and
  some producer is on its way to set the flag, then under a fair scheduler the consumer returns true after
  finitely many steps, whatever the other producers do and however often the condition variable wakes the
  consumer without a reason.
\<close>

theorem wait_eventually_returns:
  assumes "is_run event_init event_exec st act" and "fair_threads st act" and "in_wait (st n)"
    and "ar_isSet (st n) \<or> ar_infinite (st n) \<and> (ar_producers (st n) i = Locking \<or> ar_producers (st n) i = Setting)"
  shows "\<exists>m\<ge>n. ar_consumer (st m) = Outside (Some True)"
proof -
  let ?goal = "\<lambda>n. \<exists>m\<ge>n. ar_consumer (st m) = Outside (Some True)"
  note set = waiting_ends [OF assms(1,2)]
  have setting: "?goal n" if "ar_infinite (st n) \<and> in_wait (st n) \<and> ar_producers (st n) i = Setting" for n
    by (rule eventually_then [OF from_setting [OF assms(1,2) that]]) (use set in blast)
  have locking: "?goal n" if "ar_infinite (st n) \<and> in_wait (st n) \<and> ar_producers (st n) i = Locking" for n
    by (rule eventually_then [OF from_locking [OF assms(1,2) that]]) (use setting in blast)
  show ?thesis using assms(3,4) set setting locking by blast
qed

section \<open>The deadline\<close>

text \<open>
  The deadline of a wait is normalised, as the condition variable requires, is the given time after now, and
  does not overflow for times of the next centuries.
\<close>

lemma wait_deadline_normalised:
  assumes "0 \<le> tv_nsec now" "tv_nsec now < 1000000000" "0 \<le> timeout"
  shows "0 \<le> tv_nsec (wait_deadline now timeout)" "tv_nsec (wait_deadline now timeout) < 1000000000"
    and "tv_sec (wait_deadline now timeout) * 1000000000 + tv_nsec (wait_deadline now timeout) =
      tv_sec now * 1000000000 + tv_nsec now + timeout * 1000000"
    and "0 \<le> tv_sec now \<Longrightarrow> tv_sec now < 2 ^ 62 \<Longrightarrow> timeout < 2 ^ 63 \<Longrightarrow> tv_sec (wait_deadline now timeout) < 2 ^ 63"
proof -
  have m: "0 \<le> timeout mod 1000 * 1000000" "timeout mod 1000 * 1000000 < 1000000000"
    using pos_mod_bound [of 1000 timeout] by simp_all
  have "timeout = timeout div 1000 * 1000 + timeout mod 1000" by (rule div_mult_mod_eq [symmetric])
  then have d: "timeout * 1000000 = timeout div 1000 * 1000000000 + timeout mod 1000 * 1000000" by linarith
  show "0 \<le> tv_nsec (wait_deadline now timeout)" "tv_nsec (wait_deadline now timeout) < 1000000000"
    using assms m by (simp_all add: wait_deadline_def Let_def del: pos_mod_bound)
  show "tv_sec (wait_deadline now timeout) * 1000000000 + tv_nsec (wait_deadline now timeout) =
      tv_sec now * 1000000000 + tv_nsec now + timeout * 1000000"
    unfolding d by (simp add: wait_deadline_def Let_def)
  show "tv_sec (wait_deadline now timeout) < 2 ^ 63" if "0 \<le> tv_sec now" "tv_sec now < 2 ^ 62" "timeout < 2 ^ 63"
  proof -
    have "timeout div 1000 \<le> 2 ^ 63 div 1000" using that(3) by (intro zdiv_mono1) auto
    then show ?thesis using that by (simp add: wait_deadline_def Let_def)
  qed
qed

section \<open>An example\<close>

text \<open>The consumer waits without a timeout, a producer sets the event, and then nothing happens any more.\<close>

definition demo_actions :: "event_action list" where
  "demo_actions = [ByConsumer (CallWait True), ByProducer 0 CallSet, ByProducer 0 SetLock, ByProducer 0 SetFlag,
     ByProducer 0 SetSignal, ByProducer 0 SetUnlock, ByConsumer WaitLock, ByConsumer WaitTest, ByConsumer WaitReturn]"

fun exec_list :: "event_action list \<Rightarrow> AutoResetEvent \<Rightarrow> AutoResetEvent" where
  "exec_list [] s = s"
| "exec_list (x # xs) s = (case event_exec x s of None \<Rightarrow> s | Some t \<Rightarrow> exec_list xs t)"

definition demo_states :: "nat \<Rightarrow> AutoResetEvent" where
  "demo_states n = exec_list (take n demo_actions) (newAutoResetEvent False)"

definition demo_taken :: "nat \<Rightarrow> event_action option" where
  "demo_taken n = (if n < 9 then Some (demo_actions ! n) else None)"

lemma demo_end: "9 \<le> n \<Longrightarrow> demo_states n = \<lparr>ar_mutex = None, ar_isSet = False, ar_signaled = False,
    ar_consumer = Outside (Some True), ar_infinite = True, ar_producers = (\<lambda>_. Idle)\<rparr>"
  by (simp add: demo_states_def demo_actions_def newAutoResetEvent_def take_Cons' fun_upd_idem)

lemma demo_step: "n < 9 \<Longrightarrow> event_exec (demo_actions ! n) (demo_states n) = Some (demo_states (Suc n))"
proof -
  assume "n < 9"
  then consider "n = 0" | "n = 1" | "n = 2" | "n = 3" | "n = 4" | "n = 5" | "n = 6" | "n = 7" | "n = 8" by linarith
  then show ?thesis
    by cases (simp_all add: demo_states_def demo_actions_def newAutoResetEvent_def)
qed

lemma demo_is_run: "is_run event_init event_exec demo_states demo_taken"
  using demo_step demo_end
  by (auto simp: is_run_def demo_taken_def event_init_def demo_states_def split: option.splits)

lemma demo_is_fair: "fair_threads demo_states demo_taken"
  unfolding fair_threads_def
  by (intro conjI allI ballI; rule fair_if_disabled [where N = 9]) (auto simp: demo_end)

theorem set_flag_never_lost_witness:
  "ar_isSet (demo_states 8) \<and> \<not> ar_isSet (demo_states (Suc 8)) \<and> ar_consumer (demo_states (Suc 8)) = Outside (Some True)"
proof -
  have "ar_isSet (demo_states 8)" by (simp add: demo_states_def demo_actions_def newAutoResetEvent_def)
  moreover have "\<not> ar_isSet (demo_states (Suc 8))" by (simp add: demo_end)
  ultimately show ?thesis using set_flag_never_lost [OF demo_is_run, of 8] by blast
qed

theorem wait_eventually_returns_witness: "\<exists>m\<ge>2. ar_consumer (demo_states m) = Outside (Some True)"
proof -
  have "demo_states 2 = (newAutoResetEvent False)\<lparr>ar_consumer := Entering, ar_infinite := True, ar_producers := (\<lambda>_. Idle)(0 := Locking)\<rparr>"
    by (simp add: demo_states_def demo_actions_def newAutoResetEvent_def)
  then show ?thesis
    by (intro wait_eventually_returns [OF demo_is_run demo_is_fair, where i = 0]) (simp_all add: in_wait_def)
qed

end
