(* ===== verification/Spec2Isabelle.thy ===== *)
theory Spec2Isabelle
  imports SpinLock RingBuf TreeJson Threads Traverser CodeCache EventPipe ResetEvent
begin

text \<open>
  Verification of the native .NET profiler of this repository
  (\<open>src/profiler/src/ProfilerEngine\<close>): the parts of it that are algorithms rather than calls of the
  runtime or of the operating system. File names below are relative to \<open>Datadog.Profiler.Native\<close> unless
  they say otherwise.

  \<^bold>\<open>Parts and how they interact.\<close> The profiler runs inside the profiled process. Its threads walk the list of
  managed threads (\<open>ManagedThreadList\<close>) and sample them; signal handlers ask whether an instruction pointer
  is managed code (\<open>ManagedCodeCache\<close>) and publish samples through a ring buffer
  (\<open>Datadog.Profiler.Native.Linux/RingBuffer\<close>); both rely on the signal-safe spin locks. A heap snapshot
  walks the object graph from each root (\<open>ReferenceChainTraverser\<close>): it reads GC descriptors and
  MethodTables under the memory fault guard, keeps the visited objects in a hash map, asks the cache of
  inline value types for the layout of embedded structures, collects a tree of types, and serializes it
  to a binary format or to JSON. Events of the runtime arrive as bytes (\<open>EventPipeEventsManager\<close>); two parsers
  decode them, one puts the events of garbage collections together (\<open>ClrEventsParser\<close>), the other
  (\<open>BclEventsParser\<close>) calls the provider that follows HTTP requests by their activity (\<open>NetworkProvider\<close>,
  \<open>NetworkActivity\<close>). A worker thread is woken through an auto-reset event.

  \<^bold>\<open>Shared theories.\<close>
  \<^item> \<open>Prelude\<close>: the machine types, masks of power-of-two tables, cyclic positions.
  \<^item> \<open>Bytes\<close>: little-endian integers and decimal text; \<open>Codec\<close>: the law of a byte codec and of counted
    sequences; \<open>Channel\<close>: the contract of a bounded FIFO channel.
  \<^item> \<open>Transition\<close>: step relations, reachable states, and the locale \<open>invariant_system\<close> by which a component
    hands its inductive invariant to its clients (interpreted for the locks, the ring buffer, the thread
    list, the value type cache and the code cache).
  \<^item> \<open>Fairness\<close>: infinite runs, weak and strong fairness, and the locale \<open>action_system\<close> with the progress rules
    (interpreted for the auto-reset event).
  \<^item> \<open>EventReader\<close>: reading event payloads (\<open>EventsParserHelper.h\<close>). Readers that stay in the buffer are closed
    under sequencing, and readers of encoded fields give the fields back; the parsers inherit both.
  \<^item> \<open>Outcome\<close>: byte memory with unmapped addresses, actions that end with a value, a memory fault or an
    exception, \<open>MemoryFaultGuard.h\<close> (\<open>Run\<close>), and total Hoare triples.

  \<^bold>\<open>Components.\<close>
  \<^item> \<open>VisitedSet\<close> models \<open>VisitedObjectSet.h\<close>: the open-addressing table with its recorded buckets. Each
    operation ends and refines a map from addresses to types, also across growth; \<open>Clear\<close> empties the
    table after an interrupted traversal; a run of insertions visits each object once.
  \<^item> \<open>SpinLock\<close> models \<open>SpinningMutex.hpp\<close> and \<open>ReaderWriterSpinningMutex.hpp\<close> as step relations of any number
    of threads over the atomic operations: mutual exclusion, writer preference without leaked counts, and
    bounded timed acquisition.
  \<^item> \<open>RingBuf\<close> models \<open>Datadog.Profiler.Native.Linux/RingBuffer.cpp\<close>: reservation, commit, discard and
    consumption, creation over the system calls, and the FIFO contract in every interleaving.
  \<^item> \<open>Utf\<close> models \<open>miniutf.cpp\<close> and the string helpers (\<open>src/shared/src/native-src\<close>): round trips, exactness
    of the check.
  \<^item> \<open>RefTree\<close>, \<open>TreeSerial\<close>, \<open>TreeJson\<close> model \<open>TypeReferenceTree.h\<close> and the two serializers: a reader of the
    documented formats recovers the tree.
  \<^item> \<open>Threads\<close> models \<open>ManagedThreadInfo\<close> and \<open>ManagedThreadList\<close>: the index is exact in every reachable
    state, removal keeps the iterators, the list refines a registry, the round-robin scan ends.
  \<^item> \<open>GCDesc\<close> models \<open>GCDescReader.h\<close>, \<open>CorSig\<close> the compressed signatures of \<open>coreclr/src/inc/cor.h\<close>,
    \<open>VTCache\<close> models \<open>InlineVTCache.cpp\<close> and \<open>CoreLibModuleProvider.cpp\<close>: the enumeration visits exactly the
    reference slots; the codecs are inverse; the resolution of queued types ends and keeps the cache
    well formed.
  \<^item> \<open>Traverser\<close> models \<open>ReferenceChainTraverser.cpp\<close> over all of the former: a traversal returns whatever
    faults occur and visits only, and when it completes a small graph all, reachable objects.
  \<^item> \<open>CodeCache\<close> models \<open>ManagedCodeCache.cpp\<close>: page map, binary searches, module ranges read from PE
    headers; lookups find exactly the current range, in every interleaving of critical sections.
  \<^item> \<open>NetActivity\<close> models \<open>NetworkActivity.cpp\<close>: paths encoded in GUIDs are decoded to themselves, and the
    accesses of the decoder outside of its buffers are characterised.
  \<^item> \<open>BclEvents\<close> models \<open>BclEventsParser.cpp\<close>: documented payloads become the one listener call with their
    fields. \<open>ClrEvents\<close> models \<open>ClrEventsParser.cpp\<close>: for every event sequence each listener of garbage
    collections sees ends and pauses that belong to announced collections.
  \<^item> \<open>NetProvider\<close> models \<open>NetworkProvider.cpp\<close> and \<open>NetworkRequestInfo.cpp\<close>: interleaved requests behave as if each
    were alone, a request gives one sample with the durations of its phases, the metrics match the samples.
  \<^item> \<open>EventPipe\<close> models \<open>EventPipeEventsManager.cpp\<close> and composes the former: no event is read outside of its
    buffers, the provider cache stays true, and a stream of encoded events has the effect of its calls.
  \<^item> \<open>ResetEvent\<close> models \<open>Datadog.Profiler.Native.Linux/AutoResetEvent.cpp\<close>: a set flag is never lost, and a
    waiting consumer eventually returns under a fair scheduler.

  \<^bold>\<open>How code is rendered.\<close> Structures are records, enumerations datatypes, machine integers words of their
  width, so that wrap-around is that of the code. Loops that end are \<open>fun\<close> or \<open>function\<close>; the loops whose end
  depends on the state (probing, the page loop, the traversal loops) are \<open>partial_function (option)\<close> with no
  fuel, and the theorems say that they return. The only bounds are those of the code (buffer sizes, retry
  and depth limits). Answers of the CLR, of system calls, of clocks and of timed lock attempts are
  arguments of the definitions; where a theorem needs a documented behaviour of theirs it is a named
  hypothesis with a witness. Atomic operations are sequentially consistent steps; a critical section
  under a blocking lock is one step, except in \<open>ResetEvent\<close>, where taking and releasing the mutex are steps.
  The network handlers are not interleaved with each other while they change an entry.

  \<^bold>\<open>Not modelled.\<close> The callback glue and the stores of names, whose behaviour is that of CLR metadata calls;
  the other samples providers, stack walkers and signal managers, which are sequences of system and
  runtime calls; configuration, exporters over generated protocol buffer code and HTTP; the samplers, which
  compute with floating point numbers and random draws; the Windows back end; third-party and generated
  code; the managed wrappers and tests. Weak memory orders, allocation failure and logging are not
  represented. The manifest lists every part with its status.
\<close>

end
